(* ===== verification/Prelude.thy ===== *)
theory Prelude
  imports Complex_Main "HOL-Library.FSet" "HOL-Library.Word"
begin

text \<open>
  The vocabulary every component of the development shares: the model's type names, the
  collections of simplification rules, the part of Go's standard library the sources rely on
  (\<^verbatim>\<open>sort.Search\<close>, the dynamically typed \<^verbatim>\<open>any\<close>), reachability of a transition system with the
  interface that turns an inductive invariant into a fact about every reachable state, and the
  interface of a monotone high-water mark.

  Spool sequences, source sequences and counters are Go \<^verbatim>\<open>int64\<close> values; they are modelled by
  \<open>int\<close> because no operation of the sources reaches the width (a spool of \<open>2 ^ 63\<close> rows). Where the
  width can be reached (the retry backoff), the model uses \<open>64 word\<close>.
\<close>

section \<open>Names of the model's types\<close>

type_synonym seq = int
type_synonym node_name = string
type_synonym gotime = int   \<comment> \<open>nanoseconds; the zero \<^verbatim>\<open>time.Time\<close> is 0\<close>
type_synonym duration = int \<comment> \<open>nanoseconds\<close>

text \<open>The values Go's \<^verbatim>\<open>any\<close> carries in message metadata, decoded payloads and configuration. A
  \<^verbatim>\<open>float64\<close> stands for the rational it denotes (infinities and NaN have no YAML or JSON literal);
  a map is an association list, in the order an iteration visits it.\<close>

datatype any =
    ANil
  | ABool bool
  | AInt int
  | AFloat rat
  | AStr string
  | AList "any list"
  | AMap "(string \<times> any) list"

type_synonym meta = "string \<rightharpoonup> any"

text \<open>\<^verbatim>\<open>s, _ := v.(string)\<close>: the zero value when the assertion fails.\<close>

fun as_string :: "any option \<Rightarrow> string" where
  "as_string (Some (AStr s)) = s"
| "as_string _ = ''''"

named_theorems tracker_simps \<open>definitions of the commit tracker's operations\<close>
named_theorems store_simps \<open>definitions of the stores' operations\<close>
named_theorems engine_simps \<open>definitions of the engine's handlers\<close>

section \<open>Go's sort.Search\<close>

text \<open>
  \<^verbatim>\<open>sort.Search(n, f)\<close>: the binary search of the standard library, with its loop
  \<^verbatim>\<open>i, j := 0, n; for i < j { h := (i+j)/2; if !f(h) { i = h+1 } else { j = h } }\<close>.
\<close>

function sort_search_loop :: "(nat \<Rightarrow> bool) \<Rightarrow> nat \<Rightarrow> nat \<Rightarrow> nat" where
  "sort_search_loop p i j =
     (if i < j
      then let h = (i + j) div 2
           in if \<not> p h then sort_search_loop p (h + 1) j else sort_search_loop p i h
      else i)"
  by pat_completeness auto
termination
  by (relation "measure (\<lambda>(p, i, j). j - i)") auto

declare sort_search_loop.simps [simp del]

definition sort_search :: "nat \<Rightarrow> (nat \<Rightarrow> bool) \<Rightarrow> nat" where
  "sort_search n p = sort_search_loop p 0 n"

lemma sort_search_loop_least:
  assumes "\<And>a b. a \<le> b \<Longrightarrow> b < n \<Longrightarrow> p a \<Longrightarrow> p b"
    and "i \<le> j" and "j \<le> n"
    and "\<And>k. k < i \<Longrightarrow> \<not> p k" and "\<And>k. j \<le> k \<Longrightarrow> k < n \<Longrightarrow> p k"
  shows "sort_search_loop p i j \<le> j
    \<and> (\<forall>k < sort_search_loop p i j. \<not> p k)
    \<and> (\<forall>k < n. sort_search_loop p i j \<le> k \<longrightarrow> p k)"
  using assms
proof (induction p i j rule: sort_search_loop.induct)
  case (1 p i j)
  let ?h = "(i + j) div 2"
  show ?case
  proof (cases "i < j")
    case False
    with "1.prems" show ?thesis by (subst (1 2 3) sort_search_loop.simps) auto
  next
    case True
    then have h: "i \<le> ?h" "?h < j" by auto
    show ?thesis
    proof (cases "p ?h")
      case True
      have up: "\<And>k. ?h \<le> k \<Longrightarrow> k < n \<Longrightarrow> p k" using "1.prems"(1) True by blast
      have "sort_search_loop p i ?h \<le> ?h
          \<and> (\<forall>k < sort_search_loop p i ?h. \<not> p k)
          \<and> (\<forall>k < n. sort_search_loop p i ?h \<le> k \<longrightarrow> p k)"
        using "1.IH"(2)[OF \<open>i < j\<close> refl] True h "1.prems" up by simp
      then show ?thesis
        using True \<open>i < j\<close> h by (simp add: sort_search_loop.simps [of p i j] Let_def)
    next
      case False
      have low: "\<And>k. k < ?h + 1 \<Longrightarrow> \<not> p k"
        using "1.prems"(1,3) False h by (metis less_Suc_eq_le order.strict_trans2 Suc_eq_plus1)
      have "sort_search_loop p (?h + 1) j \<le> j
          \<and> (\<forall>k < sort_search_loop p (?h + 1) j. \<not> p k)
          \<and> (\<forall>k < n. sort_search_loop p (?h + 1) j \<le> k \<longrightarrow> p k)"
        using "1.IH"(1)[OF \<open>i < j\<close> refl] False h "1.prems" low by simp
      then show ?thesis
        using False \<open>i < j\<close> by (simp add: sort_search_loop.simps [of p i j] Let_def)
    qed
  qed
qed

lemma sort_search_least:
  assumes "\<And>a b. a \<le> b \<Longrightarrow> b < n \<Longrightarrow> p a \<Longrightarrow> p b"
  shows "sort_search n p \<le> n"
    and "k < sort_search n p \<Longrightarrow> \<not> p k"
    and "sort_search n p \<le> k \<Longrightarrow> k < n \<Longrightarrow> p k"
  using sort_search_loop_least [of n p 0 n] assms by (auto simp: sort_search_def)

text \<open>On a list sorted by a key, the search for the first key that satisfies an upward closed
  test splits the list exactly where \<open>takeWhile\<close> and \<open>dropWhile\<close> do.\<close>

lemma sort_search_takeWhile:
  assumes "\<And>a b. a \<le> b \<Longrightarrow> b < length xs \<Longrightarrow> p (xs ! a) \<Longrightarrow> p (xs ! b)"
  shows "sort_search (length xs) (\<lambda>i. p (xs ! i)) = length (takeWhile (\<lambda>x. \<not> p x) xs)"
proof -
  let ?n = "sort_search (length xs) (\<lambda>i. p (xs ! i))"
  have n: "?n \<le> length xs" by (rule sort_search_least) (use assms in blast)
  have low: "\<not> p (xs ! k)" if "k < ?n" for k
    using sort_search_least(2) [of "length xs" "\<lambda>i. p (xs ! i)" k] assms that by blast
  have up: "p (xs ! ?n)" if "?n < length xs"
    using sort_search_least(3) [of "length xs" "\<lambda>i. p (xs ! i)" ?n] assms that by blast
  have "takeWhile (\<lambda>x. \<not> p x) xs = take ?n xs"
    by (rule takeWhile_eq_take_P_nth) (use low up in simp_all)
  then show ?thesis using n by simp
qed

section \<open>Reachable states and invariants\<close>

inductive reachable :: "('s \<Rightarrow> bool) \<Rightarrow> ('s \<Rightarrow> 's \<Rightarrow> bool) \<Rightarrow> 's \<Rightarrow> bool"
  for init :: "'s \<Rightarrow> bool" and step :: "'s \<Rightarrow> 's \<Rightarrow> bool" where
  reach_init: "init s \<Longrightarrow> reachable init step s"
| reach_step: "reachable init step s \<Longrightarrow> step s t \<Longrightarrow> reachable init step t"

text \<open>
  The contract of an inductive invariant: it holds initially and every step keeps it. Each
  component that runs as a transition system discharges it once for its own step relation.
\<close>

locale inductive_invariant =
  fixes init :: "'s \<Rightarrow> bool" and step :: "'s \<Rightarrow> 's \<Rightarrow> bool" and inv :: "'s \<Rightarrow> bool"
  assumes init_inv: "init s \<Longrightarrow> inv s"
    and step_inv: "step s t \<Longrightarrow> inv s \<Longrightarrow> inv t"
begin

lemma reachable_inv: "reachable init step s \<Longrightarrow> inv s"
  by (induction rule: reachable.induct) (auto intro: init_inv step_inv)

end

section \<open>Monotone high-water marks\<close>

text \<open>
  Three components keep a value that may never move backwards: the engine's persisted
  checkpoint, the source committer's persisted frontier and the store writer's coalescing marks.
  The contract is that no operation lowers the mark; the client fact is that no sequence of
  operations does.
\<close>

locale high_water_mark =
  fixes mark :: "'s \<Rightarrow> int" and apply_op :: "'op \<Rightarrow> 's \<Rightarrow> 's"
  assumes op_mono: "mark s \<le> mark (apply_op x s)"
begin

lemma run_mono: "mark s \<le> mark (fold apply_op xs s)"
proof (induction xs arbitrary: s)
  case Nil
  show ?case by simp
next
  case (Cons x xs)
  have "mark s \<le> mark (apply_op x s)" by (rule op_mono)
  also have "\<dots> \<le> mark (fold apply_op xs (apply_op x s))" by (rule Cons.IH)
  finally show ?case by simp
qed

lemma run_prefix_mono: "mark (fold apply_op xs s) \<le> mark (fold apply_op (xs @ ys) s)"
  by (simp add: run_mono)

end

end
