(* ===== verification/Commit.thy ===== *)
theory Commit
  imports Prelude
begin

text \<open>
  The commit tracker of \<^verbatim>\<open>src/internal/engine/commit.go\<close>: per message outstanding branch counts,
  the contiguous committed prefix with its hole barrier, the FIFO of source emissions and the
  per-source frontiers. Every method of \<^verbatim>\<open>commitTracker\<close> and \<^verbatim>\<open>srcTracker\<close> runs under the
  tracker's mutex and is one function here; the callbacks a method runs after it released the
  mutex are returned as a value (\<open>callbacks\<close>), because other goroutines may run in between.
\<close>

section \<open>The per-source frontier (srcTracker)\<close>

record srcTracker =
  arrivedAt :: "seq fset"
  committedAt :: "seq fset"
  front :: seq

definition newSrcTracker :: srcTracker where
  "newSrcTracker = \<lparr>arrivedAt = {||}, committedAt = {||}, front = 0\<rparr>"

definition src_arrived :: "seq \<Rightarrow> srcTracker \<Rightarrow> srcTracker" where
  "src_arrived q s = s\<lparr>arrivedAt := finsert q (arrivedAt s)\<rparr>"

text \<open>The frontier loop of \<^verbatim>\<open>srcTracker.committed\<close>; it stops because each turn passes one more
  element of the finite \<^verbatim>\<open>arrivedAt\<close>.\<close>

function front_loop :: "seq fset \<Rightarrow> seq fset \<Rightarrow> seq \<Rightarrow> seq" where
  "front_loop ca aa f =
     (if f + 1 |\<in>| ca \<and> f + 1 |\<in>| aa then front_loop ca aa (f + 1) else f)"
  by pat_completeness auto
termination
proof (relation "measure (\<lambda>(ca, aa, f). card {x \<in> fset aa. f < x})", goal_cases)
  case 1
  show ?case by simp
next
  case (2 ca aa f)
  have fin: "finite {x \<in> fset aa. f < x}"
    by (rule finite_subset [of _ "fset aa"]) auto
  have "f + 1 \<in> fset aa" using 2 by blast
  then have "f + 1 \<in> {x \<in> fset aa. f < x}" and "f + 1 \<notin> {x \<in> fset aa. f + 1 < x}"
    by simp_all
  moreover have "{x \<in> fset aa. f + 1 < x} \<subseteq> {x \<in> fset aa. f < x}"
    by (rule subsetI) simp
  ultimately have "{x \<in> fset aa. f + 1 < x} \<subset> {x \<in> fset aa. f < x}" by blast
  from psubset_card_mono [OF fin this] show ?case by simp
qed

declare front_loop.simps [simp del]

definition src_committed :: "seq list \<Rightarrow> srcTracker \<Rightarrow> srcTracker" where
  "src_committed qs s =
     (let ca = committedAt s |\<union>| fset_of_list qs;
          f = front_loop ca (arrivedAt s) (front s);
          swept = (\<lambda>q. front s + 1 \<le> q \<and> q \<le> f)
      in \<lparr>arrivedAt = ffilter (\<lambda>q. \<not> swept q) (arrivedAt s),
          committedAt = ffilter (\<lambda>q. \<not> swept q) ca,
          front = f\<rparr>)"

section \<open>The commit tracker\<close>

record srcRefEntry =
  ref_seq :: seq
  ref_node :: node_name
  ref_srcSeq :: seq

record commitTracker =
  outstanding :: "seq \<rightharpoonup> int"
  openBranches :: int
  arrivedMax :: seq
  committedPtr :: seq
  removed :: "seq set"
  srcRefs :: "srcRefEntry list"
  srcs :: "node_name \<rightharpoonup> srcTracker"

text \<open>What a method hands to \<^verbatim>\<open>invoke\<close>: the messages for \<^verbatim>\<open>onCommit\<close> in order, and the
  argument of \<^verbatim>\<open>onAdvance\<close> when the prefix (or a frontier) moved.\<close>

record callbacks =
  cb_commits :: "seq list"
  cb_advance :: "(seq \<times> (node_name \<rightharpoonup> seq)) option"

definition no_callbacks :: callbacks where
  "no_callbacks = \<lparr>cb_commits = [], cb_advance = None\<rparr>"

definition newCommitTracker :: "node_name list \<Rightarrow> commitTracker" where
  "newCommitTracker sources =
     \<lparr>outstanding = Map.empty, openBranches = 0, arrivedMax = 0, committedPtr = 1,
      removed = {}, srcRefs = [],
      srcs = (\<lambda>n. if n \<in> set sources then Some newSrcTracker else None)\<rparr>"

definition posBranches :: "int \<Rightarrow> int" where
  "posBranches v = (if v > 0 then v else 0)"

definition addSrcRef :: "seq \<Rightarrow> node_name \<Rightarrow> seq \<Rightarrow> srcRefEntry list \<Rightarrow> srcRefEntry list" where
  "addSrcRef q node srcSeq refs =
     (let entry = \<lparr>ref_seq = q, ref_node = node, ref_srcSeq = srcSeq\<rparr>; n = length refs
      in if n = 0 \<or> q > ref_seq (refs ! (n - 1)) then refs @ [entry]
         else let i = sort_search n (\<lambda>i. ref_seq (refs ! i) \<ge> q)
              in take i refs @ [entry] @ drop i refs)"

text \<open>\<^verbatim>\<open>outstanding[seq]\<close> of a missing key reads 0 in Go.\<close>

definition outstanding_of :: "commitTracker \<Rightarrow> seq \<Rightarrow> int" where
  "outstanding_of t q = (case outstanding t q of None \<Rightarrow> 0 | Some n \<Rightarrow> n)"

definition arrived :: "seq \<Rightarrow> node_name \<Rightarrow> seq \<Rightarrow> commitTracker \<Rightarrow> commitTracker" where
  "arrived q node srcSeq t =
     (let t1 = t\<lparr>openBranches := openBranches t + (1 - posBranches (outstanding_of t q)),
                 outstanding := (outstanding t)(q \<mapsto> 1),
                 arrivedMax := (if q > arrivedMax t then q else arrivedMax t)\<rparr>
      in if node \<noteq> ''''
         then (case srcs t1 node of
                 None \<Rightarrow> t1
               | Some st \<Rightarrow> t1\<lparr>srcs := (srcs t1)(node \<mapsto> src_arrived srcSeq st),
                              srcRefs := addSrcRef q node srcSeq (srcRefs t1)\<rparr>)
         else t1)"

text \<open>The scan of \<^verbatim>\<open>advanceLocked\<close>: it stops at live branches and at a hole (no entry and no
  removal mark), and passes drained and intentionally removed sequences.\<close>

definition passable :: "commitTracker \<Rightarrow> seq \<Rightarrow> bool" where
  "passable t q = (case outstanding t q of Some n \<Rightarrow> \<not> n > 0 | None \<Rightarrow> q \<in> removed t)"

function advance_loop :: "commitTracker \<Rightarrow> seq list \<Rightarrow> bool \<Rightarrow> commitTracker \<times> seq list \<times> bool" where
  "advance_loop t justCommit advanced =
     (if committedPtr t \<le> arrivedMax t \<and> passable t (committedPtr t)
      then advance_loop
             (t\<lparr>outstanding := (outstanding t)(committedPtr t := None),
                removed := removed t - {committedPtr t},
                committedPtr := committedPtr t + 1\<rparr>)
             (if outstanding t (committedPtr t) \<noteq> None
              then justCommit @ [committedPtr t] else justCommit)
             True
      else (t, justCommit, advanced))"
  by pat_completeness auto
termination
  by (relation "measure (\<lambda>(t, _, _). nat (arrivedMax t + 1 - committedPtr t))") auto

declare advance_loop.simps [simp del]

definition frontiers_of :: "commitTracker \<Rightarrow> node_name \<rightharpoonup> seq" where
  "frontiers_of t = (\<lambda>n. map_option front (srcs t n))"

text \<open>The popped prefix of the FIFO, grouped by source; a source with no popped emission is left
  alone, exactly as the range over the \<^verbatim>\<open>committed\<close> map does.\<close>

definition sweepSrcRefsLocked ::
    "seq \<Rightarrow> commitTracker \<Rightarrow> commitTracker \<times> (node_name \<rightharpoonup> seq) \<times> bool" where
  "sweepSrcRefsLocked thru t =
     (let popped = takeWhile (\<lambda>r. ref_seq r \<le> thru) (srcRefs t);
          committed = (\<lambda>n. map ref_srcSeq (filter (\<lambda>r. ref_node r = n) popped));
          t1 = t\<lparr>srcRefs := dropWhile (\<lambda>r. ref_seq r \<le> thru) (srcRefs t),
                 srcs := (\<lambda>n. case srcs t n of
                            None \<Rightarrow> None
                          | Some st \<Rightarrow> Some (if committed n = [] then st
                                            else src_committed (committed n) st))\<rparr>
      in (t1, frontiers_of t1, popped \<noteq> []))"

definition advanceLocked ::
    "commitTracker \<Rightarrow> commitTracker \<times> seq list \<times> (seq \<times> (node_name \<rightharpoonup> seq)) option" where
  "advanceLocked t =
     (case advance_loop t [] False of (t1, justCommit, advanced) \<Rightarrow>
        if \<not> advanced then (t1, justCommit, None)
        else (case sweepSrcRefsLocked (committedPtr t1 - 1) t1 of (t2, frontiers, _) \<Rightarrow>
                (t2, justCommit, Some (committedPtr t1 - 1, frontiers))))"

definition invoke :: "seq list \<Rightarrow> (seq \<times> (node_name \<rightharpoonup> seq)) option \<Rightarrow> callbacks" where
  "invoke justCommit adv = \<lparr>cb_commits = justCommit, cb_advance = adv\<rparr>"

definition add_delta :: "seq \<Rightarrow> int \<Rightarrow> commitTracker \<Rightarrow> commitTracker \<times> callbacks" where
  "add_delta q delta t =
     (case outstanding t q of
        None \<Rightarrow> (t, no_callbacks)
      | Some before \<Rightarrow>
          let count = before + delta;
              t1 = t\<lparr>outstanding := (outstanding t)(q \<mapsto> count),
                     openBranches := openBranches t + (posBranches count - posBranches before)\<rparr>;
              straggler = (count \<le> 0 \<and> q < committedPtr t1)
          in (case advanceLocked t1 of (t2, justCommit, adv) \<Rightarrow>
                if straggler
                then let t3 = t2\<lparr>outstanding := (outstanding t2)(q := None)\<rparr>
                     in (case sweepSrcRefsLocked (committedPtr t3 - 1) t3 of
                           (t4, frontiers, swept) \<Rightarrow>
                             (t4, invoke (justCommit @ [q])
                                    (if adv \<noteq> None \<or> swept
                                     then Some (committedPtr t3 - 1, frontiers) else None)))
                else (t2, invoke justCommit adv)))"

definition done_branch :: "seq \<Rightarrow> commitTracker \<Rightarrow> commitTracker \<times> callbacks" where
  "done_branch q t = add_delta q (- 1) t"

definition forceTerminal :: "seq \<Rightarrow> commitTracker \<Rightarrow> commitTracker \<times> callbacks \<times> bool" where
  "forceTerminal q t =
     (case outstanding t q of
        None \<Rightarrow> (t, no_callbacks, False)
      | Some n \<Rightarrow>
          (case advanceLocked
                  (t\<lparr>openBranches := openBranches t - posBranches n,
                     outstanding := (outstanding t)(q := None),
                     removed := insert q (removed t)\<rparr>) of
             (t2, justCommit, adv) \<Rightarrow> (t2, invoke justCommit adv, True)))"

definition isOutstanding :: "seq \<Rightarrow> commitTracker \<Rightarrow> bool" where
  "isOutstanding q t = (case outstanding t q of None \<Rightarrow> False | Some n \<Rightarrow> n > 0)"

definition resumeFrom :: "seq \<Rightarrow> commitTracker \<Rightarrow> commitTracker" where
  "resumeFrom committedThrough t =
     (let ptr = (if committedThrough + 1 > committedPtr t then committedThrough + 1
                 else committedPtr t)
      in t\<lparr>committedPtr := ptr,
           arrivedMax := (if ptr - 1 > arrivedMax t then ptr - 1 else arrivedMax t)\<rparr>)"

definition snapshot :: "commitTracker \<Rightarrow> int \<times> seq \<times> seq" where
  "snapshot t = (openBranches t, committedPtr t - 1, arrivedMax t)"

abbreviation committedThrough :: "commitTracker \<Rightarrow> seq" where
  "committedThrough t \<equiv> committedPtr t - 1"

text \<open>
  The operations as a datatype, for runs of the tracker: a run interleaves the calls of every
  goroutine in the order in which they took the mutex.
\<close>

datatype ct_op = Arrived seq node_name seq | Add seq int | Force seq

fun ct_step :: "ct_op \<Rightarrow> commitTracker \<Rightarrow> commitTracker \<times> callbacks" where
  "ct_step (Arrived q node srcSeq) t = (arrived q node srcSeq t, no_callbacks)"
| "ct_step (Add q delta) t = add_delta q delta t"
| "ct_step (Force q) t = (case forceTerminal q t of (t', cb, _) \<Rightarrow> (t', cb))"

fun ct_run :: "ct_op list \<Rightarrow> commitTracker \<Rightarrow> commitTracker \<times> seq list" where
  "ct_run [] t = (t, [])"
| "ct_run (x # xs) t =
     (case ct_step x t of (t1, cb) \<Rightarrow>
        (case ct_run xs t1 of (t2, cs) \<Rightarrow> (t2, cb_commits cb @ cs)))"

section \<open>Well-formed trackers\<close>

text \<open>
  The invariant: the running sum is the sum of the positive counts, the cursor starts at 1 and
  never runs past the registered range, the FIFO is ordered, and the cursor stands at a sequence
  that blocks it.
\<close>

definition open_sum :: "(seq \<rightharpoonup> int) \<Rightarrow> int" where
  "open_sum m = (\<Sum>q\<in>dom m. posBranches (the (m q)))"

definition tracker_base :: "commitTracker \<Rightarrow> bool" where
  "tracker_base t \<longleftrightarrow>
     finite (dom (outstanding t)) \<and>
     openBranches t = open_sum (outstanding t) \<and>
     1 \<le> committedPtr t \<and>
     committedThrough t \<le> arrivedMax t \<and>
     (\<forall>q\<in>dom (outstanding t). q \<le> arrivedMax t) \<and>
     (\<forall>q\<in>removed t. q \<le> arrivedMax t) \<and>
     sorted (map ref_seq (srcRefs t))"

definition tracker_wf :: "commitTracker \<Rightarrow> bool" where
  "tracker_wf t \<longleftrightarrow>
     tracker_base t \<and> (committedPtr t \<le> arrivedMax t \<longrightarrow> \<not> passable t (committedPtr t))"

section \<open>The frontier of one source\<close>

lemma dropWhile_sorted_above:
  assumes "sorted (map ref_seq xs)" and "r \<in> set (dropWhile (\<lambda>r. ref_seq r \<le> c) xs)"
  shows "c < ref_seq r"
  using assms by (induction xs) (auto split: if_splits)

lemma front_loop_spec:
  "f \<le> front_loop ca aa f
   \<and> (\<forall>q. f < q \<and> q \<le> front_loop ca aa f \<longrightarrow> q |\<in>| ca \<and> q |\<in>| aa)
   \<and> \<not> (front_loop ca aa f + 1 |\<in>| ca \<and> front_loop ca aa f + 1 |\<in>| aa)"
proof (induction ca aa f rule: front_loop.induct)
  case (1 ca aa f)
  show ?case
  proof (cases "f + 1 |\<in>| ca \<and> f + 1 |\<in>| aa")
    case True
    then have eq: "front_loop ca aa f = front_loop ca aa (f + 1)"
      by (simp add: front_loop.simps [of ca aa f])
    have "q |\<in>| ca \<and> q |\<in>| aa" if "f < q" "q \<le> front_loop ca aa (f + 1)" for q
    proof (cases "q = f + 1")
      case False
      with that have "f + 1 < q" by linarith
      with that "1.IH" [OF True] show ?thesis by blast
    qed (use True in simp)
    with "1.IH" [OF True] eq show ?thesis by auto
  next
    case False
    then have "front_loop ca aa f = f" by (subst front_loop.simps) auto
    with False show ?thesis by auto
  qed
qed

lemma front_loop_ge: "f \<le> front_loop ca aa f"
  using front_loop_spec [of f ca aa] by blast

section \<open>The FIFO of source emissions\<close>

text \<open>The splice is a sorted insertion in front of the entries at or above the new sequence.\<close>

lemma addSrcRef_insert:
  assumes "sorted (map ref_seq refs)"
  shows "addSrcRef q node n refs =
    takeWhile (\<lambda>r. ref_seq r < q) refs @ \<lparr>ref_seq = q, ref_node = node, ref_srcSeq = n\<rparr> #
    dropWhile (\<lambda>r. ref_seq r < q) refs"
proof (cases "length refs = 0 \<or> q > ref_seq (refs ! (length refs - 1))")
  case True
  have "\<forall>r\<in>set refs. ref_seq r < q"
  proof
    fix r assume "r \<in> set refs"
    then obtain i where i: "i < length refs" "r = refs ! i" by (auto simp: in_set_conv_nth)
    then have "ref_seq r \<le> ref_seq (refs ! (length refs - 1))"
      using sorted_nth_mono [OF assms, of i "length refs - 1"] by simp
    with True i show "ref_seq r < q" by auto
  qed
  then have all: "takeWhile (\<lambda>r. ref_seq r < q) refs = refs" "dropWhile (\<lambda>r. ref_seq r < q) refs = []"
    by (simp_all add: takeWhile_eq_all_conv dropWhile_eq_Nil_conv)
  show ?thesis unfolding all using True by (auto simp: addSrcRef_def Let_def)
next
  case False
  have "sort_search (length refs) (\<lambda>i. ref_seq (refs ! i) \<ge> q) =
      length (takeWhile (\<lambda>r. \<not> ref_seq r \<ge> q) refs)"
  proof (rule sort_search_takeWhile)
    fix a b assume "a \<le> b" "b < length refs" "q \<le> ref_seq (refs ! a)"
    with sorted_nth_mono [OF assms, of a b] show "q \<le> ref_seq (refs ! b)" by simp
  qed
  then have "sort_search (length refs) (\<lambda>i. ref_seq (refs ! i) \<ge> q) =
      length (takeWhile (\<lambda>r. ref_seq r < q) refs)"
    by (simp add: not_le)
  with False show ?thesis
    by (simp add: addSrcRef_def Let_def flip: takeWhile_eq_take dropWhile_eq_drop)
qed

lemma addSrcRef_sorted:
  assumes "sorted (map ref_seq refs)"
  shows "sorted (map ref_seq (addSrcRef q node n refs))"
proof -
  let ?lo = "takeWhile (\<lambda>r. ref_seq r < q) refs" and ?hi = "dropWhile (\<lambda>r. ref_seq r < q) refs"
  have srt: "sorted (map ref_seq (?lo @ ?hi))" using assms by simp
  moreover have "\<forall>r\<in>set ?lo. ref_seq r \<le> q" by (auto dest: set_takeWhileD)
  moreover have "\<forall>r\<in>set ?hi. q \<le> ref_seq r"
  proof (cases ?hi)
    case (Cons x xs)
    then have "q \<le> ref_seq x" by (metis hd_dropWhile list.distinct(1) list.sel(1) not_less)
    moreover have "sorted (map ref_seq ?hi)"
      using srt by (metis map_append sorted_append)
    ultimately show ?thesis using Cons by auto
  next
    case Nil
    show ?thesis unfolding Nil by simp
  qed
  ultimately show ?thesis
    using srt unfolding addSrcRef_insert [OF assms] map_append sorted_append by fastforce
qed

section \<open>The contiguous prefix scan\<close>

text \<open>
  What the loop computes: the cursor moves to the first sequence that blocks it (or past the
  highest registered one), the entries and marks it crossed are consumed and nothing else
  changes, and the messages reported are exactly the crossed ones that had an entry, in order.
\<close>

lemma passable_cong:
  "outstanding t' q = outstanding t q \<Longrightarrow> (q \<in> removed t') = (q \<in> removed t) \<Longrightarrow>
   passable t' q = passable t q"
  by (simp add: passable_def split: option.splits)

lemma advance_loop_spec:
  assumes "advance_loop t js b = (t', js', b')"
  shows "committedPtr t \<le> committedPtr t'
    \<and> committedPtr t' \<le> max (committedPtr t) (arrivedMax t + 1)
    \<and> (\<forall>q. committedPtr t \<le> q \<and> q < committedPtr t' \<longrightarrow> passable t q)
    \<and> (committedPtr t' \<le> arrivedMax t \<longrightarrow> \<not> passable t (committedPtr t'))
    \<and> t' = t\<lparr>committedPtr := committedPtr t',
             outstanding := (\<lambda>q. if committedPtr t \<le> q \<and> q < committedPtr t' then None
                                 else outstanding t q),
             removed := removed t - {committedPtr t..<committedPtr t'}\<rparr>
    \<and> js' = js @ filter (\<lambda>q. outstanding t q \<noteq> None) [committedPtr t..committedPtr t' - 1]
    \<and> b' = (b \<or> committedPtr t < committedPtr t')"
  using assms
proof (induction t js b arbitrary: t' js' b' rule: advance_loop.induct)
  case (1 t js b)
  let ?p = "committedPtr t"
  let ?u = "t\<lparr>outstanding := (outstanding t)(?p := None), removed := removed t - {?p},
             committedPtr := ?p + 1\<rparr>"
  show ?case
  proof (cases "?p \<le> arrivedMax t \<and> passable t ?p")
    case False
    with "1.prems" have "t' = t" "js' = js" "b' = b"
      by (auto simp: advance_loop.simps [of t] split: if_splits)
    moreover have "(\<lambda>q. if ?p \<le> q \<and> q < ?p then None else outstanding t q) = outstanding t"
      by (auto simp: fun_eq_iff)
    ultimately show ?thesis using False by auto
  next
    case True
    define ks where "ks = (if outstanding t ?p \<noteq> None then js @ [?p] else js)"
    have "advance_loop ?u ks True = (t', js', b')"
      using "1.prems" True by (simp add: advance_loop.simps [of t] ks_def)
    note IH = "1.IH" [OF True, folded ks_def, OF this]
    have upt: "[?p..committedPtr t' - 1] = ?p # [?p + 1..committedPtr t' - 1]"
      using IH by (subst upto_rec1) auto
    have pu: "passable ?u q = passable t q" if "q \<noteq> ?p" for q
      by (rule passable_cong) (use that in auto)
    have pass: "passable t q" if "?p \<le> q" "q < committedPtr t'" for q
      using IH True that pu by (cases "q = ?p") auto
    have js: "js' = js @ filter (\<lambda>q. outstanding t q \<noteq> None) [?p..committedPtr t' - 1]"
    proof -
      have "filter (\<lambda>q. outstanding ?u q \<noteq> None) [?p + 1..committedPtr t' - 1]
          = filter (\<lambda>q. outstanding t q \<noteq> None) [?p + 1..committedPtr t' - 1]"
        by (rule filter_cong) auto
      with IH show ?thesis by (auto simp: upt ks_def)
    qed
    have lt: "?p < committedPtr t'" using IH by simp
    have "t' = t\<lparr>committedPtr := committedPtr t',
             outstanding := (\<lambda>q. if ?p \<le> q \<and> q < committedPtr t' then None else outstanding t q),
             removed := removed t - {?p..<committedPtr t'}\<rparr>"
    proof -
      have "t' = ?u\<lparr>committedPtr := committedPtr t',
             outstanding := (\<lambda>q. if ?p + 1 \<le> q \<and> q < committedPtr t' then None
                                 else outstanding ?u q),
             removed := removed ?u - {?p + 1..<committedPtr t'}\<rparr>"
        using IH by simp
      also have "\<dots> = t\<lparr>committedPtr := committedPtr t',
             outstanding := (\<lambda>q. if ?p \<le> q \<and> q < committedPtr t' then None else outstanding t q),
             removed := removed t - {?p..<committedPtr t'}\<rparr>"
        by (rule commitTracker.equality) (use lt in \<open>auto simp: fun_eq_iff\<close>)
      finally show ?thesis .
    qed
    then show ?thesis using IH True pass js lt pu [of "committedPtr t'"] by auto
  qed
qed

text \<open>The sweep of the FIFO touches the FIFO and the source trackers only.\<close>

lemma sweepSrcRefsLocked_frame:
  assumes "sweepSrcRefsLocked thru t = (t', fr, swept)"
  shows "outstanding t' = outstanding t" "openBranches t' = openBranches t"
    "arrivedMax t' = arrivedMax t" "committedPtr t' = committedPtr t" "removed t' = removed t"
    "srcRefs t' = dropWhile (\<lambda>r. ref_seq r \<le> thru) (srcRefs t)"
    "fr = frontiers_of t'"
  using assms by (auto simp: sweepSrcRefsLocked_def Let_def)

lemma sweepSrcRefsLocked_sorted:
  assumes "sweepSrcRefsLocked thru t = (t', fr, swept)" and "sorted (map ref_seq (srcRefs t))"
  shows "sorted (map ref_seq (srcRefs t'))"
proof -
  have "sorted (map ref_seq (takeWhile (\<lambda>r. ref_seq r \<le> thru) (srcRefs t) @ srcRefs t'))"
    unfolding sweepSrcRefsLocked_frame(6) [OF assms(1)] using assms(2) by simp
  then show ?thesis by (metis map_append sorted_append)
qed

lemma advanceLocked_spec:
  assumes "advanceLocked t = (t', js, adv)"
  shows "committedPtr t \<le> committedPtr t'"
    and "committedPtr t' \<le> max (committedPtr t) (arrivedMax t + 1)"
    and "\<And>q. committedPtr t \<le> q \<Longrightarrow> q < committedPtr t' \<Longrightarrow> passable t q"
    and "committedPtr t' \<le> arrivedMax t \<Longrightarrow> \<not> passable t (committedPtr t')"
    and "outstanding t' = (\<lambda>q. if committedPtr t \<le> q \<and> q < committedPtr t' then None
                              else outstanding t q)"
    and "removed t' = removed t - {committedPtr t..<committedPtr t'}"
    and "openBranches t' = openBranches t" and "arrivedMax t' = arrivedMax t"
    and "js = filter (\<lambda>q. outstanding t q \<noteq> None) [committedPtr t..committedPtr t' - 1]"
    and "adv = (if committedPtr t < committedPtr t'
               then Some (committedThrough t', frontiers_of t') else None)"
    and "sorted (map ref_seq (srcRefs t)) \<Longrightarrow> sorted (map ref_seq (srcRefs t'))"
proof -
  obtain u js' b where loop: "advance_loop t [] False = (u, js', b)" by (rule prod_cases3)
  note spec = advance_loop_spec [OF loop]
  have u: "u = t\<lparr>committedPtr := committedPtr u,
             outstanding := (\<lambda>q. if committedPtr t \<le> q \<and> q < committedPtr u then None
                                 else outstanding t q),
             removed := removed t - {committedPtr t..<committedPtr u}\<rparr>"
    using spec by blast
  obtain v fr sw where sweep: "sweepSrcRefsLocked (committedPtr u - 1) u = (v, fr, sw)"
    by (rule prod_cases3)
  note frame = sweepSrcRefsLocked_frame [OF sweep]
  have res: "js = js'" "t' = (if b then v else u)" "adv = (if b then Some (committedPtr u - 1, fr) else None)"
    using assms by (auto simp: advanceLocked_def loop sweep split: if_splits)
  have ptr: "committedPtr t' = committedPtr u" "outstanding t' = outstanding u"
    "removed t' = removed u" "openBranches t' = openBranches u" "arrivedMax t' = arrivedMax u"
    using res(2) frame by auto
  have u_fields: "outstanding u = (\<lambda>q. if committedPtr t \<le> q \<and> q < committedPtr u then None
                                 else outstanding t q)"
    "removed u = removed t - {committedPtr t..<committedPtr u}" "openBranches u = openBranches t"
    "arrivedMax u = arrivedMax t" "srcRefs u = srcRefs t"
    by (subst u, simp)+
  show "committedPtr t \<le> committedPtr t'" "committedPtr t' \<le> max (committedPtr t) (arrivedMax t + 1)"
    "js = filter (\<lambda>q. outstanding t q \<noteq> None) [committedPtr t..committedPtr t' - 1]"
    using spec ptr res(1) by auto
  show "passable t q" if "committedPtr t \<le> q" "q < committedPtr t'" for q
    using spec ptr that by auto
  show "\<not> passable t (committedPtr t')" if "committedPtr t' \<le> arrivedMax t"
    using spec ptr that by auto
  show "adv = (if committedPtr t < committedPtr t'
               then Some (committedThrough t', frontiers_of t') else None)"
    using spec ptr res frame(7) by auto
  show "outstanding t' = (\<lambda>q. if committedPtr t \<le> q \<and> q < committedPtr t' then None
                              else outstanding t q)"
    "removed t' = removed t - {committedPtr t..<committedPtr t'}"
    "openBranches t' = openBranches t" "arrivedMax t' = arrivedMax t"
    by (simp_all only: ptr u_fields)
  show "sorted (map ref_seq (srcRefs t'))" if "sorted (map ref_seq (srcRefs t))"
    using sweepSrcRefsLocked_sorted [OF sweep] that u_fields(5) res(2) by simp
qed

section \<open>Every operation keeps the invariant\<close>

text \<open>The running sum only sees the positive counts.\<close>

lemma open_sum_upd:
  assumes "finite (dom m)"
  shows "open_sum (m(q \<mapsto> n)) =
    open_sum m + (posBranches n - posBranches (case m q of None \<Rightarrow> 0 | Some k \<Rightarrow> k))"
proof -
  have "(\<Sum>x\<in>dom m - {q}. posBranches (the ((m(q \<mapsto> n)) x))) =
      (\<Sum>x\<in>dom m - {q}. posBranches (the (m x)))"
    by (rule sum.cong) auto
  moreover have "open_sum m = (\<Sum>x\<in>dom m - {q}. posBranches (the (m x)))
      + posBranches (case m q of None \<Rightarrow> 0 | Some k \<Rightarrow> k)"
    using assms unfolding open_sum_def
    by (cases "m q") (auto simp: sum.remove [of _ q] domIff posBranches_def intro!: sum.cong)
  moreover have "open_sum (m(q \<mapsto> n)) =
      (\<Sum>x\<in>dom m - {q}. posBranches (the ((m(q \<mapsto> n)) x))) + posBranches n"
    using assms unfolding open_sum_def by (simp add: sum.insert_remove)
  ultimately show ?thesis by simp
qed

lemma open_sum_restrict:
  assumes "finite (dom m)" and "\<And>q. P q \<Longrightarrow> m q \<noteq> None \<Longrightarrow> posBranches (the (m q)) = 0"
  shows "open_sum (\<lambda>q. if P q then None else m q) = open_sum m"
proof -
  have "(\<Sum>q\<in>dom m. posBranches (the (m q))) = (\<Sum>q\<in>{q \<in> dom m. \<not> P q}. posBranches (the (m q)))"
    using assms by (intro sum.mono_neutral_right) auto
  also have "\<dots> = open_sum (\<lambda>q. if P q then None else m q)"
    unfolding open_sum_def by (rule sum.cong) (auto split: if_splits)
  finally show ?thesis by (simp add: open_sum_def)
qed

lemma newCommitTracker_wf: "tracker_wf (newCommitTracker sources)"
  by (simp add: tracker_wf_def tracker_base_def newCommitTracker_def open_sum_def)

lemma advanceLocked_wf:
  assumes "tracker_base t" and adv: "advanceLocked t = (t', js, a)"
  shows "tracker_wf t'"
proof -
  note spec = advanceLocked_spec [OF adv]
  have pos: "posBranches (the (outstanding t q)) = 0"
    if "committedPtr t \<le> q \<and> q < committedPtr t'" "outstanding t q \<noteq> None" for q
    using spec(3) [of q] that by (auto simp: passable_def posBranches_def)
  have "open_sum (outstanding t') = open_sum (outstanding t)"
    unfolding spec(5) using assms(1) pos by (intro open_sum_restrict) (auto simp: tracker_base_def)
  moreover have "dom (outstanding t') \<subseteq> dom (outstanding t)"
    unfolding spec(5) by (auto split: if_splits)
  moreover have "committedThrough t' \<le> arrivedMax t'"
    using spec(2,8) assms(1) by (auto simp: tracker_base_def)
  moreover have "passable t' (committedPtr t') = passable t (committedPtr t')"
    by (rule passable_cong) (simp_all add: spec(5,6))
  ultimately show ?thesis
    using assms(1) spec(1,4,6,7,8,11)
    by (auto simp: tracker_wf_def tracker_base_def intro: finite_subset)
qed

lemma arrived_fields:
  "outstanding (arrived q node n t) = (outstanding t)(q \<mapsto> 1)"
  "openBranches (arrived q node n t) = openBranches t + (1 - posBranches (outstanding_of t q))"
  "arrivedMax (arrived q node n t) = max q (arrivedMax t)"
  "committedPtr (arrived q node n t) = committedPtr t"
  "removed (arrived q node n t) = removed t"
  by (auto simp: arrived_def Let_def split: option.splits)

lemma arrived_srcRefs_sorted:
  "sorted (map ref_seq (srcRefs t)) \<Longrightarrow> sorted (map ref_seq (srcRefs (arrived q node n t)))"
  by (auto simp: arrived_def Let_def intro: addSrcRef_sorted split: option.splits)

lemma arrived_wf:
  assumes "tracker_wf t"
  shows "tracker_wf (arrived q node n t)"
proof -
  have base: "tracker_base t" using assms by (simp add: tracker_wf_def)
  have "open_sum (outstanding (arrived q node n t)) =
      open_sum (outstanding t) + (1 - posBranches (outstanding_of t q))"
    using base unfolding arrived_fields
    by (subst open_sum_upd) (auto simp: tracker_base_def outstanding_of_def posBranches_def)
  then have "tracker_base (arrived q node n t)"
    using base arrived_srcRefs_sorted [of t q node n]
    by (auto simp: tracker_base_def arrived_fields le_max_iff_disj)
  moreover have "\<not> passable (arrived q node n t) (committedPtr t)"
    if "committedPtr t \<le> max q (arrivedMax t)"
  proof (cases "q = committedPtr t")
    case True
    then show ?thesis by (simp add: passable_def arrived_fields)
  next
    case False
    then have "passable (arrived q node n t) (committedPtr t) = passable t (committedPtr t)"
      by (intro passable_cong) (auto simp: arrived_fields)
    then show ?thesis
      using assms base False that
      by (cases "committedPtr t \<le> arrivedMax t")
        (auto simp: tracker_wf_def tracker_base_def passable_def split: option.splits)
  qed
  ultimately show ?thesis by (simp add: tracker_wf_def arrived_fields)
qed

text \<open>The update in front of the scan, shared by \<^verbatim>\<open>add\<close> and \<^verbatim>\<open>forceTerminal\<close>.\<close>

definition add_pre :: "seq \<Rightarrow> int \<Rightarrow> int \<Rightarrow> commitTracker \<Rightarrow> commitTracker" where
  "add_pre q delta before t =
     t\<lparr>outstanding := (outstanding t)(q \<mapsto> before + delta),
       openBranches := openBranches t + (posBranches (before + delta) - posBranches before)\<rparr>"

definition force_pre :: "seq \<Rightarrow> int \<Rightarrow> commitTracker \<Rightarrow> commitTracker" where
  "force_pre q n t = t\<lparr>openBranches := openBranches t - posBranches n,
     outstanding := (outstanding t)(q := None), removed := insert q (removed t)\<rparr>"

lemma add_pre_base:
  assumes "tracker_base t" and "outstanding t q = Some n"
  shows "tracker_base (add_pre q delta n t)"
  using assms by (auto simp: tracker_base_def add_pre_def open_sum_upd)

lemma open_sum_del:
  assumes "finite (dom m)" and "m q = Some n"
  shows "open_sum (m(q := None)) = open_sum m - posBranches n"
proof -
  have "open_sum m = posBranches (the (m q)) + (\<Sum>x\<in>dom m - {q}. posBranches (the (m x)))"
    unfolding open_sum_def using assms by (intro sum.remove) auto
  moreover have "open_sum (m(q := None)) = (\<Sum>x\<in>dom m - {q}. posBranches (the (m x)))"
    unfolding open_sum_def by (rule sum.cong) auto
  ultimately show ?thesis using assms(2) by simp
qed

lemma force_pre_base:
  assumes "tracker_base t" and "outstanding t q = Some n"
  shows "tracker_base (force_pre q n t)"
  using assms by (auto simp: tracker_base_def force_pre_def open_sum_del)

lemma add_delta_cases:
  assumes "add_delta q delta t = (t', cb)"
  obtains (closed) "outstanding t q = None" "t' = t" "cb = no_callbacks"
  | (normal) before js adv where "outstanding t q = Some before"
      "advanceLocked (add_pre q delta before t) = (t', js, adv)"
      "\<not> (before + delta \<le> 0 \<and> q < committedPtr t)" "cb = invoke js adv"
  | (straggler) before u js adv fr sw where "outstanding t q = Some before"
      "advanceLocked (add_pre q delta before t) = (u, js, adv)"
      "before + delta \<le> 0" "q < committedPtr t"
      "sweepSrcRefsLocked (committedPtr u - 1) (u\<lparr>outstanding := (outstanding u)(q := None)\<rparr>)
         = (t', fr, sw)"
      "cb = invoke (js @ [q]) (if adv \<noteq> None \<or> sw then Some (committedPtr u - 1, fr) else None)"
proof (cases "outstanding t q")
  case None
  from None assms show thesis by (intro closed) (simp_all add: add_delta_def)
next
  case (Some before)
  obtain u js adv where A: "advanceLocked (add_pre q delta before t) = (u, js, adv)"
    by (rule prod_cases3)
  obtain v fr sw where S:
    "sweepSrcRefsLocked (committedPtr u - 1) (u\<lparr>outstanding := (outstanding u)(q := None)\<rparr>)
       = (v, fr, sw)" by (rule prod_cases3)
  note eqs = assms [unfolded add_delta_def Let_def Some, simplified, folded add_pre_def, unfolded A, simplified]
  show thesis
  proof (cases "before + delta \<le> 0 \<and> q < committedPtr t")
    case True
    then have "t' = v \<and> cb = invoke (js @ [q])
        (if adv \<noteq> None \<or> sw then Some (committedPtr u - 1, fr) else None)"
      using eqs S by (auto split: if_splits)
    with straggler [OF Some A] True S show thesis by blast
  next
    case False
    with eqs have "t' = u \<and> cb = invoke js adv" by (auto split: if_splits)
    with normal [OF Some] A False show thesis by blast
  qed
qed

lemma tracker_base_del_closed:
  assumes "tracker_wf t" and "case outstanding t q of None \<Rightarrow> True | Some n \<Rightarrow> n \<le> 0"
    and "q < committedPtr t"
  shows "tracker_wf (t\<lparr>outstanding := (outstanding t)(q := None)\<rparr>)"
proof -
  let ?t = "t\<lparr>outstanding := (outstanding t)(q := None)\<rparr>"
  have "open_sum ((outstanding t)(q := None)) = open_sum (outstanding t)"
    using assms open_sum_del [of "outstanding t" q]
    by (cases "outstanding t q") (auto simp: tracker_wf_def tracker_base_def posBranches_def fun_upd_idem)
  moreover have "passable ?t (committedPtr t) = passable t (committedPtr t)"
    by (rule passable_cong) (use assms(3) in auto)
  ultimately show ?thesis using assms(1) by (auto simp: tracker_wf_def tracker_base_def)
qed

lemma sweep_wf:
  assumes "sweepSrcRefsLocked thru t = (t', fr, sw)" and "tracker_wf t"
  shows "tracker_wf t'"
proof -
  note frame = sweepSrcRefsLocked_frame [OF assms(1)]
  have "passable t' (committedPtr t') = passable t (committedPtr t)"
    unfolding frame(4) by (rule passable_cong) (simp_all add: frame)
  then show ?thesis
    using assms(2) frame sweepSrcRefsLocked_sorted [OF assms(1)]
    by (simp add: tracker_wf_def tracker_base_def)
qed

lemma add_delta_wf:
  assumes "tracker_wf t" and "add_delta q delta t = (t', cb)"
  shows "tracker_wf t'"
  using assms(2)
proof (cases rule: add_delta_cases)
  case closed
  with assms(1) show ?thesis by simp
next
  case (normal before js adv)
  with assms(1) show ?thesis
    by (blast intro: advanceLocked_wf add_pre_base tracker_wf_def [THEN iffD1, THEN conjunct1])
next
  case (straggler before u js adv fr sw)
  have base: "tracker_base (add_pre q delta before t)"
    using assms(1) straggler by (auto intro: add_pre_base simp: tracker_wf_def)
  note spec = advanceLocked_spec [OF straggler(2)]
  have "outstanding u q = Some (before + delta)"
    unfolding spec(5) using straggler(4) by (simp add: add_pre_def)
  moreover have "q < committedPtr u" using spec(1) straggler(4) by (simp add: add_pre_def)
  ultimately have "tracker_wf (u\<lparr>outstanding := (outstanding u)(q := None)\<rparr>)"
    using advanceLocked_wf [OF base straggler(2)] straggler(3)
    by (intro tracker_base_del_closed) auto
  then show ?thesis by (rule sweep_wf [OF straggler(5)])
qed

lemma forceTerminal_cases:
  assumes "forceTerminal q t = (t', cb, ok)"
  obtains (closed) "outstanding t q = None" "t' = t" "cb = no_callbacks" "\<not> ok"
  | (forced) n js adv where "outstanding t q = Some n"
      "advanceLocked (force_pre q n t) = (t', js, adv)" "cb = invoke js adv" "ok"
  using assms
  by (auto simp: forceTerminal_def force_pre_def split: option.splits prod.splits)

lemma forceTerminal_wf:
  assumes "tracker_wf t" and "forceTerminal q t = (t', cb, ok)"
  shows "tracker_wf t'"
  using assms(2)
proof (cases rule: forceTerminal_cases)
  case (forced n js adv)
  with assms(1) show ?thesis
    by (blast intro: advanceLocked_wf force_pre_base tracker_wf_def [THEN iffD1, THEN conjunct1])
qed (use assms(1) in simp)

lemma resumeFrom_wf:
  assumes "tracker_wf t" and "outstanding t = Map.empty" and "removed t = {}"
  shows "tracker_wf (resumeFrom c t)"
  using assms by (auto simp: tracker_wf_def tracker_base_def resumeFrom_def Let_def passable_def)

lemma ct_step_wf: "tracker_wf t \<Longrightarrow> tracker_wf (fst (ct_step x t))"
  by (cases x) (auto simp: arrived_wf split: prod.splits
    intro: add_delta_wf [OF _ prod.collapse [symmetric]] forceTerminal_wf)

end
