(* ===== verification/CommitSpec.thy ===== *)
theory CommitSpec
  imports Commit
begin

text \<open>
  What the commit tracker promises, and the proof that \<^verbatim>\<open>commit.go\<close> keeps it. The abstract
  specification never forgets a message: it records which sequences were registered, the live
  branch count of each, and which were terminated by force. Its committed prefix is the longest
  run of terminal sequences above the recovered checkpoint. The implementation keeps pruned maps
  and a cursor; \<open>tracker_refines_prefix_spec\<close> shows that the cursor is that prefix, that the
  running sum is the number of live branches, and that \<^verbatim>\<open>onCommit\<close> fires exactly once for every
  committed message that was not terminated by force.
\<close>

section \<open>The abstract specification\<close>

record prefix_spec =
  sp_base :: seq
  sp_reg :: "seq set"
  sp_live :: "seq \<rightharpoonup> int"
  sp_forced :: "seq set"

definition sp_init :: "seq \<Rightarrow> prefix_spec" where
  "sp_init base = \<lparr>sp_base = base, sp_reg = {}, sp_live = Map.empty, sp_forced = {}\<rparr>"

definition sp_terminal :: "prefix_spec \<Rightarrow> seq \<Rightarrow> bool" where
  "sp_terminal s q \<longleftrightarrow> q \<in> sp_reg s \<and> sp_live s q = None"

definition sp_settled :: "prefix_spec \<Rightarrow> seq \<Rightarrow> bool" where
  "sp_settled s q \<longleftrightarrow> (\<forall>r. sp_base s < r \<and> r \<le> q \<longrightarrow> sp_terminal s r)"

fun sp_step :: "ct_op \<Rightarrow> prefix_spec \<Rightarrow> prefix_spec" where
  "sp_step (Arrived q _ _) s = s\<lparr>sp_reg := insert q (sp_reg s), sp_live := (sp_live s)(q \<mapsto> 1)\<rparr>"
| "sp_step (Add q delta) s =
     (case sp_live s q of
        None \<Rightarrow> s
      | Some n \<Rightarrow> s\<lparr>sp_live := (sp_live s)(q := if n + delta > 0 then Some (n + delta) else None)\<rparr>)"
| "sp_step (Force q) s =
     (if q \<in> sp_reg s \<and> q \<notin> sp_forced s \<and> \<not> sp_settled s q
      then s\<lparr>sp_live := (sp_live s)(q := None), sp_forced := insert q (sp_forced s)\<rparr> else s)"

text \<open>
  The discipline of the tracker's callers: a sequence above the recovered checkpoint is
  registered once (spool sequences are unique), and a delta is applied by a holder of a live
  branch, or arrives late for a message that is settled or was terminated by force.
\<close>

fun op_ok :: "ct_op \<Rightarrow> prefix_spec \<Rightarrow> bool" where
  "op_ok (Arrived q _ _) s \<longleftrightarrow> sp_base s < q \<and> q \<notin> sp_reg s"
| "op_ok (Add q _) s \<longleftrightarrow> (sp_terminal s q \<and> q \<notin> sp_forced s \<longrightarrow> sp_settled s q)"
| "op_ok (Force _) s \<longleftrightarrow> True"

fun ops_ok :: "ct_op list \<Rightarrow> prefix_spec \<Rightarrow> bool" where
  "ops_ok [] s \<longleftrightarrow> True"
| "ops_ok (x # xs) s \<longleftrightarrow> op_ok x s \<and> ops_ok xs (sp_step x s)"

section \<open>The simulation relation\<close>

definition sim_base :: "commitTracker \<Rightarrow> prefix_spec \<Rightarrow> bool" where
  "sim_base t s \<longleftrightarrow>
     sp_base s \<le> committedThrough t \<and>
     (\<forall>q. outstanding t q \<noteq> None \<longleftrightarrow>
          q \<in> sp_reg s \<and> q \<notin> sp_forced s \<and> committedPtr t \<le> q) \<and>
     (\<forall>q. sp_live s q = (case outstanding t q of None \<Rightarrow> None
                         | Some n \<Rightarrow> if n > 0 then Some n else None)) \<and>
     (\<forall>q \<ge> committedPtr t. q \<in> removed t \<longleftrightarrow> q \<in> sp_forced s) \<and>
     sp_forced s \<subseteq> sp_reg s \<and>
     (\<forall>q \<in> sp_reg s. sp_base s < q) \<and>
     (\<forall>q. sp_base s < q \<and> q < committedPtr t \<longrightarrow> q \<in> sp_reg s)"

lemma sim_baseD:
  assumes "sim_base t s"
  shows "sp_base s \<le> committedThrough t"
    and "outstanding t q \<noteq> None \<longleftrightarrow> q \<in> sp_reg s \<and> q \<notin> sp_forced s \<and> committedPtr t \<le> q"
    and "sp_live s q = (case outstanding t q of None \<Rightarrow> None
                        | Some n \<Rightarrow> if n > 0 then Some n else None)"
    and "committedPtr t \<le> q \<Longrightarrow> q \<in> removed t \<longleftrightarrow> q \<in> sp_forced s"
    and "q \<in> sp_forced s \<Longrightarrow> q \<in> sp_reg s" and "q \<in> sp_reg s \<Longrightarrow> sp_base s < q"
    and "sp_base s < q \<Longrightarrow> q < committedPtr t \<Longrightarrow> q \<in> sp_reg s"
  using assms by (auto simp: sim_base_def)

text \<open>Behind the cursor everything is terminal; ahead of it, terminal is what the scan passes.\<close>

lemma sim_terminal_below:
  "sim_base t s \<Longrightarrow> sp_base s < q \<Longrightarrow> q < committedPtr t \<Longrightarrow> sp_terminal s q"
  using sim_baseD(2,3,7) [of t s q]
  by (auto simp: sp_terminal_def split: option.splits)

lemma sim_passable:
  assumes "sim_base t s" and "committedPtr t \<le> q"
  shows "passable t q = sp_terminal s q"
  using sim_baseD(2-5) [OF assms(1), of q] assms(2)
  by (auto simp: sp_terminal_def passable_def split: option.splits if_splits)

lemma sim_blocked:
  assumes "tracker_wf t" and "sim_base t s"
  shows "\<not> sp_terminal s (committedPtr t)"
proof -
  have "\<not> passable t (committedPtr t)"
  proof (cases "committedPtr t \<le> arrivedMax t")
    case False
    then have "outstanding t (committedPtr t) = None" "committedPtr t \<notin> removed t"
      using assms(1) by (auto simp: tracker_wf_def tracker_base_def)
    then show ?thesis by (simp add: passable_def)
  qed (use assms(1) in \<open>simp add: tracker_wf_def\<close>)
  then show ?thesis using sim_passable [OF assms(2)] by simp
qed

lemma sim_settled:
  assumes "tracker_wf t" and "sim_base t s"
  shows "sp_settled s q \<longleftrightarrow> q < committedPtr t"
proof
  assume "sp_settled s q"
  moreover have "sp_base s < committedPtr t" using sim_baseD(1) [OF assms(2)] by simp
  ultimately show "q < committedPtr t"
    using sim_blocked [OF assms] by (auto simp: sp_settled_def not_less dest: spec [of _ "committedPtr t"])
next
  assume "q < committedPtr t"
  then show "sp_settled s q"
    using sim_terminal_below [OF assms(2)] by (auto simp: sp_settled_def)
qed

text \<open>The scan keeps the relation: it only crosses what the specification calls terminal.\<close>

lemma sim_advance:
  assumes sim: "sim_base t s" and adv: "advanceLocked t = (t', js, a)"
  shows "sim_base t' s"
    and "distinct js" and "set js = {q \<in> sp_reg s - sp_forced s. committedPtr t \<le> q \<and> q < committedPtr t'}"
proof -
  note spec = advanceLocked_spec [OF adv]
  have crossed: "sp_terminal s q" if "committedPtr t \<le> q" "q < committedPtr t'" for q
    using spec(3) [OF that] sim_passable [OF sim that(1)] by simp
  have out: "outstanding t' q = (if committedPtr t \<le> q \<and> q < committedPtr t' then None
      else outstanding t q)" for q
    by (simp add: spec(5))
  have "sp_live s q = (case outstanding t' q of None \<Rightarrow> None
      | Some n \<Rightarrow> if n > 0 then Some n else None)" for q
    using sim_baseD(3) [OF sim, of q] crossed [of q] by (auto simp: out sp_terminal_def)
  moreover have "outstanding t' q \<noteq> None \<longleftrightarrow>
      q \<in> sp_reg s \<and> q \<notin> sp_forced s \<and> committedPtr t' \<le> q" for q
    using sim_baseD(2) [OF sim, of q] spec(1) by (auto simp: out)
  moreover have "q \<in> sp_reg s" if "sp_base s < q" "q < committedPtr t'" for q
    using sim_baseD(7) [OF sim, of q] crossed [of q] that
    by (cases "q < committedPtr t") (auto simp: sp_terminal_def)
  moreover have "q \<in> removed t' \<longleftrightarrow> q \<in> sp_forced s" if "committedPtr t' \<le> q" for q
    using sim_baseD(4) [OF sim, of q] spec(1,6) that by auto
  ultimately show "sim_base t' s"
    using sim_baseD(1,5,6) [OF sim] spec(1) unfolding sim_base_def by fastforce
  show "distinct js" by (simp add: spec(9))
  show "set js = {q \<in> sp_reg s - sp_forced s. committedPtr t \<le> q \<and> q < committedPtr t'}"
    using sim_baseD(2) [OF sim] by (auto simp: spec(9))
qed

section \<open>Every operation is simulated\<close>

definition reported :: "commitTracker \<Rightarrow> prefix_spec \<Rightarrow> seq set" where
  "reported t s = {q \<in> sp_reg s - sp_forced s. q < committedPtr t}"

lemma sim_arrived:
  assumes sim: "sim_base t s" and ok: "op_ok (Arrived q node n) s"
  shows "sim_base (arrived q node n t) (sp_step (Arrived q node n) s)"
    and "committedPtr t \<le> q"
proof -
  have fresh: "sp_base s < q" "q \<notin> sp_reg s" using ok by auto
  show ge: "committedPtr t \<le> q" using sim_baseD(7) [OF sim, of q] fresh by (meson not_le)
  have "q \<notin> sp_forced s" using sim_baseD(5) [OF sim] fresh by blast
  then show "sim_base (arrived q node n t) (sp_step (Arrived q node n) s)"
    using sim fresh ge by (auto simp: sim_base_def arrived_fields)
qed

lemma sim_add_pre:
  assumes wf: "tracker_wf t" and sim: "sim_base t s" and ok: "op_ok (Add q delta) s"
    and out: "outstanding t q = Some n"
  shows "sim_base (add_pre q delta n t) (sp_step (Add q delta) s)" and "committedPtr t \<le> q"
proof -
  have q: "q \<in> sp_reg s" "q \<notin> sp_forced s" "committedPtr t \<le> q"
    using sim_baseD(2) [OF sim, of q] out by auto
  then show "committedPtr t \<le> q" by simp
  have "\<not> sp_terminal s q" using ok q sim_settled [OF wf sim, of q] by auto
  then have "n > 0" and live: "sp_live s q = Some n"
    using sim_baseD(3) [OF sim, of q] out q by (auto simp: sp_terminal_def split: if_splits)
  show "sim_base (add_pre q delta n t) (sp_step (Add q delta) s)"
    using sim q live by (auto simp: sim_base_def add_pre_def)
qed

lemma sim_force_pre:
  assumes wf: "tracker_wf t" and sim: "sim_base t s" and out: "outstanding t q = Some n"
  shows "sim_base (force_pre q n t) (sp_step (Force q) s)" and "committedPtr t \<le> q"
proof -
  have q: "q \<in> sp_reg s" "q \<notin> sp_forced s" "committedPtr t \<le> q"
    using sim_baseD(2) [OF sim, of q] out by auto
  then show "committedPtr t \<le> q" by simp
  have "\<not> sp_settled s q" using sim_settled [OF wf sim] q by simp
  then show "sim_base (force_pre q n t) (sp_step (Force q) s)"
    using sim q by (auto simp: sim_base_def force_pre_def)
qed

lemma sim_no_entry:
  assumes "tracker_wf t" and sim: "sim_base t s" and "outstanding t q = None"
  shows "sp_step (Add q delta) s = s" and "sp_step (Force q) s = s"
  using sim_baseD(2,3) [OF sim, of q] assms(3) sim_settled [OF assms(1,2), of q] by auto

lemma sim_reported:
  assumes adv: "sim_base u s'" "advanceLocked u = (t', js, a)" and "committedPtr u = committedPtr t"
    and frame: "\<And>r. r < committedPtr t \<Longrightarrow> r \<in> sp_reg s' - sp_forced s' \<longleftrightarrow> r \<in> sp_reg s - sp_forced s"
  shows "distinct js" "set js \<inter> reported t s = {}" "reported t' s' = reported t s \<union> set js"
proof -
  note js = sim_advance(2,3) [OF adv]
  show "distinct js" by (rule js(1))
  show "set js \<inter> reported t s = {}" unfolding js(2) assms(3) reported_def by auto
  have "r \<in> reported t' s' \<longleftrightarrow> r \<in> reported t s \<union> set js" for r
    unfolding js(2) using assms(3) frame [of r] advanceLocked_spec(1) [OF adv(2)]
    by (cases "r < committedPtr t") (auto simp: reported_def)
  then show "reported t' s' = reported t s \<union> set js" by blast
qed

lemma sim_step:
  assumes wf: "tracker_wf t" and sim: "sim_base t s" and ok: "op_ok x s"
    and step: "ct_step x t = (t', cb)"
  shows "sim_base t' (sp_step x s)" (is ?sim)
    and "distinct (cb_commits cb) \<and> set (cb_commits cb) \<inter> reported t s = {}
      \<and> reported t' (sp_step x s) = reported t s \<union> set (cb_commits cb)" (is ?rep)
proof -
  have "?sim \<and> ?rep"
  proof (cases x)
    case (Arrived q node n)
    note arr = sim_arrived [OF sim ok [unfolded Arrived]]
    have "reported t' (sp_step x s) = reported t s" "cb_commits cb = []"
      using step arr(2) Arrived by (auto simp: reported_def arrived_fields no_callbacks_def)
    then show ?thesis using arr step Arrived by auto
  next
    case (Add q delta)
    from step Add have "add_delta q delta t = (t', cb)" by simp
    then show ?thesis
    proof (cases rule: add_delta_cases)
      case closed
      then show ?thesis using sim_no_entry [OF wf sim] sim Add by (simp add: no_callbacks_def)
    next
      case (normal before js adv)
      note pre = sim_add_pre [OF wf sim ok [unfolded Add] normal(1)]
      have "distinct js" "set js \<inter> reported t s = {}" "reported t' (sp_step x s) = reported t s \<union> set js"
        using sim_reported [OF pre(1) normal(2), of t s] Add
        by (auto simp: add_pre_def split: option.splits)
      then show ?thesis using sim_advance(1) [OF pre(1) normal(2)] Add normal(4) by (simp add: invoke_def)
    next
      case (straggler before u js adv fr sw)
      then show ?thesis using sim_add_pre(2) [OF wf sim ok [unfolded Add] straggler(1)] by simp
    qed
  next
    case (Force q)
    then obtain b where "forceTerminal q t = (t', cb, b)" using step by (auto split: prod.splits)
    then show ?thesis
    proof (cases rule: forceTerminal_cases)
      case closed
      then show ?thesis using sim_no_entry [OF wf sim] sim Force by (simp add: no_callbacks_def)
    next
      case (forced n js adv)
      note pre = sim_force_pre [OF wf sim forced(1)]
      have "distinct js" "set js \<inter> reported t s = {}" "reported t' (sp_step x s) = reported t s \<union> set js"
        using sim_reported [OF pre(1) forced(2), of t s] pre(2) Force by (auto simp: force_pre_def)
      then show ?thesis using sim_advance(1) [OF pre(1) forced(2)] Force forced(3) by (simp add: invoke_def)
    qed
  qed
  then show ?sim ?rep by auto
qed

lemma sim_run:
  assumes "tracker_wf t" and "sim_base t s" and "ops_ok xs s" and "ct_run xs t = (t', cs)"
  shows "tracker_wf t' \<and> sim_base t' (fold sp_step xs s)
    \<and> distinct cs \<and> set cs \<inter> reported t s = {}
    \<and> reported t' (fold sp_step xs s) = reported t s \<union> set cs"
  using assms
proof (induction xs arbitrary: t s t' cs)
  case Nil
  then show ?case by simp
next
  case (Cons x xs)
  obtain t1 cb where step: "ct_step x t = (t1, cb)" by fastforce
  obtain cs1 where run: "ct_run xs t1 = (t', cs1)" and cs: "cs = cb_commits cb @ cs1"
    using Cons.prems(4) step by (auto split: prod.splits)
  have ok: "op_ok x s" "ops_ok xs (sp_step x s)" using Cons.prems(3) by auto
  have wf1: "tracker_wf t1" using ct_step_wf [OF Cons.prems(1), of x] step by simp
  note one = sim_step [OF Cons.prems(1,2) ok(1) step]
  have "tracker_wf t' \<and> sim_base t' (fold sp_step xs (sp_step x s)) \<and> distinct cs1
      \<and> set cs1 \<inter> reported t1 (sp_step x s) = {}
      \<and> reported t' (fold sp_step xs (sp_step x s)) = reported t1 (sp_step x s) \<union> set cs1"
    by (rule Cons.IH [OF wf1 one(1) ok(2) run])
  then show ?case using one(2) cs by auto
qed

lemma sim_start:
  assumes "0 \<le> base"
  shows "tracker_wf (resumeFrom base (newCommitTracker sources))"
    and "sim_base (resumeFrom base (newCommitTracker sources)) (sp_init base)"
    and "reported (resumeFrom base (newCommitTracker sources)) (sp_init base) = {}"
proof -
  show "tracker_wf (resumeFrom base (newCommitTracker sources))"
    by (rule resumeFrom_wf [OF newCommitTracker_wf]) (simp_all add: newCommitTracker_def)
  show "sim_base (resumeFrom base (newCommitTracker sources)) (sp_init base)"
    using assms by (auto simp: sim_base_def resumeFrom_def newCommitTracker_def sp_init_def Let_def)
  show "reported (resumeFrom base (newCommitTracker sources)) (sp_init base) = {}"
    by (simp add: reported_def sp_init_def)
qed

section \<open>Properties\<close>

lemma sim_open_sum:
  assumes "sim_base t s" and fin: "finite (dom (outstanding t))"
  shows "open_sum (outstanding t) = (\<Sum>q\<in>dom (sp_live s). the (sp_live s q))"
proof -
  have live: "sp_live s q = (case outstanding t q of None \<Rightarrow> None
      | Some n \<Rightarrow> if n > 0 then Some n else None)" for q by (rule sim_baseD(3) [OF assms(1)])
  have sub: "dom (sp_live s) \<subseteq> dom (outstanding t)"
    using live by (auto split: option.splits)
  have "posBranches (the (outstanding t q)) = 0" if "q \<in> dom (outstanding t) - dom (sp_live s)" for q
    using live [of q] that by (auto simp: posBranches_def domIff split: if_splits)
  then have "open_sum (outstanding t) = (\<Sum>q\<in>dom (sp_live s). posBranches (the (outstanding t q)))"
    unfolding open_sum_def using fin sub by (intro sum.mono_neutral_right) auto
  also have "\<dots> = (\<Sum>q\<in>dom (sp_live s). the (sp_live s q))"
    by (rule sum.cong) (use live in \<open>auto simp: posBranches_def split: option.splits if_splits\<close>)
  finally show ?thesis .
qed

text \<open>
  C1. For every interleaving of registrations, branch deltas and force-terminations that respects
  the callers' discipline, the tracker's cursor is the longest prefix of terminal messages above
  the recovered checkpoint: everything at or below it is terminal and the next sequence is not.
  The running sum is the number of live branches, and the commit hook fired exactly once for each
  committed message that was not terminated by force, and for no other message.
\<close>

theorem tracker_refines_prefix_spec:
  assumes "0 \<le> base" and "ops_ok ops (sp_init base)"
    and "ct_run ops (resumeFrom base (newCommitTracker sources)) = (t, cs)"
  shows "(\<forall>q. base < q \<and> q \<le> committedThrough t \<longrightarrow> sp_terminal (fold sp_step ops (sp_init base)) q)
    \<and> \<not> sp_terminal (fold sp_step ops (sp_init base)) (committedThrough t + 1)
    \<and> openBranches t = (\<Sum>q\<in>dom (sp_live (fold sp_step ops (sp_init base))).
        the (sp_live (fold sp_step ops (sp_init base)) q))
    \<and> distinct cs
    \<and> set cs = {q \<in> sp_reg (fold sp_step ops (sp_init base))
                   - sp_forced (fold sp_step ops (sp_init base)). q \<le> committedThrough t}"
proof -
  let ?s = "fold sp_step ops (sp_init base)"
  have base: "sp_base (fold sp_step xs s) = sp_base s" for xs s
  proof (induction xs arbitrary: s)
    case (Cons x xs)
    have "sp_base (sp_step x s) = sp_base s" by (cases x) (auto split: option.splits)
    with Cons show ?case by simp
  qed simp
  note run = sim_run [OF sim_start(1,2) [OF assms(1)] assms(2,3)]
  then have wf: "tracker_wf t" and sim: "sim_base t ?s" by auto
  have "openBranches t = open_sum (outstanding t)" "finite (dom (outstanding t))"
    using wf by (auto simp: tracker_wf_def tracker_base_def)
  moreover have "set cs = reported t ?s" using run sim_start(3) [OF assms(1)] by auto
  ultimately show ?thesis
    using run sim_terminal_below [OF sim] sim_blocked [OF wf sim] sim_open_sum [OF sim]
      base [of ops "sp_init base"]
    by (auto simp: reported_def sp_init_def)
qed

text \<open>The hypotheses hold for two messages of which the second finishes first.\<close>

theorem tracker_refines_prefix_spec_witness:
  "\<not> sp_terminal (fold sp_step [Arrived 1 ''s'' 1, Arrived 2 ''s'' 2, Add 2 (- 1)] (sp_init 0))
      (committedThrough (fst (ct_run [Arrived 1 ''s'' 1, Arrived 2 ''s'' 2, Add 2 (- 1)]
         (resumeFrom 0 (newCommitTracker [''s''])))) + 1)"
proof -
  let ?ops = "[Arrived 1 ''s'' 1, Arrived 2 ''s'' 2, Add 2 (- 1)]"
  have "ops_ok ?ops (sp_init 0)"
    by (simp add: sp_init_def sp_terminal_def)
  from tracker_refines_prefix_spec [OF _ this, of "[''s'']"] show ?thesis
    by (cases "ct_run ?ops (resumeFrom 0 (newCommitTracker [''s'']))") auto
qed

end
