(* ===== verification/Frontier.thy ===== *)
theory Frontier
  imports CommitSpec
begin

text \<open>
  The per-source frontiers of \<^verbatim>\<open>commit.go\<close>: what a frontier reported to a source committer
  means. A frontier never covers a source emission whose message is not committed (acknowledging
  it upstream would lose the message), and it stops only at an emission that is still in the FIFO
  (a frontier that lags without reason widens the replay window). The theory also holds the
  straggler path of \<^verbatim>\<open>add\<close>: a message registered behind the cursor still gets its terminal event
  and its frontier.
\<close>

section \<open>The invariant that ties frontiers to emissions\<close>

text \<open>The emissions of a run: spool sequence, source node, source sequence.\<close>

definition emissions :: "ct_op list \<Rightarrow> (seq \<times> node_name \<times> seq) set" where
  "emissions xs = {(q, n, k). Arrived q n k \<in> set xs}"

definition src_ok :: "(seq \<times> node_name \<times> seq) set \<Rightarrow> srcRefEntry list \<Rightarrow> seq \<Rightarrow> node_name \<Rightarrow> srcTracker \<Rightarrow> bool" where
  "src_ok E refs thru n st \<longleftrightarrow>
     0 \<le> front st \<and>
     (\<forall>k. k |\<in>| committedAt st \<or> 1 \<le> k \<and> k \<le> front st \<longrightarrow> (\<exists>q. (q, n, k) \<in> E \<and> q \<le> thru)) \<and>
     (\<forall>k. k |\<in>| committedAt st \<longrightarrow> k |\<in>| arrivedAt st \<or> k \<le> front st) \<and>
     (\<forall>r\<in>set refs. ref_node r = n \<longrightarrow> ref_srcSeq r |\<in>| arrivedAt st \<or> ref_srcSeq r \<le> front st) \<and>
     (\<forall>q k. (q, n, k) \<in> E \<longrightarrow> k \<le> front st \<or> k |\<in>| committedAt st
        \<or> (\<exists>r\<in>set refs. ref_node r = n \<and> ref_srcSeq r = k)) \<and>
     \<not> (front st + 1 |\<in>| committedAt st \<and> front st + 1 |\<in>| arrivedAt st)"

definition frontier_inv :: "(seq \<times> node_name \<times> seq) set \<Rightarrow> commitTracker \<Rightarrow> bool" where
  "frontier_inv E t \<longleftrightarrow>
     srcs t '''' = None \<and>
     (\<forall>r\<in>set (srcRefs t). (ref_seq r, ref_node r, ref_srcSeq r) \<in> E) \<and>
     (\<forall>n st. srcs t n = Some st \<longrightarrow> src_ok E (srcRefs t) (committedThrough t) n st)"

lemma src_committed_fields:
  fixes s :: srcTracker and qs
  defines "ca \<equiv> committedAt s |\<union>| fset_of_list qs"
  shows "front s \<le> front (src_committed qs s)"
    and "\<And>q. front s < q \<Longrightarrow> q \<le> front (src_committed qs s) \<Longrightarrow> q |\<in>| ca \<and> q |\<in>| arrivedAt s"
    and "\<not> (front (src_committed qs s) + 1 |\<in>| ca \<and> front (src_committed qs s) + 1 |\<in>| arrivedAt s)"
    and "\<And>q. q |\<in>| committedAt (src_committed qs s) \<longleftrightarrow>
      q |\<in>| ca \<and> \<not> (front s + 1 \<le> q \<and> q \<le> front (src_committed qs s))"
    and "\<And>q. q |\<in>| arrivedAt (src_committed qs s) \<longleftrightarrow>
      q |\<in>| arrivedAt s \<and> \<not> (front s + 1 \<le> q \<and> q \<le> front (src_committed qs s))"
  using front_loop_spec [of "front s" ca "arrivedAt s"]
  by (auto simp: src_committed_def Let_def ca_def)

text \<open>Popping the prefix of the FIFO at the cursor keeps the invariant of one source.\<close>

lemma src_ok_sweep:
  assumes ok: "src_ok E refs thru n st"
    and refs: "\<forall>r\<in>set refs. (ref_seq r, ref_node r, ref_srcSeq r) \<in> E"
    and split: "refs = popped @ rest" and low: "\<forall>r\<in>set popped. ref_seq r \<le> thru"
    and qs: "qs = map ref_srcSeq (filter (\<lambda>r. ref_node r = n) popped)"
  shows "src_ok E rest thru n (if qs = [] then st else src_committed qs st)"
proof -
  let ?s = "src_committed qs st"
  have mem: "k \<in> set qs \<longleftrightarrow> (\<exists>r\<in>set popped. ref_node r = n \<and> ref_srcSeq r = k)" for k
    using qs by auto
  have E: "\<exists>q. (q, n, k) \<in> E \<and> q \<le> thru" if "k \<in> set qs" for k
  proof -
    from that obtain r where "r \<in> set popped" "ref_node r = n" "ref_srcSeq r = k"
      by (auto simp: mem)
    with refs split low show ?thesis by (intro exI [of _ "ref_seq r"]) auto
  qed
  have aa: "k |\<in>| arrivedAt st \<or> k \<le> front st" if "k \<in> set qs" for k
    using ok split that mem unfolding src_ok_def by auto
  show ?thesis
  proof (cases "qs = []")
    case True
    then have none: "\<not> (\<exists>r\<in>set popped. ref_node r = n \<and> ref_srcSeq r = k)" for k using mem by auto
    then have "(\<exists>r\<in>set refs. ref_node r = n \<and> ref_srcSeq r = k)
        \<longleftrightarrow> (\<exists>r\<in>set rest. ref_node r = n \<and> ref_srcSeq r = k)" for k
      using split by auto
    with ok split True show ?thesis by (simp add: src_ok_def)
  next
    case False
    note f = src_committed_fields [where s = st and qs = qs]
    note okD = ok [unfolded src_ok_def]
    have "\<exists>q. (q, n, k) \<in> E \<and> q \<le> thru"
      if "k |\<in>| committedAt ?s \<or> 1 \<le> k \<and> k \<le> front ?s" for k
    proof (cases "k |\<in>| committedAt st \<or> 1 \<le> k \<and> k \<le> front st")
      case False
      with that f(2) [of k] f(4) [of k] have "k |\<in>| committedAt st \<or> k \<in> set qs"
        by (auto simp: fset_of_list_elem)
      with E okD show ?thesis by blast
    qed (use okD in blast)
    moreover have "k |\<in>| arrivedAt ?s \<or> k \<le> front ?s" if "k |\<in>| committedAt ?s" for k
      using that f(1) f(4,5) [of k] okD aa [of k] by (auto simp: fset_of_list_elem)
    moreover have "\<forall>r\<in>set rest. ref_node r = n \<longrightarrow> ref_srcSeq r |\<in>| arrivedAt ?s \<or> ref_srcSeq r \<le> front ?s"
    proof (intro ballI impI)
      fix r assume "r \<in> set rest" "ref_node r = n"
      then have "ref_srcSeq r |\<in>| arrivedAt st \<or> ref_srcSeq r \<le> front st" using okD split by auto
      then show "ref_srcSeq r |\<in>| arrivedAt ?s \<or> ref_srcSeq r \<le> front ?s"
        using f(1) f(5) [of "ref_srcSeq r"] by auto
    qed
    moreover have "k \<le> front ?s \<or> k |\<in>| committedAt ?s \<or> (\<exists>r\<in>set rest. ref_node r = n \<and> ref_srcSeq r = k)"
      if "(q, n, k) \<in> E" for q k
    proof -
      have "k \<le> front st \<or> k |\<in>| committedAt st \<or> (\<exists>r\<in>set refs. ref_node r = n \<and> ref_srcSeq r = k)"
        using okD that by blast
      then have "k \<le> front st \<or> k |\<in>| committedAt st \<or> k \<in> set qs
          \<or> (\<exists>r\<in>set rest. ref_node r = n \<and> ref_srcSeq r = k)"
        using mem split by auto
      then show ?thesis using f(1) f(4) [of k] by (auto simp: fset_of_list_elem)
    qed
    moreover have "\<not> (front ?s + 1 |\<in>| committedAt ?s \<and> front ?s + 1 |\<in>| arrivedAt ?s)"
      using f(3) f(4,5) [of "front ?s + 1"] by auto
    moreover have "0 \<le> front ?s" using okD f(1) by linarith
    ultimately show ?thesis using False unfolding src_ok_def by simp
  qed
qed

lemma src_ok_mono: "src_ok E refs thru n st \<Longrightarrow> thru \<le> thru' \<Longrightarrow> src_ok E refs thru' n st"
  unfolding src_ok_def by (meson order_trans)

lemma frontier_inv_sweep:
  assumes inv: "frontier_inv E u" and sw: "sweepSrcRefsLocked (committedThrough u) u = (t', fr, b)"
  shows "frontier_inv E t'"
proof -
  let ?P = "\<lambda>r. ref_seq r \<le> committedThrough u"
  note frame = sweepSrcRefsLocked_frame [OF sw]
  have srcs: "srcs t' n = (case srcs u n of None \<Rightarrow> None
      | Some st \<Rightarrow> Some (let qs = map ref_srcSeq (filter (\<lambda>r. ref_node r = n) (takeWhile ?P (srcRefs u)))
                         in if qs = [] then st else src_committed qs st))" for n
    using sw by (auto simp: sweepSrcRefsLocked_def Let_def split: option.splits)
  have "src_ok E (srcRefs t') (committedThrough t') n st'" if st': "srcs t' n = Some st'" for n st'
  proof -
    obtain st where st: "srcs u n = Some st" using st' srcs by (auto split: option.splits)
    define qs where "qs = map ref_srcSeq (filter (\<lambda>r. ref_node r = n) (takeWhile ?P (srcRefs u)))"
    have "st' = (if qs = [] then st else src_committed qs st)"
      using st' srcs [of n] st by (auto simp: qs_def Let_def split: if_splits)
    moreover have "src_ok E (dropWhile ?P (srcRefs u)) (committedThrough u) n
        (if qs = [] then st else src_committed qs st)"
      using inv st
      by (intro src_ok_sweep [where refs = "srcRefs u" and popped = "takeWhile ?P (srcRefs u)"])
        (auto simp: frontier_inv_def qs_def dest: set_takeWhileD)
    ultimately show ?thesis by (simp add: frame(4,6))
  qed
  then show ?thesis
    using inv srcs by (auto simp: frontier_inv_def frame(6) dest: set_dropWhileD)
qed

text \<open>The scan is a cursor move followed, when it moved, by the sweep at the new cursor.\<close>

lemma advanceLocked_sweep:
  assumes "advanceLocked t = (t', js, adv)"
  obtains (still) "srcs t' = srcs t" "srcRefs t' = srcRefs t" "committedPtr t' = committedPtr t"
  | (moved) u fr b where "srcs u = srcs t" "srcRefs u = srcRefs t" "committedPtr t \<le> committedPtr u"
      "sweepSrcRefsLocked (committedThrough u) u = (t', fr, b)"
proof -
  obtain u js' b where loop: "advance_loop t [] False = (u, js', b)" by (rule prod_cases3)
  note spec = advance_loop_spec [OF loop]
  have u: "u = t\<lparr>committedPtr := committedPtr u,
             outstanding := (\<lambda>q. if committedPtr t \<le> q \<and> q < committedPtr u then None
                                 else outstanding t q),
             removed := removed t - {committedPtr t..<committedPtr u}\<rparr>"
    using spec by blast
  have same: "srcs u = srcs t" "srcRefs u = srcRefs t" by (subst u, simp)+
  show thesis
  proof (cases b)
    case True
    then obtain fr sw where "sweepSrcRefsLocked (committedThrough u) u = (t', fr, sw)"
      using assms loop by (auto simp: advanceLocked_def split: prod.splits)
    then show thesis using moved same spec by blast
  next
    case False
    then have "t' = u" using assms loop by (simp add: advanceLocked_def)
    moreover have "committedPtr u = committedPtr t" using False spec by auto
    ultimately show thesis using still same by simp
  qed
qed

lemma frontier_inv_cong:
  assumes "frontier_inv E t" and "srcs t' = srcs t" and "srcRefs t' = srcRefs t"
    and "committedPtr t \<le> committedPtr t'"
  shows "frontier_inv E t'"
  using assms by (auto simp: frontier_inv_def intro: src_ok_mono [where thru = "committedThrough t"])

lemma frontier_inv_advance:
  assumes "frontier_inv E t" and "advanceLocked t = (t', js, adv)"
  shows "frontier_inv E t'"
  using assms(2)
proof (cases rule: advanceLocked_sweep)
  case still
  with assms(1) show ?thesis by (auto intro: frontier_inv_cong)
next
  case (moved u fr b)
  have "frontier_inv E u" by (rule frontier_inv_cong [OF assms(1) moved(1,2,3)])
  then show ?thesis using moved(4) by (rule frontier_inv_sweep)
qed

lemma frontier_inv_add:
  assumes "frontier_inv E t" and "add_delta q delta t = (t', cb)"
  shows "frontier_inv E t'"
  using assms(2)
proof (cases rule: add_delta_cases)
  case (normal before js adv)
  have "frontier_inv E (add_pre q delta before t)"
    by (rule frontier_inv_cong [OF assms(1)]) (simp_all add: add_pre_def)
  then show ?thesis using normal(2) by (rule frontier_inv_advance)
next
  case (straggler before u js adv fr sw)
  have "frontier_inv E (add_pre q delta before t)"
    by (rule frontier_inv_cong [OF assms(1)]) (simp_all add: add_pre_def)
  then have "frontier_inv E u" using straggler(2) by (rule frontier_inv_advance)
  then have "frontier_inv E (u\<lparr>outstanding := (outstanding u)(q := None)\<rparr>)"
    by (rule frontier_inv_cong) simp_all
  moreover have "sweepSrcRefsLocked (committedThrough (u\<lparr>outstanding := (outstanding u)(q := None)\<rparr>))
      (u\<lparr>outstanding := (outstanding u)(q := None)\<rparr>) = (t', fr, sw)"
    using straggler(5) by simp
  ultimately show ?thesis by (rule frontier_inv_sweep)
qed (use assms(1) in simp)

lemma frontier_inv_force:
  assumes "frontier_inv E t" and "forceTerminal q t = (t', cb, ok)"
  shows "frontier_inv E t'"
  using assms(2)
proof (cases rule: forceTerminal_cases)
  case (forced n js adv)
  have "frontier_inv E (force_pre q n t)"
    by (rule frontier_inv_cong [OF assms(1)]) (simp_all add: force_pre_def)
  then show ?thesis using forced(2) by (rule frontier_inv_advance)
qed (use assms(1) in simp)

lemma set_addSrcRef:
  "set (addSrcRef q node k refs) = insert \<lparr>ref_seq = q, ref_node = node, ref_srcSeq = k\<rparr> (set refs)"
proof -
  have "set (take i refs) \<union> set (drop i refs) = set refs" for i
    by (metis append_take_drop_id set_append)
  then show ?thesis by (auto simp: addSrcRef_def Let_def)
qed

text \<open>A registration adds its emission to the FIFO and to the arrived set of its own source.\<close>

lemma src_ok_other:
  assumes "src_ok E refs thru n st" and "n' \<noteq> n" and "\<forall>r\<in>set refs'. r \<in> set refs \<or> ref_node r = n'"
    and "set refs \<subseteq> set refs'"
  shows "src_ok (insert (q, n', k) E) refs' thru n st"
proof -
  have E: "(p, n, j) \<in> insert (q, n', k) E \<longleftrightarrow> (p, n, j) \<in> E" for p j using assms(2) by simp
  have R: "r \<in> set refs' \<and> ref_node r = n \<longleftrightarrow> r \<in> set refs \<and> ref_node r = n" for r
    using assms(2,3,4) by blast
  have all: "(\<forall>r\<in>set refs'. ref_node r = n \<longrightarrow> P r) \<longleftrightarrow> (\<forall>r\<in>set refs. ref_node r = n \<longrightarrow> P r)" for P
    using R by blast
  have ex: "(\<exists>r\<in>set refs'. ref_node r = n \<and> P r) \<longleftrightarrow> (\<exists>r\<in>set refs. ref_node r = n \<and> P r)" for P
    using R by blast
  show ?thesis using assms(1) unfolding src_ok_def E all ex .
qed

lemma src_ok_arrived:
  assumes "src_ok E refs thru n st"
  shows "src_ok (insert (q, n, k) E) (addSrcRef q n k refs) thru n (src_arrived k st)"
proof -
  have "front st + 1 |\<notin>| committedAt st \<or> front st + 1 |\<notin>| arrivedAt st"
    and "front st + 1 |\<in>| committedAt st \<longrightarrow> front st + 1 |\<in>| arrivedAt st"
    using assms unfolding src_ok_def by auto
  then show ?thesis
    using assms unfolding src_ok_def src_arrived_def by (auto simp: set_addSrcRef)
qed

lemma frontier_inv_arrived:
  assumes inv: "frontier_inv E t"
  shows "frontier_inv (insert (q, n, k) E) (arrived q n k t)"
proof (cases "n = '''' \<or> srcs t n = None")
  case True
  then have same: "srcs (arrived q n k t) = srcs t" "srcRefs (arrived q n k t) = srcRefs t"
    by (auto simp: arrived_def Let_def)
  have "src_ok (insert (q, n, k) E) (srcRefs t) (committedThrough t) m st" if "srcs t m = Some st" for m st
    using inv that True by (intro src_ok_other) (auto simp: frontier_inv_def)
  with inv show ?thesis by (auto simp: frontier_inv_def same arrived_fields)
next
  case False
  then obtain st where st: "srcs t n = Some st" "n \<noteq> ''''" by auto
  have new: "srcs (arrived q n k t) = (srcs t)(n \<mapsto> src_arrived k st)"
    "srcRefs (arrived q n k t) = addSrcRef q n k (srcRefs t)"
    using st by (auto simp: arrived_def Let_def)
  have "src_ok (insert (q, n, k) E) (addSrcRef q n k (srcRefs t)) (committedThrough t) m s"
    if "((srcs t)(n \<mapsto> src_arrived k st)) m = Some s" for m s
  proof (cases "m = n")
    case True
    with that inv st show ?thesis by (auto simp: frontier_inv_def intro: src_ok_arrived)
  next
    case False
    with that inv show ?thesis
      by (intro src_ok_other [where refs = "srcRefs t"]) (auto simp: frontier_inv_def set_addSrcRef)
  qed
  with inv st show ?thesis by (auto simp: frontier_inv_def new arrived_fields set_addSrcRef)
qed

lemma frontier_inv_step:
  assumes "frontier_inv (emissions xs) t"
  shows "frontier_inv (emissions (xs @ [x])) (fst (ct_step x t))"
proof (cases x)
  case (Arrived q n k)
  then have "emissions (xs @ [x]) = insert (q, n, k) (emissions xs)" by (auto simp: emissions_def)
  with Arrived frontier_inv_arrived [OF assms] show ?thesis by simp
next
  case (Add q d)
  then have "emissions (xs @ [x]) = emissions xs" by (auto simp: emissions_def)
  with Add frontier_inv_add [OF assms] show ?thesis by (metis ct_step.simps(2) prod.collapse)
next
  case (Force q)
  then have "emissions (xs @ [x]) = emissions xs" by (auto simp: emissions_def)
  with Force frontier_inv_force [OF assms] show ?thesis by (auto split: prod.splits)
qed

lemma ct_run_snoc:
  "fst (ct_run (xs @ [x]) t) = fst (ct_step x (fst (ct_run xs t)))"
  by (induction xs arbitrary: t) (auto simp: case_prod_beta)

lemma frontier_inv_run:
  assumes "'''' \<notin> set sources"
  shows "frontier_inv (emissions xs) (fst (ct_run xs (resumeFrom base (newCommitTracker sources))))"
proof (induction xs rule: rev_induct)
  case Nil
  show ?case using assms
    by (auto simp: frontier_inv_def emissions_def resumeFrom_def newCommitTracker_def Let_def
      src_ok_def newSrcTracker_def)
next
  case (snoc x xs)
  then show ?case unfolding ct_run_snoc by (rule frontier_inv_step)
qed

section \<open>Properties\<close>

text \<open>
  C5. In every run of the tracker, the frontier of a source covers only emissions whose message
  lies in the committed prefix, so a source committer never acknowledges an uncommitted message
  upstream; and the frontier is as far as it can be: if the next emission happened, it is still
  waiting in the FIFO of uncommitted emissions.
\<close>

theorem frontier_sound_and_maximal:
  assumes "'''' \<notin> set sources"
    and "frontiers_of (fst (ct_run xs (resumeFrom base (newCommitTracker sources)))) n = Some f"
  shows "(\<forall>k. 1 \<le> k \<and> k \<le> f \<longrightarrow> (\<exists>q. Arrived q n k \<in> set xs
            \<and> q \<le> committedThrough (fst (ct_run xs (resumeFrom base (newCommitTracker sources))))))
    \<and> (\<forall>q. Arrived q n (f + 1) \<in> set xs \<longrightarrow>
          (\<exists>r\<in>set (srcRefs (fst (ct_run xs (resumeFrom base (newCommitTracker sources))))).
             ref_node r = n \<and> ref_srcSeq r = f + 1))"
proof -
  let ?t = "fst (ct_run xs (resumeFrom base (newCommitTracker sources)))"
  obtain st where st: "srcs ?t n = Some st" "f = front st"
    using assms(2) by (auto simp: frontiers_of_def)
  have ok: "src_ok (emissions xs) (srcRefs ?t) (committedThrough ?t) n st"
    using frontier_inv_run [OF assms(1), of xs base] st(1) by (auto simp: frontier_inv_def)
  have "\<exists>q. Arrived q n k \<in> set xs \<and> q \<le> committedThrough ?t" if "1 \<le> k \<and> k \<le> f" for k
    using ok that st(2) unfolding src_ok_def emissions_def by fastforce
  moreover have "\<exists>r\<in>set (srcRefs ?t). ref_node r = n \<and> ref_srcSeq r = f + 1"
    if "Arrived q n (f + 1) \<in> set xs" for q
  proof -
    have "(q, n, front st + 1) \<in> emissions xs" using that st(2) by (simp add: emissions_def)
    with ok have "front st + 1 |\<in>| committedAt st
        \<or> (\<exists>r\<in>set (srcRefs ?t). ref_node r = n \<and> ref_srcSeq r = front st + 1)"
      unfolding src_ok_def by fastforce
    moreover have "front st + 1 |\<notin>| committedAt st"
      using ok unfolding src_ok_def by fastforce
    ultimately show ?thesis using st(2) by blast
  qed
  ultimately show ?thesis by blast
qed

text \<open>One emission, drained: the frontier is 1 and the emission is covered.\<close>

theorem frontier_sound_and_maximal_witness:
  "\<exists>q. Arrived q ''s'' 1 \<in> set [Arrived 1 ''s'' 1, Add 1 (- 1)]
     \<and> q \<le> committedThrough (fst (ct_run [Arrived 1 ''s'' 1, Add 1 (- 1)]
         (resumeFrom 0 (newCommitTracker [''s'']))))"
proof -
  let ?ops = "[Arrived 1 ''s'' 1, Add 1 (- 1)]"
  let ?t1 = "\<lparr>outstanding = [1 \<mapsto> 1], openBranches = 1, arrivedMax = 1, committedPtr = 1, removed = {},
    srcRefs = [\<lparr>ref_seq = 1, ref_node = ''s'', ref_srcSeq = 1\<rparr>],
    srcs = [''s'' \<mapsto> \<lparr>arrivedAt = {|1|}, committedAt = {||}, front = 0\<rparr>]\<rparr>"
  have t1: "arrived 1 ''s'' 1 (resumeFrom 0 (newCommitTracker [''s''])) = ?t1"
    by (auto simp: resumeFrom_def newCommitTracker_def arrived_def src_arrived_def addSrcRef_def
      newSrcTracker_def Let_def posBranches_def outstanding_of_def fun_eq_iff)
  have loop: "front_loop {|1|} {|1|} 0 = 1"
    by (simp add: front_loop.simps [of _ _ 0] front_loop.simps [of _ _ 1])
  have adv: "advance_loop (?t1\<lparr>outstanding := [1 \<mapsto> 0], openBranches := 0\<rparr>) [] False
     = (?t1\<lparr>outstanding := Map.empty, openBranches := 0, committedPtr := 2\<rparr>, [1], True)"
    by (simp add: advance_loop.simps [of "\<lparr>outstanding = _, openBranches = _, arrivedMax = 1, committedPtr = 1,
      removed = _, srcRefs = _, srcs = _\<rparr>"] advance_loop.simps [of "\<lparr>outstanding = _, openBranches = _,
      arrivedMax = 1, committedPtr = 2, removed = _, srcRefs = _, srcs = _\<rparr>"] passable_def)
  have "frontiers_of (fst (ct_run ?ops (resumeFrom 0 (newCommitTracker [''s''])))) ''s'' = Some 1"
    using adv by (simp add: t1 add_delta_def advanceLocked_def sweepSrcRefsLocked_def
      src_committed_def loop frontiers_of_def Let_def posBranches_def)
  from frontier_sound_and_maximal [OF _ this] show ?thesis by fastforce
qed

text \<open>
  C24. A message registered behind the cursor (its sequence was already crossed on a removal mark)
  does not lose its terminal event: when its last branch ends, the commit hook fires for it, its
  entry is gone, the cursor stays, and no emission at or below the cursor is left in the FIFO.
\<close>

theorem straggler_gets_terminal_event:
  assumes "tracker_wf t" and "outstanding t q = Some n" and "q < committedPtr t" and "n + d \<le> 0"
  shows "q \<in> set (cb_commits (snd (add_delta q d t)))
    \<and> outstanding (fst (add_delta q d t)) q = None
    \<and> committedPtr (fst (add_delta q d t)) = committedPtr t
    \<and> (\<forall>r\<in>set (srcRefs (fst (add_delta q d t))). committedThrough t < ref_seq r)"
proof -
  obtain t' cb where res: "add_delta q d t = (t', cb)" by fastforce
  then show ?thesis
  proof (cases rule: add_delta_cases)
    case (straggler before u js adv fr sw)
    note spec = advanceLocked_spec [OF straggler(2)]
    have "\<not> passable (add_pre q d before t) (committedPtr t)" if "committedPtr t \<le> arrivedMax t"
    proof -
      have "passable (add_pre q d before t) (committedPtr t) = passable t (committedPtr t)"
        by (rule passable_cong) (use assms(3) in \<open>auto simp: add_pre_def\<close>)
      with assms(1) that show ?thesis by (simp add: tracker_wf_def)
    qed
    then have ptr: "committedPtr u = committedPtr t"
      using spec(1,2) spec(3) [of "committedPtr t"] by (fastforce simp: add_pre_def)
    have base: "tracker_base (add_pre q d before t)"
      using assms(1) straggler(1) by (auto intro: add_pre_base simp: tracker_wf_def)
    note frame = sweepSrcRefsLocked_frame [OF straggler(5)]
    have "sorted (map ref_seq (srcRefs u))"
      using spec(11) base by (simp add: tracker_base_def)
    from dropWhile_sorted_above [OF this] have low: "committedThrough t < ref_seq r"
      if "r \<in> set (dropWhile (\<lambda>r. ref_seq r \<le> committedThrough t) (srcRefs u))" for r
      using that by blast
    show ?thesis
      using straggler(6) frame ptr low by (auto simp: res invoke_def)
  qed (use assms in auto)
qed

text \<open>A message registered again behind the cursor 2 and then drained.\<close>

theorem straggler_gets_terminal_event_witness:
  "1 \<in> set (cb_commits (snd (add_delta 1 (- 1)
       \<lparr>outstanding = [1 \<mapsto> 1], openBranches = 1, arrivedMax = 1, committedPtr = 2, removed = {},
        srcRefs = [], srcs = Map.empty\<rparr>)))"
proof -
  let ?t = "\<lparr>outstanding = [1 \<mapsto> 1], openBranches = 1, arrivedMax = 1, committedPtr = 2, removed = {},
        srcRefs = [], srcs = Map.empty\<rparr> :: commitTracker"
  have "tracker_wf ?t"
    by (simp add: tracker_wf_def tracker_base_def open_sum_def posBranches_def)
  from straggler_gets_terminal_event [OF this, of 1 1 "- 1"] show ?thesis by simp
qed

end
