(* ===== verification/StoreTypes.thy ===== *)
theory StoreTypes
  imports Prelude "HOL-Library.Multiset" "HOL-Library.List_Lexorder" "HOL-Library.Char_ord"
begin

text \<open>
  The data the persistence layer and the engine exchange: messages
  (\<^verbatim>\<open>src/internal/registry/registry.go\<close>), dead letters and job runs
  (\<^verbatim>\<open>src/internal/store/store.go\<close>), the statuses of a run, the order of Go strings (bytewise
  lexicographic, from the library's list order over characters) and \<^verbatim>\<open>sort.Slice\<close>. Callbacks of
  the replay methods are functions that thread a client state and may fail.
\<close>

type_synonym bytes = string
type_synonym go_error = string

record message =
  msg_ID :: string
  msg_Codec :: string
  msg_Raw :: bytes
  msg_Meta :: meta
  msg_Decoded :: any
  msg_Out :: bytes
  msg_Key :: bytes
  msg_SrcName :: node_name
  msg_SrcSeq :: seq
  msg_Cursor :: string

record deadLetter =
  dl_ID :: int
  dl_Pipeline :: string
  dl_MessageID :: string
  dl_RunID :: string
  dl_Node :: node_name
  dl_Edge :: string
  dl_Reason :: string
  dl_Class :: string
  dl_Backtrace :: string
  dl_Raw :: bytes
  dl_Codec :: string
  dl_Meta :: meta
  dl_Cursor :: string
  dl_SrcName :: node_name
  dl_SrcSeq :: seq
  dl_CreatedAt :: gotime

record jobRun =
  jr_RunID :: string
  jr_Pipeline :: string
  jr_Status :: string
  jr_TriggerType :: string
  jr_Parameters :: "(string \<times> any) list"
  jr_ScheduledFor :: string
  jr_StartedAt :: gotime
  jr_EndedAt :: gotime
  jr_RowsRead :: int
  jr_Delivered :: int
  jr_DeadLettered :: int
  jr_Error :: string
  jr_UpdatedAt :: gotime

text \<open>The zero values Go gives to a struct literal with no fields set.\<close>

definition zero_message :: message where
  "zero_message = \<lparr>msg_ID = [], msg_Codec = [], msg_Raw = [], msg_Meta = Map.empty, msg_Decoded = ANil,
     msg_Out = [], msg_Key = [], msg_SrcName = [], msg_SrcSeq = 0, msg_Cursor = []\<rparr>"

definition zero_deadLetter :: deadLetter where
  "zero_deadLetter = \<lparr>dl_ID = 0, dl_Pipeline = [], dl_MessageID = [], dl_RunID = [], dl_Node = [],
     dl_Edge = [], dl_Reason = [], dl_Class = [], dl_Backtrace = [], dl_Raw = [], dl_Codec = [],
     dl_Meta = Map.empty, dl_Cursor = [], dl_SrcName = [], dl_SrcSeq = 0, dl_CreatedAt = 0\<rparr>"

definition zero_jobRun :: jobRun where
  "zero_jobRun = \<lparr>jr_RunID = [], jr_Pipeline = [], jr_Status = [], jr_TriggerType = [], jr_Parameters = [],
     jr_ScheduledFor = [], jr_StartedAt = 0, jr_EndedAt = 0, jr_RowsRead = 0, jr_Delivered = 0,
     jr_DeadLettered = 0, jr_Error = [], jr_UpdatedAt = 0\<rparr>"

definition JobPending :: string where "JobPending = ''pending''"
definition JobRunning :: string where "JobRunning = ''running''"
definition JobSuccess :: string where "JobSuccess = ''success''"
definition JobPartial :: string where "JobPartial = ''partial''"
definition JobFailed :: string where "JobFailed = ''failed''"
definition JobCanceled :: string where "JobCanceled = ''canceled''"

definition DLClassDecode :: string where "DLClassDecode = ''decode''"
definition DLClassCodec :: string where "DLClassCodec = ''codec''"
definition DLClassEncode :: string where "DLClassEncode = ''encode''"
definition DLClassDelivery :: string where "DLClassDelivery = ''delivery''"
definition DLClassCanceled :: string where "DLClassCanceled = ''canceled''"

definition IsRunnableStatus :: "string \<Rightarrow> bool" where
  "IsRunnableStatus status \<longleftrightarrow> status = JobPending \<or> status = JobRunning"

lemmas job_status_defs = JobPending_def JobRunning_def JobSuccess_def JobPartial_def JobFailed_def
  JobCanceled_def

lemmas dl_class_defs = DLClassDecode_def DLClassCodec_def DLClassEncode_def DLClassDelivery_def
  DLClassCanceled_def

text \<open>The key of the in-memory source states and of the writer's marks: the two names with a NUL
  byte between them.\<close>

definition sourceKey :: "string \<Rightarrow> string \<Rightarrow> string" where
  "sourceKey pipeline source = pipeline @ CHR 0x00 # source"

lemma sourceKey_inject:
  assumes "CHR 0x00 \<notin> set p" and "CHR 0x00 \<notin> set q"
  shows "sourceKey p s = sourceKey q t \<longleftrightarrow> p = q \<and> s = t"
proof
  assume eq: "sourceKey p s = sourceKey q t"
  have cut: "takeWhile (\<lambda>c. c \<noteq> CHR 0x00) (sourceKey p s) = p"
    if "CHR 0x00 \<notin> set p" for p s :: string
    using that by (induction p) (auto simp: sourceKey_def)
  from eq cut [OF assms(1), of s] cut [OF assms(2), of t] have "p = q" by simp
  with eq show "p = q \<and> s = t" by (simp add: sourceKey_def)
qed simp

section \<open>Go's sort.Slice\<close>

text \<open>
  \<^verbatim>\<open>sort.Slice\<close> orders by a comparison function. It promises a sorted permutation and no order
  among equal elements; the model is an insertion sort, which keeps equal elements in place.
\<close>

fun insert_less :: "('a \<Rightarrow> 'a \<Rightarrow> bool) \<Rightarrow> 'a \<Rightarrow> 'a list \<Rightarrow> 'a list" where
  "insert_less lt x [] = [x]"
| "insert_less lt x (y # ys) = (if lt y x then y # insert_less lt x ys else x # y # ys)"

fun sort_slice :: "('a \<Rightarrow> 'a \<Rightarrow> bool) \<Rightarrow> 'a list \<Rightarrow> 'a list" where
  "sort_slice lt [] = []"
| "sort_slice lt (x # xs) = insert_less lt x (sort_slice lt xs)"

lemma set_insert_less [simp]: "set (insert_less lt x xs) = insert x (set xs)"
  by (induction xs) auto

lemma mset_insert_less [simp]: "mset (insert_less lt x xs) = add_mset x (mset xs)"
  by (induction xs) auto

lemma mset_sort_slice [simp]: "mset (sort_slice lt xs) = mset xs"
  by (induction xs) auto

lemma set_sort_slice [simp]: "set (sort_slice lt xs) = set xs"
  by (induction xs) auto

lemma length_sort_slice [simp]: "length (sort_slice lt xs) = length xs"
  by (metis mset_sort_slice size_mset)

text \<open>Sorted means that no later element is strictly before an earlier one.\<close>

lemma sort_slice_sorted:
  assumes "\<And>x y. lt x y \<Longrightarrow> \<not> lt y x"
    and "\<And>x y z. \<not> lt y x \<Longrightarrow> \<not> lt z y \<Longrightarrow> \<not> lt z x"
  shows "sorted_wrt (\<lambda>x y. \<not> lt y x) (sort_slice lt xs)"
proof (induction xs)
  case (Cons x xs)
  have "sorted_wrt (\<lambda>x y. \<not> lt y x) (insert_less lt x ys)"
    if "sorted_wrt (\<lambda>x y. \<not> lt y x) ys" for ys
    using that by (induction ys) (auto dest: assms)
  with Cons show ?case by simp
qed simp

section \<open>Callbacks\<close>

type_synonym 's replay_fn = "seq \<Rightarrow> message \<Rightarrow> gotime \<Rightarrow> 's \<Rightarrow> 's \<times> go_error option"

end
