(* ===== verification/SpoolSpec.thy ===== *)
theory SpoolSpec
  imports StoreTypes
begin

text \<open>
  The contract of \<^verbatim>\<open>SpoolStore\<close> (\<^verbatim>\<open>src/internal/store/store.go\<close>, the interface both backends
  implement) as a locale: what a replay visits after an append, a trim and a checkpoint write,
  per pipeline. The client facts proved here once are what crash recovery rests on; the in-memory
  store and the SQLite store each discharge the contract in their own theory.
\<close>

text \<open>What a replay hands to its callback for a pipeline.\<close>

type_synonym entries = "(seq \<times> message) list"

text \<open>The calls the engine makes on one pipeline of a store.\<close>

datatype spool_call =
    CallAppend message gotime
  | CallCheckpoint seq
  | CallTrim seq

locale spool_store =
  fixes inv :: "'s \<Rightarrow> bool"
    and pending :: "string \<Rightarrow> seq \<Rightarrow> 's \<Rightarrow> entries"
    and stored :: "message \<Rightarrow> message"
    and append_op :: "string \<Rightarrow> message \<Rightarrow> gotime \<Rightarrow> 's \<Rightarrow> 's \<times> (go_error + seq)"
    and trim_op :: "string \<Rightarrow> seq \<Rightarrow> 's \<Rightarrow> 's"
    and set_cp :: "string \<Rightarrow> seq \<Rightarrow> 's \<Rightarrow> 's"
    and get_cp :: "string \<Rightarrow> 's \<Rightarrow> seq"
  assumes append_inv: "inv s \<Longrightarrow> inv (fst (append_op p m t s))"
    and append_pending: "inv s \<Longrightarrow> append_op p m t s = (s', Inr q) \<Longrightarrow>
      pending p' a s' = pending p' a s @ (if p' = p \<and> a < q then [(q, stored m)] else [])"
    and append_fresh: "inv s \<Longrightarrow> append_op p m t s = (s', Inr q) \<Longrightarrow>
      (q', m') \<in> set (pending p' a s) \<Longrightarrow> q' < q"
    and append_refused: "inv s \<Longrightarrow> append_op p m t s = (s', Inl e) \<Longrightarrow>
      pending p' a s' = pending p' a s"
    and append_cp: "inv s \<Longrightarrow> get_cp p' (fst (append_op p m t s)) = get_cp p' s"
    and trim_inv: "inv s \<Longrightarrow> inv (trim_op p q s)"
    and trim_pending: "inv s \<Longrightarrow> pending p' a (trim_op p q s) =
      (if p' = p then filter (\<lambda>e. q < fst e) (pending p' a s) else pending p' a s)"
    and trim_cp: "inv s \<Longrightarrow> get_cp p' (trim_op p q s) = get_cp p' s"
    and cp_inv: "inv s \<Longrightarrow> inv (set_cp p q s)"
    and cp_pending: "inv s \<Longrightarrow> pending p' a (set_cp p q s) = pending p' a s"
    and cp_forward: "inv s \<Longrightarrow> get_cp p s < q \<Longrightarrow> get_cp p (set_cp p q s) = q"
    and cp_other: "inv s \<Longrightarrow> p' \<noteq> p \<Longrightarrow> get_cp p' (set_cp p q s) = get_cp p' s"
    and pending_after: "a \<le> b \<Longrightarrow> inv s \<Longrightarrow> pending p b s = filter (\<lambda>e. b < fst e) (pending p a s)"
begin

text \<open>One call of the engine, with what it appended.\<close>

fun call :: "string \<Rightarrow> spool_call \<Rightarrow> 's \<Rightarrow> 's \<times> entries" where
  "call p (CallAppend m t) s =
     (case append_op p m t s of
        (s', Inr q) \<Rightarrow> (s', [(q, stored m)]) | (s', Inl e) \<Rightarrow> (s', []))"
| "call p (CallCheckpoint q) s = (set_cp p q s, [])"
| "call p (CallTrim q) s = (trim_op p q s, [])"

text \<open>The discipline: a checkpoint only moves forward, a trim stays at or below it, and sequences
  are positive relative to the checkpoint.\<close>

fun call_ok :: "string \<Rightarrow> spool_call \<Rightarrow> 's \<Rightarrow> bool" where
  "call_ok p (CallAppend m t) s = True"
| "call_ok p (CallCheckpoint q) s = (get_cp p s < q)"
| "call_ok p (CallTrim q) s = (q \<le> get_cp p s)"

fun calls :: "string \<Rightarrow> spool_call list \<Rightarrow> 's \<Rightarrow> 's \<times> entries" where
  "calls p [] s = (s, [])"
| "calls p (x # xs) s =
     (case call p x s of (s1, e1) \<Rightarrow> (case calls p xs s1 of (s2, e2) \<Rightarrow> (s2, e1 @ e2)))"

fun calls_ok :: "string \<Rightarrow> spool_call list \<Rightarrow> 's \<Rightarrow> bool" where
  "calls_ok p [] s = True"
| "calls_ok p (x # xs) s = (call_ok p x s \<and> calls_ok p xs (fst (call p x s)))"

lemma call_inv: "inv s \<Longrightarrow> inv (fst (call p x s))"
proof (cases x)
  case (CallAppend m t)
  moreover assume "inv s"
  ultimately show ?thesis using append_inv [of s p m t] by (auto split: prod.split sum.split)
qed (auto intro: trim_inv cp_inv)

lemma call_cp_mono: "inv s \<Longrightarrow> call_ok p x s \<Longrightarrow> get_cp p s \<le> get_cp p (fst (call p x s))"
proof (cases x)
  case (CallAppend m t)
  moreover assume "inv s"
  ultimately show ?thesis using append_cp [of s p p m t] by (auto split: prod.split sum.split)
next
  case (CallCheckpoint q)
  moreover assume "inv s" "call_ok p x s"
  ultimately show ?thesis using cp_forward [of s p q] by simp
next
  case (CallTrim q)
  moreover assume "inv s"
  ultimately show ?thesis by (simp add: trim_cp)
qed

text \<open>One call keeps everything above the checkpoint replayable.\<close>

lemma call_recovery:
  assumes "inv s" and "call_ok p x s" and "call p x s = (s', es)"
  shows "pending p (get_cp p s') s' = filter (\<lambda>e. get_cp p s' < fst e) (pending p (get_cp p s) s @ es)"
proof (cases x)
  case (CallAppend m t)
  have cp: "get_cp p s' = get_cp p s"
    using assms CallAppend append_cp [of s p p m t] by (auto split: prod.splits sum.splits)
  have self: "pending p (get_cp p s) s = filter (\<lambda>e. get_cp p s < fst e) (pending p (get_cp p s) s)"
    using pending_after [of "get_cp p s" "get_cp p s" s p] assms(1) by simp
  show ?thesis
  proof (cases "append_op p m t s")
    case (Pair u r)
    show ?thesis
    proof (cases r)
      case (Inl e)
      with Pair CallAppend assms self append_refused [of s p m t u e p] cp show ?thesis by simp
    next
      case (Inr q)
      with Pair CallAppend assms have "s' = u" "es = [(q, stored m)]" by simp_all
      with Pair Inr append_pending [of s p m t u q p "get_cp p s"] assms(1) self cp
      show ?thesis by simp
    qed
  qed
next
  case (CallCheckpoint q)
  then have "s' = set_cp p q s" "es = []" "get_cp p s' = q"
    using assms cp_forward [of s p q] by auto
  moreover have "pending p q s = filter (\<lambda>e. q < fst e) (pending p (get_cp p s) s)"
    using assms CallCheckpoint by (intro pending_after) simp_all
  ultimately show ?thesis using assms(1) by (simp add: cp_pending)
next
  case (CallTrim q)
  have self: "pending p (get_cp p s) s = filter (\<lambda>e. get_cp p s < fst e) (pending p (get_cp p s) s)"
    using pending_after [of "get_cp p s" "get_cp p s" s p] assms(1) by simp
  have imp: "(\<lambda>e. get_cp p s < fst e \<and> q < fst e) = (\<lambda>e. get_cp p s < fst e)"
    using assms(2) CallTrim by (auto simp: fun_eq_iff)
  have "filter (\<lambda>e. q < fst e) (pending p (get_cp p s) s) = pending p (get_cp p s) s"
    by (subst (1 2) self) (simp add: imp)
  with CallTrim assms self show ?thesis by (auto simp: trim_pending trim_cp)
qed

text \<open>Recovery: after any disciplined sequence of calls, a replay from the checkpoint visits, in
  order, exactly the entries that were pending or appended and that the checkpoint does not
  cover.\<close>

lemma recovery:
  assumes "inv s" and "calls_ok p xs s" and "calls p xs s = (s', es)"
  shows "pending p (get_cp p s') s'
      = filter (\<lambda>e. get_cp p s' < fst e) (pending p (get_cp p s) s @ es)
    \<and> inv s' \<and> get_cp p s \<le> get_cp p s'"
  using assms
proof (induction xs arbitrary: s s' es)
  case Nil
  then show ?case using pending_after [of "get_cp p s" "get_cp p s" s p] by simp
next
  case (Cons x xs)
  obtain s1 e1 where c: "call p x s = (s1, e1)" by fastforce
  obtain e2 where r: "calls p xs s1 = (s', e2)" "es = e1 @ e2"
    using Cons.prems(3) c by (auto split: prod.splits)
  have 1: "inv s1" "get_cp p s \<le> get_cp p s1" "call_ok p x s"
    using Cons.prems call_inv [of s p x] call_cp_mono [of s p x] c by auto
  have 2: "pending p (get_cp p s') s' = filter (\<lambda>e. get_cp p s' < fst e) (pending p (get_cp p s1) s1 @ e2)"
    "inv s'" "get_cp p s1 \<le> get_cp p s'"
    using Cons.IH [OF 1(1) _ r(1)] Cons.prems(2) c by auto
  have 3: "(\<lambda>e. get_cp p s' < fst e \<and> get_cp p s1 < fst e) = (\<lambda>e. get_cp p s' < fst e)"
    using 2(3) by (auto simp: fun_eq_iff)
  show ?case
    using call_recovery [OF Cons.prems(1) 1(3) c] 1 2 r(2) by (simp add: 3 conj_commute)
qed

end

end
