(* ===== verification/MemStore.thy ===== *)
theory MemStore
  imports SpoolSpec
begin

text \<open>
  The in-memory store of \<^verbatim>\<open>src/internal/store/store.go\<close> (\<^verbatim>\<open>memStore\<close>), every method of its three
  facets: the spool with its checkpoint and source states, the dead letters and the job runs.
  Each method holds the mutex for its whole body (the replay methods release it before they run
  the callback, on a copied window), so each is one function from the state. The clock is the
  argument \<open>now\<close>.
\<close>

section \<open>State\<close>

record memRow =
  row_seq :: seq
  row_pipeline :: string
  row_msg :: message
  row_ingestTime :: gotime

record memSrcState =
  ss_state :: bytes
  ss_srcSeq :: seq

record memStore =
  ms_spool :: "memRow list"
  ms_nextSeq :: seq
  ms_checkpoints :: "string \<rightharpoonup> seq"
  ms_srcStates :: "string \<rightharpoonup> memSrcState"
  ms_deadLetters :: "deadLetter list"
  ms_jobRuns :: "jobRun list"
  ms_nextDLID :: int
  ms_closed :: bool

definition NewMemory :: memStore where
  "NewMemory = \<lparr>ms_spool = [], ms_nextSeq = 0, ms_checkpoints = Map.empty, ms_srcStates = Map.empty,
     ms_deadLetters = [], ms_jobRuns = [], ms_nextDLID = 0, ms_closed = False\<rparr>"

section \<open>The spool\<close>

definition AppendSpool ::
    "string \<Rightarrow> message \<Rightarrow> gotime \<Rightarrow> memStore \<Rightarrow> memStore \<times> (go_error + seq)" where
  "AppendSpool pipeline msg ingestTime s =
     (if ms_closed s then (s, Inl ''store closed'')
      else let q = ms_nextSeq s + 1
           in (s\<lparr>ms_nextSeq := q,
                 ms_spool := ms_spool s @
                   [\<lparr>row_seq = q, row_pipeline = pipeline, row_msg = msg,
                     row_ingestTime = ingestTime\<rparr>]\<rparr>, Inr q))"

text \<open>The page loop \<^verbatim>\<open>for i := start; i < len(s.spool) && len(rows) < limit; i++\<close>, over the rows
  from \<^verbatim>\<open>start\<close> on.\<close>

fun window_loop :: "string \<Rightarrow> int \<Rightarrow> memRow list \<Rightarrow> memRow list \<Rightarrow> memRow list" where
  "window_loop pipeline limit [] rows = rows"
| "window_loop pipeline limit (r # rs) rows =
     (if int (length rows) < limit
      then window_loop pipeline limit rs (if row_pipeline r = pipeline then rows @ [r] else rows)
      else rows)"

definition spoolWindow :: "string \<Rightarrow> seq \<Rightarrow> int \<Rightarrow> memStore \<Rightarrow> memRow list \<times> bool" where
  "spoolWindow pipeline afterSeq limit s =
     (if limit \<le> 0 then ([], False)
      else let start = sort_search (length (ms_spool s)) (\<lambda>i. row_seq (ms_spool s ! i) > afterSeq);
               rows = window_loop pipeline limit (drop start (ms_spool s)) []
           in (rows, int (length rows) = limit))"

text \<open>The callback loop of both replay methods: the last sequence visited, the client's state and
  the callback's error.\<close>

fun visit_rows :: "'s replay_fn \<Rightarrow> memRow list \<Rightarrow> seq \<Rightarrow> 's \<Rightarrow> 's \<times> seq \<times> go_error option" where
  "visit_rows fn [] lst c = (c, lst, None)"
| "visit_rows fn (r # rs) lst c =
     (case fn (row_seq r) (row_msg r) (row_ingestTime r) c of
        (c', Some err) \<Rightarrow> (c', lst, Some err)
      | (c', None) \<Rightarrow> visit_rows fn rs (row_seq r) c')"

definition ReplayFrom ::
    "string \<Rightarrow> seq \<Rightarrow> 's replay_fn \<Rightarrow> memStore \<Rightarrow> 's \<Rightarrow> 's \<times> go_error option" where
  "ReplayFrom pipeline afterSeq fn s c =
     (let rows = fst (spoolWindow pipeline afterSeq (int (length (ms_spool s))) s)
      in case visit_rows fn rows afterSeq c of (c', _, err) \<Rightarrow> (c', err))"

definition ReplayPage ::
    "string \<Rightarrow> seq \<Rightarrow> int \<Rightarrow> 's replay_fn \<Rightarrow> memStore \<Rightarrow> 's \<Rightarrow> 's \<times> seq \<times> bool \<times> go_error option" where
  "ReplayPage pipeline afterSeq limit fn s c =
     (let limit = (if limit \<le> 0 then 500 else limit)
      in case spoolWindow pipeline afterSeq limit s of (rows, full) \<Rightarrow>
           (case visit_rows fn rows afterSeq c of
              (c', lst, Some err) \<Rightarrow> (c', lst, False, Some err)
            | (c', lst, None) \<Rightarrow> (c', lst, full, None)))"

definition DeleteSpoolThrough :: "string \<Rightarrow> seq \<Rightarrow> memStore \<Rightarrow> memStore \<times> int" where
  "DeleteSpoolThrough pipeline through s =
     (let drop_row = (\<lambda>r. row_pipeline r = pipeline \<and> row_seq r \<le> through)
      in (s\<lparr>ms_spool := filter (\<lambda>r. \<not> drop_row r) (ms_spool s)\<rparr>,
          int (length (filter drop_row (ms_spool s)))))"

definition SetCheckpoint :: "string \<Rightarrow> seq \<Rightarrow> memStore \<Rightarrow> memStore" where
  "SetCheckpoint pipeline q s = s\<lparr>ms_checkpoints := (ms_checkpoints s)(pipeline \<mapsto> q)\<rparr>"

definition Checkpoint :: "string \<Rightarrow> memStore \<Rightarrow> seq" where
  "Checkpoint pipeline s = (case ms_checkpoints s pipeline of None \<Rightarrow> 0 | Some q \<Rightarrow> q)"

definition SetSourceState :: "string \<Rightarrow> node_name \<Rightarrow> bytes \<Rightarrow> seq \<Rightarrow> memStore \<Rightarrow> memStore" where
  "SetSourceState pipeline source st srcSeq s =
     s\<lparr>ms_srcStates := (ms_srcStates s)(sourceKey pipeline source \<mapsto> \<lparr>ss_state = st, ss_srcSeq = srcSeq\<rparr>)\<rparr>"

definition SourceState :: "string \<Rightarrow> node_name \<Rightarrow> memStore \<Rightarrow> bytes \<times> seq" where
  "SourceState pipeline source s =
     (case ms_srcStates s (sourceKey pipeline source) of
        None \<Rightarrow> ('''', 0) | Some st \<Rightarrow> (ss_state st, ss_srcSeq st))"

section \<open>Dead letters\<close>

definition WriteDeadLetter :: "gotime \<Rightarrow> deadLetter \<Rightarrow> memStore \<Rightarrow> memStore" where
  "WriteDeadLetter now dl s =
     (let i = ms_nextDLID s + 1;
          dl1 = dl\<lparr>dl_ID := i\<rparr>;
          dl2 = (if dl_CreatedAt dl1 = 0 then dl1\<lparr>dl_CreatedAt := now\<rparr> else dl1)
      in s\<lparr>ms_nextDLID := i, ms_deadLetters := ms_deadLetters s @ [dl2]\<rparr>)"

definition DeadLetters :: "string \<Rightarrow> memStore \<Rightarrow> deadLetter list" where
  "DeadLetters pipeline s = filter (\<lambda>dl. dl_Pipeline dl = pipeline) (rev (ms_deadLetters s))"

definition DeadLettersSince :: "string \<Rightarrow> gotime \<Rightarrow> memStore \<Rightarrow> deadLetter list" where
  "DeadLettersSince pipeline since s =
     (if since = 0 then DeadLetters pipeline s
      else filter (\<lambda>dl. \<not> dl_CreatedAt dl < since) (DeadLetters pipeline s))"

definition DeadLettersForRun :: "string \<Rightarrow> string \<Rightarrow> memStore \<Rightarrow> deadLetter list" where
  "DeadLettersForRun pipeline runID s = filter (\<lambda>dl. dl_RunID dl = runID) (DeadLetters pipeline s)"

definition drop_deadLetters :: "(deadLetter \<Rightarrow> bool) \<Rightarrow> memStore \<Rightarrow> memStore \<times> int" where
  "drop_deadLetters sel s =
     (s\<lparr>ms_deadLetters := filter (\<lambda>dl. \<not> sel dl) (ms_deadLetters s)\<rparr>,
      int (length (filter sel (ms_deadLetters s))))"

definition DeleteDeadLetters :: "string \<Rightarrow> int list \<Rightarrow> memStore \<Rightarrow> memStore \<times> int" where
  "DeleteDeadLetters pipeline ids s =
     drop_deadLetters (\<lambda>dl. dl_Pipeline dl = pipeline \<and> dl_ID dl \<in> set ids) s"

definition DeleteDeadLettersBefore :: "string \<Rightarrow> gotime \<Rightarrow> memStore \<Rightarrow> memStore \<times> int" where
  "DeleteDeadLettersBefore pipeline cutoff s =
     drop_deadLetters (\<lambda>dl. dl_Pipeline dl = pipeline \<and> dl_CreatedAt dl < cutoff) s"

section \<open>Job runs\<close>

definition CreateJobRun :: "gotime \<Rightarrow> jobRun \<Rightarrow> memStore \<Rightarrow> memStore \<times> go_error option" where
  "CreateJobRun now jr s =
     (if \<exists>e\<in>set (ms_jobRuns s). jr_RunID e = jr_RunID jr
      then (s, Some (''store: job run '' @ jr_RunID jr @ '': UNIQUE constraint failed: job_run.run_id''))
      else let jr1 = (if jr_UpdatedAt jr = 0 then jr\<lparr>jr_UpdatedAt := now\<rparr> else jr)
           in (s\<lparr>ms_jobRuns := ms_jobRuns s @ [jr1]\<rparr>, None))"

text \<open>The loop of \<^verbatim>\<open>UpdateJobRun\<close> replaces the first matching row.\<close>

fun update_run :: "jobRun \<Rightarrow> jobRun list \<Rightarrow> jobRun list option" where
  "update_run jr [] = None"
| "update_run jr (e # es) =
     (if jr_RunID e = jr_RunID jr \<and> jr_Pipeline e = jr_Pipeline jr then Some (jr # es)
      else map_option (\<lambda>es'. e # es') (update_run jr es))"

definition not_found :: "string \<Rightarrow> go_error" where
  "not_found runID = ''store: job run '' @ [CHR 0x22] @ runID @ [CHR 0x22] @ '' not found''"

definition UpdateJobRun :: "gotime \<Rightarrow> jobRun \<Rightarrow> memStore \<Rightarrow> memStore \<times> go_error option" where
  "UpdateJobRun now jr s =
     (case update_run (jr\<lparr>jr_UpdatedAt := now\<rparr>) (ms_jobRuns s) of
        None \<Rightarrow> (s, Some (not_found (jr_RunID jr)))
      | Some rs \<Rightarrow> (s\<lparr>ms_jobRuns := rs\<rparr>, None))"

definition GetJobRun :: "string \<Rightarrow> string \<Rightarrow> memStore \<Rightarrow> go_error + jobRun" where
  "GetJobRun pipeline runID s =
     (case find (\<lambda>jr. jr_Pipeline jr = pipeline \<and> jr_RunID jr = runID) (rev (ms_jobRuns s)) of
        None \<Rightarrow> Inl (not_found runID) | Some jr \<Rightarrow> Inr jr)"

definition run_before :: "jobRun \<Rightarrow> jobRun \<Rightarrow> bool" where
  "run_before a b = (if jr_StartedAt a \<noteq> jr_StartedAt b then jr_StartedAt a > jr_StartedAt b
                     else jr_RunID a > jr_RunID b)"

definition JobRuns :: "string \<Rightarrow> int \<Rightarrow> memStore \<Rightarrow> jobRun list" where
  "JobRuns pipeline limit s =
     (let limit = (if limit \<le> 0 then 100 else limit);
          out = sort_slice run_before (filter (\<lambda>jr. jr_Pipeline jr = pipeline) (ms_jobRuns s))
      in if int (length out) > limit then take (nat limit) out else out)"

definition RunnableJobRuns :: "string \<Rightarrow> memStore \<Rightarrow> jobRun list" where
  "RunnableJobRuns pipeline s =
     sort_slice (\<lambda>a b. jr_StartedAt a < jr_StartedAt b)
       (filter (\<lambda>jr. jr_Pipeline jr = pipeline \<and> IsRunnableStatus (jr_Status jr)) (ms_jobRuns s))"

definition HasSuccessfulRunFor :: "string \<Rightarrow> string \<Rightarrow> memStore \<Rightarrow> bool" where
  "HasSuccessfulRunFor pipeline scheduledFor s \<longleftrightarrow>
     (\<exists>jr\<in>set (ms_jobRuns s). jr_Pipeline jr = pipeline \<and> jr_ScheduledFor jr = scheduledFor
        \<and> jr_Status jr = JobSuccess)"

definition LastScheduledFor :: "string \<Rightarrow> memStore \<Rightarrow> string" where
  "LastScheduledFor pipeline s =
     foldl (\<lambda>lst jr. if jr_Pipeline jr = pipeline \<and> jr_ScheduledFor jr > lst
                      then jr_ScheduledFor jr else lst) '''' (ms_jobRuns s)"

definition DeleteJobRunsBefore :: "string \<Rightarrow> gotime \<Rightarrow> memStore \<Rightarrow> memStore \<times> int" where
  "DeleteJobRunsBefore pipeline cutoff s =
     (let sel = (\<lambda>jr. jr_Pipeline jr = pipeline \<and> \<not> IsRunnableStatus (jr_Status jr)
                     \<and> jr_EndedAt jr \<noteq> 0 \<and> jr_EndedAt jr < cutoff)
      in (s\<lparr>ms_jobRuns := filter (\<lambda>jr. \<not> sel jr) (ms_jobRuns s)\<rparr>,
          int (length (filter sel (ms_jobRuns s)))))"

definition CloseMem :: "memStore \<Rightarrow> memStore" where
  "CloseMem s = s\<lparr>ms_closed := True\<rparr>"

lemmas memstore_defs [store_simps] = AppendSpool_def DeleteSpoolThrough_def SetCheckpoint_def
  SetSourceState_def WriteDeadLetter_def drop_deadLetters_def DeleteDeadLetters_def
  DeleteDeadLettersBefore_def CreateJobRun_def UpdateJobRun_def DeleteJobRunsBefore_def CloseMem_def

section \<open>Well-formed stores\<close>

definition mem_inv :: "memStore \<Rightarrow> bool" where
  "mem_inv s \<longleftrightarrow>
     sorted_wrt (<) (map row_seq (ms_spool s)) \<and>
     (\<forall>r\<in>set (ms_spool s). 1 \<le> row_seq r \<and> row_seq r \<le> ms_nextSeq s) \<and> 0 \<le> ms_nextSeq s \<and>
     sorted_wrt (<) (map dl_ID (ms_deadLetters s)) \<and>
     (\<forall>d\<in>set (ms_deadLetters s). dl_ID d \<le> ms_nextDLID s) \<and>
     distinct (map jr_RunID (ms_jobRuns s))"

lemma sorted_wrt_less_filter [simp]:
  "sorted_wrt (<) (map f xs) \<Longrightarrow> sorted_wrt (<) (map f (filter P xs))" for f :: "'a \<Rightarrow> int"
  by (simp add: sorted_wrt_map sorted_wrt_filter)

lemma distinct_map_filter_keep [simp]: "distinct (map f xs) \<Longrightarrow> distinct (map f (filter P xs))"
  by (induction xs) auto

lemma update_run_Some:
  "update_run jr rs = Some rs' \<Longrightarrow> map jr_RunID rs' = map jr_RunID rs"
  by (induction rs arbitrary: rs') (auto split: if_splits)

lemma NewMemory_inv: "mem_inv NewMemory"
  by (simp add: mem_inv_def NewMemory_def)

lemma mem_inv_AppendSpool: "mem_inv s \<Longrightarrow> mem_inv (fst (AppendSpool p m t s))"
  by (force simp: mem_inv_def AppendSpool_def Let_def sorted_wrt_append)

lemma mem_inv_DeleteSpoolThrough: "mem_inv s \<Longrightarrow> mem_inv (fst (DeleteSpoolThrough p q s))"
  by (auto simp: mem_inv_def DeleteSpoolThrough_def Let_def)

lemma mem_inv_SetCheckpoint: "mem_inv s \<Longrightarrow> mem_inv (SetCheckpoint p q s)"
  by (simp add: mem_inv_def SetCheckpoint_def)

lemma mem_inv_SetSourceState: "mem_inv s \<Longrightarrow> mem_inv (SetSourceState p n st q s)"
  by (simp add: mem_inv_def SetSourceState_def)

lemma mem_inv_WriteDeadLetter: "mem_inv s \<Longrightarrow> mem_inv (WriteDeadLetter now d s)"
  by (force simp: mem_inv_def WriteDeadLetter_def Let_def sorted_wrt_append)

lemma mem_inv_drop_deadLetters: "mem_inv s \<Longrightarrow> mem_inv (fst (drop_deadLetters sel s))"
  by (auto simp: mem_inv_def drop_deadLetters_def)

lemma mem_inv_CreateJobRun: "mem_inv s \<Longrightarrow> mem_inv (fst (CreateJobRun now jr s))"
  by (auto simp: mem_inv_def CreateJobRun_def Let_def)

lemma mem_inv_UpdateJobRun: "mem_inv s \<Longrightarrow> mem_inv (fst (UpdateJobRun now jr s))"
  by (auto simp: mem_inv_def UpdateJobRun_def split: option.splits dest: update_run_Some)

lemma mem_inv_DeleteJobRunsBefore: "mem_inv s \<Longrightarrow> mem_inv (fst (DeleteJobRunsBefore p t s))"
  by (auto simp: mem_inv_def DeleteJobRunsBefore_def Let_def)

lemma mem_inv_CloseMem: "mem_inv s \<Longrightarrow> mem_inv (CloseMem s)"
  by (simp add: mem_inv_def CloseMem_def)

lemmas mem_inv_intros = NewMemory_inv mem_inv_CloseMem mem_inv_AppendSpool mem_inv_DeleteSpoolThrough
  mem_inv_SetCheckpoint mem_inv_SetSourceState mem_inv_WriteDeadLetter mem_inv_drop_deadLetters
  mem_inv_CreateJobRun mem_inv_UpdateJobRun mem_inv_DeleteJobRunsBefore

section \<open>What a replay visits\<close>

definition rows_after :: "string \<Rightarrow> seq \<Rightarrow> memStore \<Rightarrow> memRow list" where
  "rows_after pipeline afterSeq s =
     filter (\<lambda>r. row_pipeline r = pipeline \<and> afterSeq < row_seq r) (ms_spool s)"

lemma window_loop_spec:
  assumes "0 < limit" and "int (length rows) \<le> limit"
  shows "window_loop p limit rs rows
    = rows @ take (nat limit - length rows) (filter (\<lambda>r. row_pipeline r = p) rs)"
  using assms by (induction rs arbitrary: rows) (auto simp: Suc_diff_Suc take_Cons' nat_le_iff)

lemma sorted_drop_filter:
  fixes f :: "'a \<Rightarrow> int"
  assumes "sorted_wrt (<) (map f xs)"
  shows "drop (sort_search (length xs) (\<lambda>i. a < f (xs ! i))) xs = filter (\<lambda>x. a < f x) xs"
proof -
  have "sort_search (length xs) (\<lambda>i. a < f (xs ! i)) = length (takeWhile (\<lambda>x. \<not> a < f x) xs)"
  proof (rule sort_search_takeWhile)
    fix i j
    assume "i \<le> j" "j < length xs" "a < f (xs ! i)"
    then show "a < f (xs ! j)"
      using assms sorted_wrt_nth_less [of "(<)" "map f xs" i j] by (cases "i = j") auto
  qed
  then have "drop (sort_search (length xs) (\<lambda>i. a < f (xs ! i))) xs = dropWhile (\<lambda>x. \<not> a < f x) xs"
    by (simp add: dropWhile_eq_drop)
  also have "\<dots> = filter (\<lambda>x. a < f x) xs"
    using assms by (induction xs) (auto intro!: filter_True [symmetric] intro: order.strict_trans)
  finally show ?thesis .
qed

lemma spoolWindow_spec:
  assumes "mem_inv s"
  shows "fst (spoolWindow p a limit s) = take (nat limit) (rows_after p a s)"
    and "snd (spoolWindow p a limit s)
      \<longleftrightarrow> 0 < limit \<and> int (length (take (nat limit) (rows_after p a s))) = limit"
proof -
  let ?start = "sort_search (length (ms_spool s)) (\<lambda>i. row_seq (ms_spool s ! i) > a)"
  have "drop ?start (ms_spool s) = filter (\<lambda>r. a < row_seq r) (ms_spool s)"
    using assms by (intro sorted_drop_filter) (simp add: mem_inv_def)
  then have win: "window_loop p limit (drop ?start (ms_spool s)) [] = take (nat limit) (rows_after p a s)"
    if "0 < limit"
    using that by (simp add: window_loop_spec rows_after_def conj_commute)
  show "fst (spoolWindow p a limit s) = take (nat limit) (rows_after p a s)"
    using win by (simp add: spoolWindow_def Let_def)
  show "snd (spoolWindow p a limit s)
      \<longleftrightarrow> 0 < limit \<and> int (length (take (nat limit) (rows_after p a s))) = limit"
    using win by (simp add: spoolWindow_def Let_def)
qed

lemma ReplayFrom_rows_after:
  assumes "mem_inv s"
  shows "ReplayFrom p a fn s c =
    (case visit_rows fn (rows_after p a s) a c of (c', _, err) \<Rightarrow> (c', err))"
proof -
  have "length (rows_after p a s) \<le> length (ms_spool s)"
    by (simp add: rows_after_def)
  then show ?thesis
    by (simp add: ReplayFrom_def spoolWindow_spec(1) [OF assms] Let_def)
qed

lemma rows_after_later: "a \<le> b \<Longrightarrow> rows_after p b s = filter (\<lambda>r. b < row_seq r) (rows_after p a s)"
  by (auto simp: rows_after_def intro: filter_cong)

section \<open>The in-memory store meets the spool contract\<close>

definition entry_of :: "memRow \<Rightarrow> seq \<times> message" where
  "entry_of r = (row_seq r, row_msg r)"

definition mem_pending :: "string \<Rightarrow> seq \<Rightarrow> memStore \<Rightarrow> entries" where
  "mem_pending p a s = map entry_of (rows_after p a s)"

lemma filter_map_entry: "filter (\<lambda>e. b < fst e) (map entry_of rs) = map entry_of (filter (\<lambda>r. b < row_seq r) rs)"
  by (simp add: filter_map o_def entry_of_def)

interpretation mem: spool_store mem_inv mem_pending "\<lambda>m. m" AppendSpool
  "\<lambda>p q s. fst (DeleteSpoolThrough p q s)" SetCheckpoint Checkpoint
proof (unfold_locales, goal_cases)
  case 1
  then show ?case by (rule mem_inv_AppendSpool)
next
  case 2
  then show ?case
    by (auto simp: mem_pending_def rows_after_def entry_of_def AppendSpool_def Let_def split: if_splits)
next
  case (3 s p m t s' q q' m' p' a)
  then show ?case
    by (force simp: mem_pending_def rows_after_def entry_of_def AppendSpool_def Let_def mem_inv_def
      split: if_splits)
next
  case 4
  then show ?case by (auto simp: AppendSpool_def Let_def split: if_splits)
next
  case 5
  then show ?case by (auto simp: AppendSpool_def Let_def Checkpoint_def)
next
  case 6
  then show ?case by (rule mem_inv_DeleteSpoolThrough)
next
  case (7 s p' a p q)
  show ?case
    by (auto simp: mem_pending_def filter_map_entry rows_after_def DeleteSpoolThrough_def Let_def
      intro!: arg_cong [of _ _ "map entry_of"] filter_cong)
next
  case 8
  show ?case by (simp add: DeleteSpoolThrough_def Let_def Checkpoint_def)
next
  case 9
  then show ?case by (rule mem_inv_SetCheckpoint)
next
  case 10
  show ?case by (simp add: mem_pending_def rows_after_def SetCheckpoint_def)
next
  case 11
  show ?case by (simp add: Checkpoint_def SetCheckpoint_def)
next
  case 12
  then show ?case by (simp add: Checkpoint_def SetCheckpoint_def)
next
  case 13
  then show ?case by (simp add: mem_pending_def filter_map_entry rows_after_later)
qed

section \<open>Runs of the store\<close>

text \<open>Every mutating call, each with the pipeline it names.\<close>

datatype store_op =
    OpAppend string message gotime
  | OpTrim string seq
  | OpCheckpoint string seq
  | OpSourceState string node_name bytes seq
  | OpDeadLetter deadLetter
  | OpDeleteDL string "int list"
  | OpDeleteDLBefore string gotime
  | OpCreateRun jobRun
  | OpUpdateRun jobRun
  | OpDeleteRuns string gotime
  | OpClose

fun op_pipeline :: "store_op \<Rightarrow> string option" where
  "op_pipeline (OpAppend p _ _) = Some p"
| "op_pipeline (OpTrim p _) = Some p"
| "op_pipeline (OpCheckpoint p _) = Some p"
| "op_pipeline (OpSourceState p _ _ _) = Some p"
| "op_pipeline (OpDeadLetter d) = Some (dl_Pipeline d)"
| "op_pipeline (OpDeleteDL p _) = Some p"
| "op_pipeline (OpDeleteDLBefore p _) = Some p"
| "op_pipeline (OpCreateRun jr) = Some (jr_Pipeline jr)"
| "op_pipeline (OpUpdateRun jr) = Some (jr_Pipeline jr)"
| "op_pipeline (OpDeleteRuns p _) = Some p"
| "op_pipeline OpClose = None"

fun mem_step :: "gotime \<Rightarrow> store_op \<Rightarrow> memStore \<Rightarrow> memStore" where
  "mem_step now (OpAppend p m t) s = fst (AppendSpool p m t s)"
| "mem_step now (OpTrim p q) s = fst (DeleteSpoolThrough p q s)"
| "mem_step now (OpCheckpoint p q) s = SetCheckpoint p q s"
| "mem_step now (OpSourceState p n st q) s = SetSourceState p n st q s"
| "mem_step now (OpDeadLetter d) s = WriteDeadLetter now d s"
| "mem_step now (OpDeleteDL p ids) s = fst (DeleteDeadLetters p ids s)"
| "mem_step now (OpDeleteDLBefore p t) s = fst (DeleteDeadLettersBefore p t s)"
| "mem_step now (OpCreateRun jr) s = fst (CreateJobRun now jr s)"
| "mem_step now (OpUpdateRun jr) s = fst (UpdateJobRun now jr s)"
| "mem_step now (OpDeleteRuns p t) s = fst (DeleteJobRunsBefore p t s)"
| "mem_step now OpClose s = CloseMem s"

inductive mem_trans :: "memStore \<Rightarrow> memStore \<Rightarrow> bool" where
  "mem_trans s (mem_step now x s)"

lemma mem_step_inv: "mem_inv s \<Longrightarrow> mem_inv (mem_step now x s)"
  by (cases x) (auto simp: DeleteDeadLetters_def DeleteDeadLettersBefore_def intro: mem_inv_intros)

interpretation mem_runs: inductive_invariant "\<lambda>s. s = NewMemory" mem_trans mem_inv
proof (unfold_locales, goal_cases)
  case 1
  then show ?case by (simp add: NewMemory_inv)
next
  case 2
  then show ?case by (auto elim!: mem_trans.cases intro: mem_step_inv)
qed

lemma update_run_other:
  assumes "update_run jr rs = Some rs'" and "jr_Pipeline jr \<noteq> p"
  shows "filter (\<lambda>e. jr_Pipeline e = p) rs' = filter (\<lambda>e. jr_Pipeline e = p) rs"
  using assms by (induction rs arbitrary: rs') (auto split: if_splits)

text \<open>Everything a pipeline can read.\<close>

definition pipeline_view where
  "pipeline_view p s =
     (filter (\<lambda>r. row_pipeline r = p) (ms_spool s), Checkpoint p s, DeadLetters p s,
      filter (\<lambda>r. jr_Pipeline r = p) (ms_jobRuns s), (\<lambda>n. SourceState p n s))"

lemma filter_conj_absorb: "(\<And>x. P x \<Longrightarrow> Q x) \<Longrightarrow> filter (\<lambda>x. Q x \<and> P x) xs = filter P xs"
  by (rule filter_cong) auto

lemma view_frame:
  assumes "filter (\<lambda>r. row_pipeline r = p) (ms_spool t) = filter (\<lambda>r. row_pipeline r = p) (ms_spool s)"
    and "ms_checkpoints t p = ms_checkpoints s p"
    and "filter (\<lambda>d. dl_Pipeline d = p) (ms_deadLetters t) = filter (\<lambda>d. dl_Pipeline d = p) (ms_deadLetters s)"
    and "filter (\<lambda>r. jr_Pipeline r = p) (ms_jobRuns t) = filter (\<lambda>r. jr_Pipeline r = p) (ms_jobRuns s)"
    and "\<And>n. ms_srcStates t (sourceKey p n) = ms_srcStates s (sourceKey p n)"
  shows "pipeline_view p t = pipeline_view p s"
  using assms by (simp add: pipeline_view_def Checkpoint_def DeadLetters_def SourceState_def rev_filter [symmetric])

section \<open>Properties\<close>



text \<open>
  C25. Pipelines sharing one store stay isolated: no mutating call on one pipeline changes what
  another pipeline reads of its spool, checkpoint, dead letters, job runs or source states. (For
  the source states the pipeline names must not contain the NUL byte that separates the key.)
\<close>

theorem pipelines_isolated:
  assumes "op_pipeline x \<noteq> Some p" and "CHR 0x00 \<notin> set p"
    and "\<And>q. op_pipeline x = Some q \<Longrightarrow> CHR 0x00 \<notin> set q"
  shows "pipeline_view p (mem_step now x s) = pipeline_view p s"
proof (cases x)
  case (OpUpdateRun jr)
  then show ?thesis using assms(1) update_run_other [of "jr\<lparr>jr_UpdatedAt := now\<rparr>"]
    by (intro view_frame) (auto simp: UpdateJobRun_def split: option.split)
next
  case (OpSourceState q n st k)
  then show ?thesis using assms by (intro view_frame) (auto simp: SetSourceState_def sourceKey_inject)
qed (use assms in \<open>auto intro!: view_frame filter_conj_absorb simp: store_simps Let_def\<close>)

theorem pipelines_isolated_witness:
  "pipeline_view ''b'' (mem_step 7 (OpCheckpoint ''a'' 4) NewMemory) = pipeline_view ''b'' NewMemory"
  by (rule pipelines_isolated) auto

text \<open>Two runs, the later one first, and a limit of one leaves the older run out.\<close>

definition two_runs :: memStore where
  "two_runs = NewMemory\<lparr>ms_jobRuns := [zero_jobRun\<lparr>jr_RunID := ''r1'', jr_Pipeline := ''p'', jr_StartedAt := 10,
       jr_Status := JobSuccess, jr_EndedAt := 11, jr_ScheduledFor := ''t1''\<rparr>,
     zero_jobRun\<lparr>jr_RunID := ''r2'', jr_Pipeline := ''p'', jr_StartedAt := 20,
       jr_Status := JobRunning, jr_ScheduledFor := ''t2''\<rparr>]\<rparr>"

text \<open>
  C28. The listing of job runs: it holds runs of the pipeline only, newest first (by start time,
  then by run id), at most \<open>limit\<close> of them (100 when no limit is given), and no run that was left
  out is newer than one that is listed.
\<close>

theorem JobRuns_newest_first:
  "sorted_wrt (\<lambda>a b. \<not> run_before b a) (JobRuns p limit s)
   \<and> int (length (JobRuns p limit s)) \<le> (if limit \<le> 0 then 100 else limit)
   \<and> (\<exists>left_out. mset (JobRuns p limit s) + left_out
          = mset (filter (\<lambda>jr. jr_Pipeline jr = p) (ms_jobRuns s))
        \<and> (\<forall>a b. a \<in> set (JobRuns p limit s) \<and> b \<in># left_out \<longrightarrow> \<not> run_before b a)
        \<and> (left_out \<noteq> {#} \<longrightarrow> int (length (JobRuns p limit s)) = (if limit \<le> 0 then 100 else limit)))"
proof -
  let ?l = "if limit \<le> 0 then 100 else limit"
  let ?all = "sort_slice run_before (filter (\<lambda>jr. jr_Pipeline jr = p) (ms_jobRuns s))"
  have eq: "JobRuns p limit s = take (nat ?l) ?all"
    by (auto simp: JobRuns_def Let_def)
  have sorted: "sorted_wrt (\<lambda>a b. \<not> run_before b a) ?all"
    by (rule sort_slice_sorted) (auto simp: run_before_def split: if_splits)
  then have "sorted_wrt (\<lambda>a b. \<not> run_before b a) (take (nat ?l) ?all @ drop (nat ?l) ?all)"
    by simp
  from this [unfolded sorted_wrt_append] have 1: "sorted_wrt (\<lambda>a b. \<not> run_before b a) (take (nat ?l) ?all)"
    "\<forall>a\<in>set (take (nat ?l) ?all). \<forall>b\<in>set (drop (nat ?l) ?all). \<not> run_before b a"
    by blast+
  have 2: "mset (take (nat ?l) ?all) + mset (drop (nat ?l) ?all)
      = mset (filter (\<lambda>jr. jr_Pipeline jr = p) (ms_jobRuns s))"
    by (metis append_take_drop_id mset_append mset_sort_slice)
  have 3: "int (length (take (nat ?l) ?all)) \<le> ?l"
    "drop (nat ?l) ?all \<noteq> [] \<Longrightarrow> int (length (take (nat ?l) ?all)) = ?l"
    by auto
  show ?thesis unfolding eq
    using 1 2 3 by (intro conjI exI [of _ "mset (drop (nat ?l) ?all)"]) auto
qed

theorem JobRuns_newest_first_witness:
  "map jr_RunID (JobRuns ''p'' 1 two_runs) = [''r2''] \<and>
   sorted_wrt (\<lambda>a b. \<not> run_before b a) (JobRuns ''p'' 0 two_runs)"
  using JobRuns_newest_first [of "''p''" 0 two_runs]
  by (simp add: JobRuns_def two_runs_def run_before_def NewMemory_def zero_jobRun_def)

text \<open>
  C29. The retention sweep of the run history removes exactly the finished runs of the pipeline
  that ended before the cutoff, and reports how many; a run that is pending or running, or that
  has no end time, survives every sweep.
\<close>

theorem DeleteJobRunsBefore_exact:
  "(\<forall>jr. jr \<in> set (ms_jobRuns (fst (DeleteJobRunsBefore p cutoff s))) \<longleftrightarrow>
      jr \<in> set (ms_jobRuns s) \<and>
      (jr_Pipeline jr \<noteq> p \<or> IsRunnableStatus (jr_Status jr) \<or> jr_EndedAt jr = 0 \<or> cutoff \<le> jr_EndedAt jr))
   \<and> snd (DeleteJobRunsBefore p cutoff s)
      = int (length (ms_jobRuns s)) - int (length (ms_jobRuns (fst (DeleteJobRunsBefore p cutoff s))))"
proof -
  have "length (filter P xs) + length (filter (\<lambda>x. \<not> P x) xs) = length xs" for P and xs :: "jobRun list"
    by (rule sum_length_filter_compl)
  then have "int (length (filter P xs)) = int (length xs) - int (length (filter (\<lambda>x. \<not> P x) xs))"
    for P and xs :: "jobRun list" by (metis add_diff_cancel_right' of_nat_add)
  note this [where P = "\<lambda>jr. jr_Pipeline jr = p \<and> \<not> IsRunnableStatus (jr_Status jr)
     \<and> jr_EndedAt jr \<noteq> 0 \<and> jr_EndedAt jr < cutoff" and xs = "ms_jobRuns s"]
  then show ?thesis by (auto simp: DeleteJobRunsBefore_def Let_def simp del: de_Morgan_conj)
qed

theorem DeleteJobRunsBefore_exact_witness:
  "ms_jobRuns two_runs ! 0 \<notin> set (ms_jobRuns (fst (DeleteJobRunsBefore ''p'' 15 two_runs)))
   \<and> ms_jobRuns two_runs ! 1 \<in> set (ms_jobRuns (fst (DeleteJobRunsBefore ''p'' 15 two_runs)))"
  unfolding conjunct1 [OF DeleteJobRunsBefore_exact [of "''p''" 15 two_runs], rule_format]
  by (simp add: two_runs_def IsRunnableStatus_def zero_jobRun_def job_status_defs)

text \<open>
  C30. \<^verbatim>\<open>LastScheduledFor\<close> is the greatest scheduled tick among the pipeline's runs, and the empty
  string when none of them carries one.
\<close>

theorem LastScheduledFor_greatest:
  "(\<forall>jr\<in>set (ms_jobRuns s). jr_Pipeline jr = p \<longrightarrow> jr_ScheduledFor jr \<le> LastScheduledFor p s)
   \<and> (LastScheduledFor p s = '''' \<or>
      (\<exists>jr\<in>set (ms_jobRuns s). jr_Pipeline jr = p \<and> jr_ScheduledFor jr = LastScheduledFor p s))"
proof -
  let ?f = "\<lambda>lst jr. if jr_Pipeline jr = p \<and> jr_ScheduledFor jr > lst then jr_ScheduledFor jr else lst"
  have "a \<le> foldl ?f a rs
    \<and> (\<forall>jr\<in>set rs. jr_Pipeline jr = p \<longrightarrow> jr_ScheduledFor jr \<le> foldl ?f a rs)
    \<and> (foldl ?f a rs = a \<or> (\<exists>jr\<in>set rs. jr_Pipeline jr = p \<and> jr_ScheduledFor jr = foldl ?f a rs))" for a rs
  proof (induction rs arbitrary: a)
    case (Cons r rs)
    from Cons.IH [of "?f a r"] show ?case
      by (auto split: if_splits simp: not_less intro: order.trans order.strict_implies_order)
  qed simp
  then show ?thesis unfolding LastScheduledFor_def by blast
qed

theorem LastScheduledFor_greatest_witness:
  "''t1'' \<le> LastScheduledFor ''p'' two_runs \<and> LastScheduledFor ''p'' two_runs = ''t2''"
  using LastScheduledFor_greatest [of two_runs "''p''"]
  by (simp add: two_runs_def zero_jobRun_def LastScheduledFor_def)

end
