(* ===== verification/Sqlite.thy ===== *)
theory Sqlite
  imports MemStore
begin

text \<open>
  The tables of the SQLite store and the statements the sources run on them
  (\<^verbatim>\<open>src/internal/store/sqlite.go\<close>). A table is the list of its rows in insertion order, an
  upsert table a map on its primary key; \<^verbatim>\<open>AUTOINCREMENT\<close> is the last id ever assigned. A spool row
  stores the message's columns: the decoded value, the encoded output and the order key are not
  persisted. Text columns that hold JSON or a fixed-width UTC time are modelled by the value they
  encode (the layout makes text order and time order agree; the empty text of \<^verbatim>\<open>fmtTime\<close> is the
  zero time). Reads that fail inside the driver return its error and no value; they are modelled
  on the successful path.
\<close>

section \<open>Tables\<close>

record sqliteDB =
  tb_spool :: "memRow list"
  tb_spool_seq :: seq
  tb_checkpoint :: "string \<rightharpoonup> seq"
  tb_source_state :: "string \<times> node_name \<rightharpoonup> memSrcState"
  tb_dead_letter :: "deadLetter list"
  tb_dead_letter_seq :: int
  tb_job_run :: "jobRun list"

definition emptyDB :: sqliteDB where
  "emptyDB = \<lparr>tb_spool = [], tb_spool_seq = 0, tb_checkpoint = Map.empty, tb_source_state = Map.empty,
     tb_dead_letter = [], tb_dead_letter_seq = 0, tb_job_run = []\<rparr>"

definition stored_msg :: "message \<Rightarrow> message" where
  "stored_msg m = m\<lparr>msg_Decoded := ANil, msg_Out := [], msg_Key := []\<rparr>"

section \<open>Reads\<close>

definition sql_page :: "string \<Rightarrow> seq \<Rightarrow> int \<Rightarrow> sqliteDB \<Rightarrow> memRow list" where
  "sql_page pipeline afterSeq limit db =
     take (nat limit)
       (sort_key row_seq (filter (\<lambda>r. row_pipeline r = pipeline \<and> row_seq r > afterSeq) (tb_spool db)))"

definition sql_ReplayPage ::
    "string \<Rightarrow> seq \<Rightarrow> int \<Rightarrow> 's replay_fn \<Rightarrow> sqliteDB \<Rightarrow> 's \<Rightarrow> 's \<times> seq \<times> bool \<times> go_error option" where
  "sql_ReplayPage pipeline afterSeq limit fn db c =
     (let limit = (if limit \<le> 0 then 500 else limit);
          collected = sql_page pipeline afterSeq limit db
      in case visit_rows fn collected afterSeq c of
           (c', lst, Some err) \<Rightarrow> (c', lst, False, Some err)
         | (c', lst, None) \<Rightarrow> (c', lst, int (length collected) = limit, None))"

lemma visit_rows_last:
  assumes "visit_rows fn rows a c = (c', lst, None)" and "rows \<noteq> []"
  shows "lst = row_seq (List.last rows)"
  using assms by (induction rows arbitrary: a c) (auto split: prod.splits option.splits if_splits)

text \<open>\<^verbatim>\<open>ReplayFrom\<close> loops over full pages; every full page passes at least one more row.\<close>

function sql_ReplayFrom ::
    "string \<Rightarrow> seq \<Rightarrow> 's replay_fn \<Rightarrow> sqliteDB \<Rightarrow> 's \<Rightarrow> 's \<times> go_error option" where
  "sql_ReplayFrom pipeline afterSeq fn db c =
     (case sql_ReplayPage pipeline afterSeq 500 fn db c of
        (c', lst, full, Some err) \<Rightarrow> (c', Some err)
      | (c', lst, full, None) \<Rightarrow>
          if \<not> full then (c', None) else sql_ReplayFrom pipeline lst fn db c')"
  by pat_completeness auto
termination
proof (relation "measure (\<lambda>(p, a, fn, db, c).
    length (filter (\<lambda>r. row_pipeline r = p \<and> a < row_seq r) (tb_spool db)))", goal_cases)
  case 1
  show ?case by simp
next
  case (2 p a fn db c c' y lst y' full e)
  let ?rows = "sql_page p a 500 db"
  have res: "visit_rows fn ?rows a c = (c', lst, None)" and len: "length ?rows = 500"
    using 2(1-5) by (auto simp: sql_ReplayPage_def Let_def split: prod.splits option.splits)
  then have "?rows \<noteq> []" by auto
  from visit_rows_last [OF res this] last_in_set [OF this]
  obtain r where r: "r \<in> set ?rows" "lst = row_seq r" by blast
  then have "r \<in> set (tb_spool db)" "row_pipeline r = p" "a < row_seq r"
    unfolding sql_page_def by (auto dest: in_set_takeD)
  then have "{x \<in> set [0..<length (tb_spool db)]. row_pipeline (tb_spool db ! x) = p \<and> lst < row_seq (tb_spool db ! x)}
     \<subset> {x \<in> set [0..<length (tb_spool db)]. row_pipeline (tb_spool db ! x) = p \<and> a < row_seq (tb_spool db ! x)}"
    using r(2) by (fastforce simp: in_set_conv_nth)
  from psubset_card_mono [OF _ this] show ?case by (simp add: length_filter_conv_card)
qed

declare sql_ReplayFrom.simps [simp del]

definition sql_Checkpoint :: "string \<Rightarrow> sqliteDB \<Rightarrow> seq" where
  "sql_Checkpoint pipeline db = (case tb_checkpoint db pipeline of None \<Rightarrow> 0 | Some q \<Rightarrow> q)"

definition sql_SourceState :: "string \<Rightarrow> node_name \<Rightarrow> sqliteDB \<Rightarrow> bytes \<times> seq" where
  "sql_SourceState pipeline source db =
     (case tb_source_state db (pipeline, source) of
        None \<Rightarrow> ('''', 0) | Some st \<Rightarrow> (ss_state st, ss_srcSeq st))"

definition scanDeadLetters :: "(deadLetter \<Rightarrow> bool) \<Rightarrow> sqliteDB \<Rightarrow> deadLetter list" where
  "scanDeadLetters cond db = rev (sort_key dl_ID (filter cond (tb_dead_letter db)))"

definition sql_DeadLetters :: "string \<Rightarrow> sqliteDB \<Rightarrow> deadLetter list" where
  "sql_DeadLetters pipeline db = scanDeadLetters (\<lambda>d. dl_Pipeline d = pipeline) db"

definition sql_DeadLettersSince :: "string \<Rightarrow> gotime \<Rightarrow> sqliteDB \<Rightarrow> deadLetter list" where
  "sql_DeadLettersSince pipeline since db =
     (if since = 0 then sql_DeadLetters pipeline db
      else scanDeadLetters (\<lambda>d. dl_Pipeline d = pipeline \<and> dl_CreatedAt d \<ge> since) db)"

definition sql_DeadLettersForRun :: "string \<Rightarrow> string \<Rightarrow> sqliteDB \<Rightarrow> deadLetter list" where
  "sql_DeadLettersForRun pipeline runID db =
     scanDeadLetters (\<lambda>d. dl_Pipeline d = pipeline \<and> dl_RunID d = runID) db"

definition sql_GetJobRun :: "string \<Rightarrow> string \<Rightarrow> sqliteDB \<Rightarrow> go_error + jobRun" where
  "sql_GetJobRun pipeline runID db =
     (case find (\<lambda>jr. jr_Pipeline jr = pipeline \<and> jr_RunID jr = runID) (tb_job_run db) of
        None \<Rightarrow> Inl (not_found runID) | Some jr \<Rightarrow> Inr jr)"

definition sql_JobRuns :: "string \<Rightarrow> int \<Rightarrow> sqliteDB \<Rightarrow> jobRun list" where
  "sql_JobRuns pipeline limit db =
     (let limit = (if limit \<le> 0 then 100 else limit)
      in take (nat limit)
           (sort_slice run_before (filter (\<lambda>jr. jr_Pipeline jr = pipeline) (tb_job_run db))))"

definition sql_RunnableJobRuns :: "string \<Rightarrow> sqliteDB \<Rightarrow> jobRun list" where
  "sql_RunnableJobRuns pipeline db =
     sort_slice (\<lambda>a b. jr_StartedAt a < jr_StartedAt b)
       (filter (\<lambda>jr. jr_Pipeline jr = pipeline \<and> jr_Status jr \<in> {''pending'', ''running''}) (tb_job_run db))"

definition sql_HasSuccessfulRunFor :: "string \<Rightarrow> string \<Rightarrow> sqliteDB \<Rightarrow> bool" where
  "sql_HasSuccessfulRunFor pipeline scheduledFor db \<longleftrightarrow>
     (\<exists>jr\<in>set (tb_job_run db). jr_Pipeline jr = pipeline \<and> jr_ScheduledFor jr = scheduledFor
        \<and> jr_Status jr = ''success'')"

definition sql_LastScheduledFor :: "string \<Rightarrow> sqliteDB \<Rightarrow> string" where
  "sql_LastScheduledFor pipeline db =
     (let ticks = map jr_ScheduledFor
                    (filter (\<lambda>jr. jr_Pipeline jr = pipeline \<and> jr_ScheduledFor jr \<noteq> '''') (tb_job_run db))
      in if ticks = [] then '''' else Max (set ticks))"

section \<open>Statements of the writer's transactions\<close>

definition insertSpool :: "(string \<times> message \<times> gotime) list \<Rightarrow> sqliteDB \<Rightarrow> sqliteDB \<times> seq" where
  "insertSpool rows db =
     (let base = tb_spool_seq db;
          new = map (\<lambda>(i, (p, m, t)). \<lparr>row_seq = base + 1 + int i, row_pipeline = p,
                       row_msg = stored_msg m, row_ingestTime = t\<rparr>) (enumerate 0 rows)
      in (db\<lparr>tb_spool := tb_spool db @ new, tb_spool_seq := base + int (length rows)\<rparr>,
          base + int (length rows)))"

definition upsertCheckpoint :: "string \<Rightarrow> seq \<Rightarrow> sqliteDB \<Rightarrow> sqliteDB" where
  "upsertCheckpoint pipeline q db = db\<lparr>tb_checkpoint := (tb_checkpoint db)(pipeline \<mapsto> q)\<rparr>"

definition upsertSourceState :: "string \<Rightarrow> node_name \<Rightarrow> bytes \<Rightarrow> seq \<Rightarrow> sqliteDB \<Rightarrow> sqliteDB" where
  "upsertSourceState pipeline source st srcSeq db =
     db\<lparr>tb_source_state := (tb_source_state db)((pipeline, source) \<mapsto> \<lparr>ss_state = st, ss_srcSeq = srcSeq\<rparr>)\<rparr>"

definition deleteSpoolThrough :: "string \<Rightarrow> seq \<Rightarrow> sqliteDB \<Rightarrow> sqliteDB \<times> int" where
  "deleteSpoolThrough pipeline through db =
     (let sel = (\<lambda>r. row_pipeline r = pipeline \<and> row_seq r \<le> through)
      in (db\<lparr>tb_spool := filter (\<lambda>r. \<not> sel r) (tb_spool db)\<rparr>,
          int (length (filter sel (tb_spool db)))))"

definition insertDeadLetter :: "deadLetter \<Rightarrow> sqliteDB \<Rightarrow> sqliteDB" where
  "insertDeadLetter dl db =
     (let i = tb_dead_letter_seq db + 1
      in db\<lparr>tb_dead_letter_seq := i, tb_dead_letter := tb_dead_letter db @ [dl\<lparr>dl_ID := i\<rparr>]\<rparr>)"

definition deleteDL :: "(deadLetter \<Rightarrow> bool) \<Rightarrow> sqliteDB \<Rightarrow> sqliteDB \<times> int" where
  "deleteDL sel db =
     (db\<lparr>tb_dead_letter := filter (\<lambda>d. \<not> sel d) (tb_dead_letter db)\<rparr>,
      int (length (filter sel (tb_dead_letter db))))"

definition deleteDeadLetters :: "string \<Rightarrow> int list \<Rightarrow> sqliteDB \<Rightarrow> sqliteDB \<times> int" where
  "deleteDeadLetters pipeline ids db =
     deleteDL (\<lambda>d. dl_Pipeline d = pipeline \<and> dl_ID d \<in> set ids) db"

definition dlqRetentionBatch :: nat where
  "dlqRetentionBatch = 10000"

text \<open>One bounded \<^verbatim>\<open>DELETE\<close>: the ids of at most \<^verbatim>\<open>dlqRetentionBatch\<close> expired rows.\<close>

definition dlq_victims :: "string \<Rightarrow> gotime \<Rightarrow> sqliteDB \<Rightarrow> int list" where
  "dlq_victims pipeline cutoff db =
     map dl_ID (take dlqRetentionBatch
       (filter (\<lambda>d. dl_Pipeline d = pipeline \<and> dl_CreatedAt d < cutoff) (tb_dead_letter db)))"

function dlq_sweep_loop :: "string \<Rightarrow> gotime \<Rightarrow> sqliteDB \<Rightarrow> int \<Rightarrow> sqliteDB \<times> int" where
  "dlq_sweep_loop pipeline cutoff db tot =
     (case deleteDL (\<lambda>d. dl_Pipeline d = pipeline \<and> dl_ID d \<in> set (dlq_victims pipeline cutoff db)) db of
        (db', n) \<Rightarrow> if n < int dlqRetentionBatch then (db', tot + n)
                    else dlq_sweep_loop pipeline cutoff db' (tot + n))"
  by pat_completeness auto
termination
proof (relation "measure (\<lambda>(p, c, db, t). length (tb_dead_letter db))", goal_cases)
  case 1
  show ?case by simp
next
  case (2 p cutoff db tot db' n)
  let ?sel = "\<lambda>d. dl_Pipeline d = p \<and> dl_ID d \<in> set (dlq_victims p cutoff db)"
  have "0 < length (filter ?sel (tb_dead_letter db))"
    using 2 by (auto simp: deleteDL_def dlqRetentionBatch_def)
  then have "length (filter (\<lambda>d. \<not> ?sel d) (tb_dead_letter db)) < length (tb_dead_letter db)"
    using sum_length_filter_compl [of ?sel "tb_dead_letter db"] by linarith
  then show ?case using 2 by (auto simp: deleteDL_def)
qed

declare dlq_sweep_loop.simps [simp del]

definition deleteDeadLettersBefore :: "string \<Rightarrow> gotime \<Rightarrow> sqliteDB \<Rightarrow> sqliteDB \<times> int" where
  "deleteDeadLettersBefore pipeline cutoff db = dlq_sweep_loop pipeline cutoff db 0"

definition deleteJobRunsBefore :: "string \<Rightarrow> gotime \<Rightarrow> sqliteDB \<Rightarrow> sqliteDB \<times> int" where
  "deleteJobRunsBefore pipeline cutoff db =
     (let sel = (\<lambda>jr. jr_Pipeline jr = pipeline \<and> jr_EndedAt jr \<noteq> 0 \<and> jr_EndedAt jr < cutoff
                     \<and> jr_Status jr \<notin> {''pending'', ''running''})
      in (db\<lparr>tb_job_run := filter (\<lambda>jr. \<not> sel jr) (tb_job_run db)\<rparr>,
          int (length (filter sel (tb_job_run db)))))"

definition unique_error :: "string \<Rightarrow> go_error" where
  "unique_error runID = ''job run '' @ runID @ '': UNIQUE constraint failed: job_run.run_id''"

definition upsertJobRun :: "gotime \<Rightarrow> jobRun \<Rightarrow> bool \<Rightarrow> sqliteDB \<Rightarrow> go_error + sqliteDB" where
  "upsertJobRun now jr ins db =
     (if ins
      then if \<exists>e\<in>set (tb_job_run db). jr_RunID e = jr_RunID jr then Inl (unique_error (jr_RunID jr))
           else Inr (db\<lparr>tb_job_run := tb_job_run db @ [jr\<lparr>jr_UpdatedAt := now\<rparr>]\<rparr>)
      else let hit = (\<lambda>e. jr_RunID e = jr_RunID jr \<and> jr_Pipeline e = jr_Pipeline jr)
           in if \<exists>e\<in>set (tb_job_run db). hit e
              then Inr (db\<lparr>tb_job_run := map (\<lambda>e. if hit e then jr\<lparr>jr_UpdatedAt := now\<rparr> else e) (tb_job_run db)\<rparr>)
              else Inl (not_found (jr_RunID jr)))"

section \<open>Well-formed databases\<close>

definition db_inv :: "sqliteDB \<Rightarrow> bool" where
  "db_inv db \<longleftrightarrow>
     sorted_wrt (<) (map row_seq (tb_spool db)) \<and>
     (\<forall>r\<in>set (tb_spool db). 1 \<le> row_seq r \<and> row_seq r \<le> tb_spool_seq db) \<and> 0 \<le> tb_spool_seq db \<and>
     sorted_wrt (<) (map dl_ID (tb_dead_letter db)) \<and>
     (\<forall>d\<in>set (tb_dead_letter db). dl_ID d \<le> tb_dead_letter_seq db) \<and>
     distinct (map jr_RunID (tb_job_run db))"

lemma sorted_wrt_less_sort_key:
  fixes f :: "'a \<Rightarrow> int"
  assumes "sorted_wrt (<) (map f xs)"
  shows "sort_key f xs = xs"
  using assms by (intro sort_key_id_if_sorted strict_sorted_imp_sorted)

definition sql_rows_after :: "string \<Rightarrow> seq \<Rightarrow> sqliteDB \<Rightarrow> memRow list" where
  "sql_rows_after p a db = filter (\<lambda>r. row_pipeline r = p \<and> a < row_seq r) (tb_spool db)"

lemma sql_page_rows:
  assumes "db_inv db"
  shows "sql_page p a limit db = take (nat limit) (sql_rows_after p a db)"
proof -
  have "sorted_wrt (<) (map row_seq (sql_rows_after p a db))"
    using assms by (simp add: db_inv_def sql_rows_after_def)
  then show ?thesis by (simp add: sql_page_def sql_rows_after_def sorted_wrt_less_sort_key)
qed

lemma visit_rows_append:
  "visit_rows fn (xs @ ys) a c =
     (case visit_rows fn xs a c of
        (c', l, Some e) \<Rightarrow> (c', l, Some e) | (c', l, None) \<Rightarrow> visit_rows fn ys l c')"
  by (induction xs arbitrary: a c) (auto split: prod.splits option.splits)

text \<open>After a full page, the rows above its last sequence are the rest of the rows.\<close>

lemma rows_after_page:
  assumes "db_inv db" and "n < length (sql_rows_after p a db)"
  shows "sql_rows_after p (row_seq (sql_rows_after p a db ! n)) db = drop (Suc n) (sql_rows_after p a db)"
proof -
  let ?rs = "sql_rows_after p a db"
  let ?x = "row_seq (?rs ! n)"
  have sorted: "sorted_wrt (<) (map row_seq ?rs)"
    using assms by (simp add: db_inv_def sql_rows_after_def)
  have "a < ?x" using nth_mem [OF assms(2)] by (simp add: sql_rows_after_def)
  then have "sql_rows_after p ?x db = filter (\<lambda>r. ?x < row_seq r) ?rs"
    by (auto simp: sql_rows_after_def intro: filter_cong)
  also have "\<dots> = filter (\<lambda>r. ?x < row_seq r) (take (Suc n) ?rs @ drop (Suc n) ?rs)" by simp
  also have "\<dots> = drop (Suc n) ?rs"
  proof -
    have "\<forall>r\<in>set (take (Suc n) ?rs). \<not> ?x < row_seq r"
    proof
      fix r
      assume "r \<in> set (take (Suc n) ?rs)"
      then obtain i where "i \<le> n" "r = ?rs ! i" using assms(2) by (auto simp: in_set_conv_nth less_Suc_eq_le)
      then show "\<not> ?x < row_seq r"
        using sorted_wrt_nth_less [OF sorted, of i n] assms(2) by (cases "i = n") auto
    qed
    moreover have "\<forall>r\<in>set (drop (Suc n) ?rs). ?x < row_seq r"
    proof
      fix r
      assume "r \<in> set (drop (Suc n) ?rs)"
      then obtain i where "n < i" "i < length ?rs" "r = ?rs ! i"
        by (auto simp: in_set_conv_nth) (metis add_Suc less_add_Suc1 less_diff_conv add.commute)
      then show "?x < row_seq r" using sorted_wrt_nth_less [OF sorted, of n i] assms(2) by auto
    qed
    ultimately show ?thesis by (simp only: filter_append filter_False filter_True append_Nil)
  qed
  finally show ?thesis .
qed

lemma sql_ReplayFrom_visits:
  assumes "db_inv db"
  shows "sql_ReplayFrom p a fn db c =
    (case visit_rows fn (sql_rows_after p a db) a c of (c', _, err) \<Rightarrow> (c', err))"
  using assms
proof (induction p a fn db c rule: sql_ReplayFrom.induct)
  case (1 p a fn db c)
  let ?rs = "sql_rows_after p a db"
  obtain c' l e where v: "visit_rows fn (take 500 ?rs) a c = (c', l, e)" by (rule prod_cases3)
  have page: "sql_ReplayPage p a 500 fn db c
      = (c', l, e = None \<and> length (take 500 ?rs) = 500, e)"
    using v by (simp add: sql_ReplayPage_def Let_def sql_page_rows [OF "1.prems"(1)] split: option.split)
  show ?case
  proof (cases "e = None \<and> 500 \<le> length ?rs")
    case False
    then show ?thesis
      using v page visit_rows_append [of fn "take 500 ?rs" "drop 500 ?rs" a c]
      by (subst sql_ReplayFrom.simps) (auto split: option.split)
  next
    case True
    then have "?rs \<noteq> []" by auto
    with True have "l = row_seq (?rs ! 499)"
      using visit_rows_last [of fn "take 500 ?rs" a c c' l] v by (auto simp: last_conv_nth)
    then have rest: "sql_rows_after p l db = drop 500 ?rs"
      using rows_after_page [OF "1.prems"(1), of 499 p a] True by simp
    have "sql_ReplayFrom p a fn db c = sql_ReplayFrom p l fn db c'"
      using page True by (subst sql_ReplayFrom.simps) simp
    also have "\<dots> = (case visit_rows fn (drop 500 ?rs) l c' of (c', _, err) \<Rightarrow> (c', err))"
      using "1.IH" page True "1.prems" by (simp add: rest)
    finally show ?thesis
      using v True visit_rows_append [of fn "take 500 ?rs" "drop 500 ?rs" a c] by simp
  qed
qed

section \<open>The batched dead-letter sweep\<close>

lemma dlq_victims_sel:
  assumes "db_inv db" and "d \<in> set (tb_dead_letter db)"
  shows "dl_ID d \<in> set (dlq_victims p cutoff db) \<longleftrightarrow>
    d \<in> set (take dlqRetentionBatch
       (filter (\<lambda>d. dl_Pipeline d = p \<and> dl_CreatedAt d < cutoff) (tb_dead_letter db)))"
proof -
  have "distinct (map dl_ID (tb_dead_letter db))"
    using assms(1) by (auto simp: db_inv_def strict_sorted_iff)
  then have "d' = d" if "d' \<in> set (tb_dead_letter db)" "dl_ID d' = dl_ID d" for d'
    using that assms(2) by (auto dest: distinct_map [THEN iffD1] inj_onD)
  then have "d \<in> set (take n (filter P (tb_dead_letter db)))"
    if "d' \<in> set (take n (filter P (tb_dead_letter db)))" "dl_ID d = dl_ID d'" for d' n P
    using that by (metis filter_is_subset in_set_takeD subsetD)
  then show ?thesis unfolding dlq_victims_def by auto
qed

lemma filter_take_filter:
  assumes "distinct xs"
  shows "filter (\<lambda>x. x \<in> set (take n (filter P xs))) xs = take n (filter P xs)"
  using assms
proof (induction xs arbitrary: n)
  case (Cons x xs)
  show ?case
  proof (cases "P x \<and> 0 < n")
    case True
    then obtain k where k: "n = Suc k" by (cases n) auto
    have "filter (\<lambda>y. y = x \<or> y \<in> set (take k (filter P xs))) xs = filter (\<lambda>y. y \<in> set (take k (filter P xs))) xs"
      using Cons.prems by (intro filter_cong) auto
    with True k Cons show ?thesis by simp
  next
    case False
    then show ?thesis using Cons by (auto dest: in_set_takeD)
  qed
qed simp

definition expired :: "string \<Rightarrow> gotime \<Rightarrow> deadLetter \<Rightarrow> bool" where
  "expired p cutoff d \<longleftrightarrow> dl_Pipeline d = p \<and> dl_CreatedAt d < cutoff"

lemma dlq_batch:
  fixes p :: string and cutoff :: gotime and db :: sqliteDB
  assumes "db_inv db"
  defines "sel \<equiv> \<lambda>d. dl_Pipeline d = p \<and> dl_ID d \<in> set (dlq_victims p cutoff db)"
  defines "ex \<equiv> filter (expired p cutoff) (tb_dead_letter db)"
  shows "filter sel (tb_dead_letter db) = take dlqRetentionBatch ex"
    and "filter (expired p cutoff) (filter (\<lambda>d. \<not> sel d) (tb_dead_letter db)) = drop dlqRetentionBatch ex"
    and "filter (\<lambda>d. \<not> expired p cutoff d) (filter (\<lambda>d. \<not> sel d) (tb_dead_letter db))
      = filter (\<lambda>d. \<not> expired p cutoff d) (tb_dead_letter db)"
proof -
  have dist: "distinct (tb_dead_letter db)"
    using assms(1) by (auto simp: db_inv_def strict_sorted_iff distinct_map)
  have ex: "ex = filter (\<lambda>d. dl_Pipeline d = p \<and> dl_CreatedAt d < cutoff) (tb_dead_letter db)"
    by (simp add: ex_def expired_def [abs_def])
  have sel: "sel d \<longleftrightarrow> d \<in> set (take dlqRetentionBatch ex)" if "d \<in> set (tb_dead_letter db)" for d
  proof -
    have "dl_Pipeline d = p" if "d \<in> set (take dlqRetentionBatch ex)"
      using that by (auto simp: ex dest: in_set_takeD)
    then show ?thesis using dlq_victims_sel [OF assms(1) that, of p cutoff] by (auto simp: sel_def ex)
  qed
  show 1: "filter sel (tb_dead_letter db) = take dlqRetentionBatch ex"
    using filter_take_filter [OF dist, of dlqRetentionBatch "expired p cutoff"]
    by (simp add: ex_def sel [unfolded ex_def] cong: filter_cong)
  have "filter (\<lambda>d. \<not> sel d) ex = filter (\<lambda>d. d \<notin> set (take dlqRetentionBatch ex)) ex"
    using sel by (intro filter_cong) (auto simp: ex_def)
  also have "\<dots> = drop dlqRetentionBatch ex"
  proof -
    have d: "distinct (take dlqRetentionBatch ex @ drop dlqRetentionBatch ex)" using dist by (simp add: ex_def)
    have "filter (\<lambda>d. d \<notin> set (take dlqRetentionBatch ex)) (take dlqRetentionBatch ex @ drop dlqRetentionBatch ex)
      = drop dlqRetentionBatch ex"
      using d unfolding distinct_append filter_append by (subst filter_False) (auto intro!: filter_True)
    then show ?thesis by simp
  qed
  finally show "filter (expired p cutoff) (filter (\<lambda>d. \<not> sel d) (tb_dead_letter db)) = drop dlqRetentionBatch ex"
    by (simp add: ex_def conj_commute)
  show "filter (\<lambda>d. \<not> expired p cutoff d) (filter (\<lambda>d. \<not> sel d) (tb_dead_letter db))
      = filter (\<lambda>d. \<not> expired p cutoff d) (tb_dead_letter db)"
  proof -
    have "expired p cutoff d" if "d \<in> set (take dlqRetentionBatch ex)" for d
      using in_set_takeD [OF that] by (simp add: ex_def)
    with sel show ?thesis by (auto intro!: filter_cong)
  qed
qed

lemma dlq_sweep_loop_once:
  assumes "db_inv db"
  shows "dlq_sweep_loop p cutoff db tot =
    (db\<lparr>tb_dead_letter := filter (\<lambda>d. \<not> expired p cutoff d) (tb_dead_letter db)\<rparr>,
     tot + int (length (filter (expired p cutoff) (tb_dead_letter db))))"
  using assms
proof (induction p cutoff db tot rule: dlq_sweep_loop.induct)
  case (1 p cutoff db tot)
  let ?sel = "\<lambda>d. dl_Pipeline d = p \<and> dl_ID d \<in> set (dlq_victims p cutoff db)"
  let ?ex = "filter (expired p cutoff) (tb_dead_letter db)"
  let ?db = "db\<lparr>tb_dead_letter := filter (\<lambda>d. \<not> ?sel d) (tb_dead_letter db)\<rparr>"
  note b = dlq_batch [OF "1.prems", of p cutoff]
  have del: "deleteDL ?sel db = (?db, int (length (take dlqRetentionBatch ?ex)))"
    by (simp only: deleteDL_def b(1))
  show ?case
  proof (cases "length ?ex < dlqRetentionBatch")
    case True
    have "filter (\<lambda>d. \<not> ?sel d) (tb_dead_letter db) = filter (\<lambda>d. \<not> expired p cutoff d) (tb_dead_letter db)"
      using b(2,3) True by (metis (no_types, lifting) drop_all filter_True filter_empty_conv less_imp_le_nat)
    with True show ?thesis by (subst dlq_sweep_loop.simps) (simp only: del, simp)
  next
    case False
    have inv: "db_inv ?db" using "1.prems" by (auto simp: db_inv_def)
    have "dlq_sweep_loop p cutoff db tot = dlq_sweep_loop p cutoff ?db (tot + int dlqRetentionBatch)"
      using False by (subst dlq_sweep_loop.simps) (simp only: del, simp)
    also have "\<dots> = (?db\<lparr>tb_dead_letter := filter (\<lambda>d. \<not> expired p cutoff d) (tb_dead_letter ?db)\<rparr>,
        tot + int dlqRetentionBatch + int (length (filter (expired p cutoff) (tb_dead_letter ?db))))"
      using "1.IH" [OF del [symmetric], of] inv False by simp
    finally show ?thesis using b(2,3) False by simp
  qed
qed

section \<open>Properties\<close>



text \<open>
  C27. The batched dead-letter retention sweep deletes what one unbounded delete would: after the
  loop of bounded deletes no expired dead letter of the pipeline is left, every other row is
  untouched, and the reported total is the number of rows removed.
\<close>

theorem deleteDeadLettersBefore_exact:
  assumes "db_inv db"
  shows "deleteDeadLettersBefore p cutoff db =
    (db\<lparr>tb_dead_letter := filter (\<lambda>d. \<not> (dl_Pipeline d = p \<and> dl_CreatedAt d < cutoff)) (tb_dead_letter db)\<rparr>,
     int (length (filter (\<lambda>d. dl_Pipeline d = p \<and> dl_CreatedAt d < cutoff) (tb_dead_letter db))))"
  using dlq_sweep_loop_once [OF assms, of p cutoff 0]
  by (simp add: deleteDeadLettersBefore_def expired_def [abs_def])

text \<open>Of two dead letters, the one created before the cutoff is removed.\<close>

theorem deleteDeadLettersBefore_exact_witness:
  "snd (deleteDeadLettersBefore ''p'' 7
     (insertDeadLetter (zero_deadLetter\<lparr>dl_Pipeline := ''p'', dl_CreatedAt := 9\<rparr>)
       (insertDeadLetter (zero_deadLetter\<lparr>dl_Pipeline := ''p'', dl_CreatedAt := 3\<rparr>) emptyDB))) = 1"
proof -
  let ?db = "insertDeadLetter (zero_deadLetter\<lparr>dl_Pipeline := ''p'', dl_CreatedAt := 9\<rparr>)
       (insertDeadLetter (zero_deadLetter\<lparr>dl_Pipeline := ''p'', dl_CreatedAt := 3\<rparr>) emptyDB)"
  have "db_inv ?db" by (simp add: db_inv_def emptyDB_def insertDeadLetter_def Let_def)
  from deleteDeadLettersBefore_exact [OF this, of "''p''" 7] show ?thesis
    by (simp add: emptyDB_def insertDeadLetter_def Let_def)
qed

end
