(* ===== verification/Writer.thy ===== *)
theory Writer
  imports Sqlite
begin

text \<open>
  The group-commit writer of the SQLite store (\<^verbatim>\<open>src/internal/store/writer.go\<close>): the queue, the
  companion collection, the batch plan with its coalesced checkpoints and source states, and the
  transactions. One goroutine owns the connection; the other goroutines only enqueue and wait, and
  \<^verbatim>\<open>Close\<close> may run at any moment. The interleavings are sequences of events: a request enqueued, the
  queue drained, one probe for companions, the plan made, one transaction run, the shutdown. What
  the SQL driver does with a statement is an argument (\<open>drv\<close>): an error for a statement, or none.
  A request is identified by the order of its allocation; a resolved request is an entry of
  \<open>w_results\<close>, a list, so that a second resolution would show (it panics in Go).
\<close>

section \<open>Options and requests\<close>

definition ErrClosed :: go_error where
  "ErrClosed = ''store: closed''"

record writeOptions =
  MaxRows :: int
  MaxWait :: duration
  hasOnBatch :: bool

definition defaultWriteBatchRows :: int where "defaultWriteBatchRows = 256"
definition defaultWriteBatchWait :: duration where "defaultWriteBatchWait = 2000000"
definition maxWriteBatchRows :: int where "maxWriteBatchRows = 2000"

definition DefaultWriteOptions :: writeOptions where
  "DefaultWriteOptions = \<lparr>MaxRows = defaultWriteBatchRows, MaxWait = defaultWriteBatchWait, hasOnBatch = False\<rparr>"

definition normalized :: "writeOptions \<Rightarrow> writeOptions" where
  "normalized opts =
     (let o1 = (if MaxRows opts \<le> 0 then opts\<lparr>MaxRows := defaultWriteBatchRows\<rparr> else opts);
          o2 = (if MaxRows o1 > maxWriteBatchRows then o1\<lparr>MaxRows := maxWriteBatchRows\<rparr> else o1)
      in if MaxWait o2 < 0 then o2\<lparr>MaxWait := 0\<rparr> else o2)"

definition wo_isZero :: "writeOptions \<Rightarrow> bool" where
  "wo_isZero opts \<longleftrightarrow> MaxRows opts = 0 \<and> MaxWait opts = 0 \<and> \<not> hasOnBatch opts"

datatype write_op =
    WAppend string message gotime
  | WCheckpoint string seq
  | WSourceState string node_name bytes seq
  | WDeadLetter deadLetter
  | WDeleteSpoolThrough string seq
  | WDeleteDeadLetters string "int list"
  | WDeleteDeadLettersBefore string gotime
  | WDeleteJobRunsBefore string gotime
  | WCreateJobRun jobRun
  | WUpdateJobRun jobRun

record writeReq =
  rq_id :: nat
  rq_op :: write_op

datatype outcome = Failed go_error | Done int

section \<open>The batch plan\<close>

record checkpointWrite =
  cw_pipeline :: string
  cw_seq :: seq
  cw_waiters :: "writeReq list"

record sourceStateWrite =
  sw_pipeline :: string
  sw_source :: node_name
  sw_state :: bytes
  sw_srcSeq :: seq
  sw_waiters :: "writeReq list"

record writeStatements =
  st_checkpoints :: "checkpointWrite list"
  st_sourceStates :: "sourceStateWrite list"
  st_rest :: "writeReq list"

record writePlan =
  wp_appends :: "writeReq list list"
  wp_stmts :: writeStatements

text \<open>The entry an index map names is the first one with its key; a new key appends an entry.\<close>

fun coalesce_cp :: "string \<Rightarrow> seq \<Rightarrow> writeReq \<Rightarrow> checkpointWrite list \<Rightarrow> checkpointWrite list" where
  "coalesce_cp p q r [] = [\<lparr>cw_pipeline = p, cw_seq = q, cw_waiters = [r]\<rparr>]"
| "coalesce_cp p q r (e # es) =
     (if cw_pipeline e = p
      then e\<lparr>cw_seq := (if q > cw_seq e then q else cw_seq e), cw_waiters := cw_waiters e @ [r]\<rparr> # es
      else e # coalesce_cp p q r es)"

definition ss_merge :: "bytes \<Rightarrow> seq \<Rightarrow> writeReq \<Rightarrow> sourceStateWrite \<Rightarrow> sourceStateWrite" where
  "ss_merge st q r e =
     (if q \<ge> sw_srcSeq e then e\<lparr>sw_state := st, sw_srcSeq := q, sw_waiters := sw_waiters e @ [r]\<rparr>
      else e\<lparr>sw_waiters := sw_waiters e @ [r]\<rparr>)"

fun coalesce_ss ::
    "string \<Rightarrow> node_name \<Rightarrow> bytes \<Rightarrow> seq \<Rightarrow> writeReq \<Rightarrow> sourceStateWrite list \<Rightarrow> sourceStateWrite list" where
  "coalesce_ss p n st q r [] =
     [\<lparr>sw_pipeline = p, sw_source = n, sw_state = st, sw_srcSeq = q, sw_waiters = [r]\<rparr>]"
| "coalesce_ss p n st q r (e # es) =
     (if sourceKey (sw_pipeline e) (sw_source e) = sourceKey p n
      then ss_merge st q r e # es
      else e # coalesce_ss p n st q r es)"

text \<open>The loop's variables: the full chunks, the open chunk and the statements.\<close>

type_synonym plan_acc = "writeReq list list \<times> writeReq list \<times> writeStatements"

fun plan_request :: "int \<Rightarrow> plan_acc \<Rightarrow> writeReq \<Rightarrow> plan_acc" where
  "plan_request maxRows (appends, chunk, st) r =
     (case rq_op r of
        WAppend _ _ _ \<Rightarrow>
          let chunk = chunk @ [r]
          in if int (length chunk) = maxRows then (appends @ [chunk], [], st) else (appends, chunk, st)
      | WCheckpoint p q \<Rightarrow>
          (appends, chunk, st\<lparr>st_checkpoints := coalesce_cp p q r (st_checkpoints st)\<rparr>)
      | WSourceState p n s q \<Rightarrow>
          (appends, chunk, st\<lparr>st_sourceStates := coalesce_ss p n s q r (st_sourceStates st)\<rparr>)
      | _ \<Rightarrow> (appends, chunk, st\<lparr>st_rest := st_rest st @ [r]\<rparr>))"

definition planWriteBatch :: "writeReq list \<Rightarrow> int \<Rightarrow> writePlan" where
  "planWriteBatch batch maxRows =
     (case foldl (plan_request maxRows)
             ([], [], \<lparr>st_checkpoints = [], st_sourceStates = [], st_rest = []\<rparr>) batch of
        (appends, chunk, st) \<Rightarrow>
          \<lparr>wp_appends = (if chunk \<noteq> [] then appends @ [chunk] else appends), wp_stmts = st\<rparr>)"

section \<open>Transactions\<close>

text \<open>The statements a transaction runs, as the driver sees them.\<close>

datatype stmt = SBegin | SInsertSpool | SCheckpoint string | SSource string node_name | SRest nat | SCommit

type_synonym driver = "stmt \<Rightarrow> go_error option"

type_synonym marks = "string \<rightharpoonup> seq"

definition mark_of :: "marks \<Rightarrow> string \<Rightarrow> seq" where
  "mark_of m k = (case m k of None \<Rightarrow> 0 | Some v \<Rightarrow> v)"

fun spool_row_of :: "writeReq \<Rightarrow> string \<times> message \<times> gotime" where
  "spool_row_of r = (case rq_op r of WAppend p m t \<Rightarrow> (p, m, t) | _ \<Rightarrow> ('''', zero_message, 0))"

text \<open>The rows of a chunk get consecutive sequences ending at the last insert id; the result pairs
  each request with its sequence.\<close>

definition insertSpoolRows ::
    "driver \<Rightarrow> writeReq list \<Rightarrow> sqliteDB \<Rightarrow> go_error + sqliteDB \<times> (nat \<times> int) list" where
  "insertSpoolRows drv reqs db =
     (case drv SInsertSpool of
        Some e \<Rightarrow> Inl (''append spool: '' @ e)
      | None \<Rightarrow>
          (case insertSpool (map spool_row_of reqs) db of (db', lastId) \<Rightarrow>
             let base = lastId - int (length reqs) + 1
             in Inr (db', map (\<lambda>(i, r). (rq_id r, base + int i)) (enumerate 0 reqs))))"

definition execWriteRequest ::
    "driver \<Rightarrow> gotime \<Rightarrow> writeReq \<Rightarrow> sqliteDB \<Rightarrow> go_error + sqliteDB \<times> int" where
  "execWriteRequest drv now r db =
     (case drv (SRest (rq_id r)) of
        Some e \<Rightarrow> Inl e
      | None \<Rightarrow>
          (case rq_op r of
             WDeadLetter dl \<Rightarrow> Inr (insertDeadLetter dl db, 0)
           | WDeleteSpoolThrough p q \<Rightarrow> Inr (deleteSpoolThrough p q db)
           | WDeleteDeadLetters p ids \<Rightarrow> Inr (deleteDeadLetters p ids db)
           | WDeleteDeadLettersBefore p t \<Rightarrow> Inr (deleteDeadLettersBefore p t db)
           | WDeleteJobRunsBefore p t \<Rightarrow> Inr (deleteJobRunsBefore p t db)
           | WCreateJobRun jr \<Rightarrow> map_sum id (\<lambda>d. (d, 0)) (upsertJobRun now jr True db)
           | WUpdateJobRun jr \<Rightarrow> map_sum id (\<lambda>d. (d, 0)) (upsertJobRun now jr False db)
           | _ \<Rightarrow> Inl ''store: unknown write kind''))"

fun exec_checkpoints :: "driver \<Rightarrow> marks \<Rightarrow> checkpointWrite list \<Rightarrow> sqliteDB \<Rightarrow> go_error + sqliteDB" where
  "exec_checkpoints drv cpSeqs [] db = Inr db"
| "exec_checkpoints drv cpSeqs (cp # cps) db =
     (if cw_seq cp \<le> mark_of cpSeqs (cw_pipeline cp) then exec_checkpoints drv cpSeqs cps db
      else case drv (SCheckpoint (cw_pipeline cp)) of
             Some e \<Rightarrow> Inl (''checkpoint: '' @ e)
           | None \<Rightarrow> exec_checkpoints drv cpSeqs cps (upsertCheckpoint (cw_pipeline cp) (cw_seq cp) db))"

fun exec_sourceStates :: "driver \<Rightarrow> marks \<Rightarrow> sourceStateWrite list \<Rightarrow> sqliteDB \<Rightarrow> go_error + sqliteDB" where
  "exec_sourceStates drv srcSeqs [] db = Inr db"
| "exec_sourceStates drv srcSeqs (ss # sss) db =
     (if sw_srcSeq ss \<le> mark_of srcSeqs (sourceKey (sw_pipeline ss) (sw_source ss))
      then exec_sourceStates drv srcSeqs sss db
      else case drv (SSource (sw_pipeline ss) (sw_source ss)) of
             Some e \<Rightarrow> Inl (''source state: '' @ e)
           | None \<Rightarrow> exec_sourceStates drv srcSeqs sss
               (upsertSourceState (sw_pipeline ss) (sw_source ss) (sw_state ss) (sw_srcSeq ss) db))"

fun exec_rest ::
    "driver \<Rightarrow> gotime \<Rightarrow> writeReq list \<Rightarrow> sqliteDB \<Rightarrow> go_error + sqliteDB \<times> (nat \<times> int) list" where
  "exec_rest drv now [] db = Inr (db, [])"
| "exec_rest drv now (r # rs) db =
     (case execWriteRequest drv now r db of
        Inl e \<Rightarrow> Inl e
      | Inr (db', n) \<Rightarrow>
          (case exec_rest drv now rs db' of
             Inl e \<Rightarrow> Inl e | Inr (db'', ns) \<Rightarrow> Inr (db'', (rq_id r, n) # ns)))"

definition execStatements ::
    "driver \<Rightarrow> gotime \<Rightarrow> marks \<Rightarrow> marks \<Rightarrow> writeStatements \<Rightarrow> sqliteDB \<Rightarrow>
     go_error + sqliteDB \<times> (nat \<times> int) list" where
  "execStatements drv now cpSeqs srcSeqs st db =
     (case exec_checkpoints drv cpSeqs (st_checkpoints st) db of
        Inl e \<Rightarrow> Inl e
      | Inr db1 \<Rightarrow>
          (case exec_sourceStates drv srcSeqs (st_sourceStates st) db1 of
             Inl e \<Rightarrow> Inl e
           | Inr db2 \<Rightarrow> exec_rest drv now (st_rest st) db2))"

text \<open>A failing body, a store that began to close, or a failing commit leave the database as it
  was.\<close>

definition withTx ::
    "driver \<Rightarrow> bool \<Rightarrow> (sqliteDB \<Rightarrow> go_error + sqliteDB \<times> 'r) \<Rightarrow> sqliteDB \<Rightarrow> go_error + sqliteDB \<times> 'r" where
  "withTx drv isClosed fn db =
     (case drv SBegin of
        Some e \<Rightarrow> Inl e
      | None \<Rightarrow>
          (case fn db of
             Inl e \<Rightarrow> Inl e
           | Inr res \<Rightarrow>
               if isClosed then Inl ErrClosed
               else (case drv SCommit of Some e \<Rightarrow> Inl e | None \<Rightarrow> Inr res)))"

section \<open>The writer\<close>

record writer =
  w_db :: sqliteDB
  w_opts :: writeOptions
  w_reqs :: "write_op list"
  w_queue :: "writeReq list"
  w_closed :: bool
  w_batch :: "writeReq list"
  w_probes :: int
  w_groups :: "(writeReq list \<times> writeStatements option) list"
  w_cpSeqs :: marks
  w_srcSeqs :: marks
  w_results :: "(nat \<times> outcome) list"

definition newWriter :: "sqliteDB \<Rightarrow> writeOptions \<Rightarrow> writer" where
  "newWriter db opts = \<lparr>w_db = db, w_opts = opts, w_reqs = [], w_queue = [], w_closed = False, w_batch = [],
     w_probes = 0, w_groups = [], w_cpSeqs = Map.empty, w_srcSeqs = Map.empty, w_results = []\<rparr>"

definition resolve_all :: "writeReq list \<Rightarrow> outcome \<Rightarrow> writer \<Rightarrow> writer" where
  "resolve_all rs res w = w\<lparr>w_results := w_results w @ map (\<lambda>r. (rq_id r, res)) rs\<rparr>"

text \<open>\<open>w_reqs\<close> lists the operations of the requests allocated so far; a request's id is its
  position there. \<^verbatim>\<open>do\<close> allocates a request and enqueues it; a closed store refuses it on the spot.\<close>

definition enqueue :: "write_op \<Rightarrow> writer \<Rightarrow> writer" where
  "enqueue x w =
     (let r = \<lparr>rq_id = length (w_reqs w), rq_op = x\<rparr>; w1 = w\<lparr>w_reqs := w_reqs w @ [x]\<rparr>
      in if w_closed w then resolve_all [r] (Failed ErrClosed) w1
         else w1\<lparr>w_queue := w_queue w1 @ [r]\<rparr>)"

definition companionProbes :: "duration \<Rightarrow> int" where
  "companionProbes maxWait =
     (let probes = maxWait div 250000;
          probes = (if probes < 1 then 1 else probes)
      in if probes > 16 then 16 else probes)"

text \<open>\<^verbatim>\<open>takeAll\<close> with a non-empty queue, and the entry of \<^verbatim>\<open>collect\<close>: the probes it may spend.\<close>

definition takeAll :: "writer \<Rightarrow> writer" where
  "takeAll w =
     (if w_batch w = [] \<and> w_groups w = [] \<and> w_queue w \<noteq> []
      then w\<lparr>w_batch := w_queue w, w_queue := [],
             w_probes := (if MaxWait (w_opts w) \<le> 0 \<or> int (length (w_queue w)) \<ge> MaxRows (w_opts w) then 0
                          else companionProbes (MaxWait (w_opts w)))\<rparr>
      else w)"

text \<open>One turn of the probe loop: a closing store stops collecting, otherwise the requests queued
  meanwhile (\<^verbatim>\<open>takeQueued\<close>) join the group.\<close>

definition collect_probe :: "writer \<Rightarrow> writer" where
  "collect_probe w =
     (if w_batch w \<noteq> [] \<and> 0 < w_probes w \<and> int (length (w_batch w)) < MaxRows (w_opts w)
      then if w_closed w then w\<lparr>w_probes := 0\<rparr>
           else w\<lparr>w_batch := w_batch w @ w_queue w, w_queue := [], w_probes := w_probes w - 1\<rparr>
      else w)"

definition collecting :: "writer \<Rightarrow> bool" where
  "collecting w \<longleftrightarrow> 0 < w_probes w \<and> int (length (w_batch w)) < MaxRows (w_opts w)"

text \<open>\<^verbatim>\<open>execute\<close>: the plan's transactions; the statements ride the first one.\<close>

definition execute :: "writer \<Rightarrow> writer" where
  "execute w =
     (if w_batch w \<noteq> [] \<and> \<not> collecting w
      then let plan = planWriteBatch (w_batch w) (MaxRows (w_opts w))
           in w\<lparr>w_batch := [], w_probes := 0,
                w_groups := (case wp_appends plan of
                               [] \<Rightarrow> [([], Some (wp_stmts plan))]
                             | c # cs \<Rightarrow> (c, Some (wp_stmts plan)) # map (\<lambda>c. (c, None)) cs)\<rparr>
      else w)"

text \<open>Waiters an earlier transaction satisfied are resolved and unlinked before the transaction.\<close>

definition satisfied_cp :: "marks \<Rightarrow> checkpointWrite \<Rightarrow> bool" where
  "satisfied_cp cpSeqs cp \<longleftrightarrow> \<not> cw_seq cp > mark_of cpSeqs (cw_pipeline cp)"

definition satisfied_ss :: "marks \<Rightarrow> sourceStateWrite \<Rightarrow> bool" where
  "satisfied_ss srcSeqs ss \<longleftrightarrow>
     \<not> sw_srcSeq ss > mark_of srcSeqs (sourceKey (sw_pipeline ss) (sw_source ss))"

definition resolveSatisfied :: "writeStatements \<Rightarrow> writer \<Rightarrow> writeStatements \<times> writer" where
  "resolveSatisfied st w =
     (let cpd = satisfied_cp (w_cpSeqs w); ssd = satisfied_ss (w_srcSeqs w);
          w1 = resolve_all (concat (map cw_waiters (filter cpd (st_checkpoints st)))) (Done 0) w;
          w2 = resolve_all (concat (map sw_waiters (filter ssd (st_sourceStates st)))) (Done 0) w1
      in (st\<lparr>st_checkpoints := map (\<lambda>cp. if cpd cp then cp\<lparr>cw_waiters := []\<rparr> else cp) (st_checkpoints st),
             st_sourceStates := map (\<lambda>ss. if ssd ss then ss\<lparr>sw_waiters := []\<rparr> else ss) (st_sourceStates st)\<rparr>,
          w2))"

definition advance_mark :: "string \<Rightarrow> seq \<Rightarrow> marks \<Rightarrow> marks" where
  "advance_mark k q m = (if q > mark_of m k then m(k \<mapsto> q) else m)"

definition applyMarks :: "writeStatements \<Rightarrow> writer \<Rightarrow> writer" where
  "applyMarks st w =
     w\<lparr>w_cpSeqs := foldl (\<lambda>m cp. advance_mark (cw_pipeline cp) (cw_seq cp) m) (w_cpSeqs w) (st_checkpoints st),
       w_srcSeqs := foldl (\<lambda>m ss. advance_mark (sourceKey (sw_pipeline ss) (sw_source ss)) (sw_srcSeq ss) m)
                      (w_srcSeqs w) (st_sourceStates st)\<rparr>"

text \<open>The requests a group still has to answer.\<close>

definition stmt_waiters :: "writeStatements \<Rightarrow> writeReq list" where
  "stmt_waiters st = concat (map cw_waiters (st_checkpoints st))
     @ concat (map sw_waiters (st_sourceStates st)) @ st_rest st"

definition group_tx ::
    "driver \<Rightarrow> gotime \<Rightarrow> writer \<Rightarrow> writeReq list \<Rightarrow> writeStatements option \<Rightarrow>
     sqliteDB \<Rightarrow> go_error + sqliteDB \<times> (nat \<times> int) list" where
  "group_tx drv now w appends st db =
     (case (if appends \<noteq> [] then insertSpoolRows drv appends db else Inr (db, [])) of
        Inl e \<Rightarrow> Inl e
      | Inr (db1, seqs) \<Rightarrow>
          (case st of
             None \<Rightarrow> Inr (db1, seqs)
           | Some s \<Rightarrow>
               (case execStatements drv now (w_cpSeqs w) (w_srcSeqs w) s db1 of
                  Inl e \<Rightarrow> Inl e | Inr (db2, ns) \<Rightarrow> Inr (db2, seqs @ ns))))"

definition value_for :: "(nat \<times> int) list \<Rightarrow> writeReq \<Rightarrow> int" where
  "value_for vals r = (case map_of vals (rq_id r) of None \<Rightarrow> 0 | Some v \<Rightarrow> v)"

definition commitGroup ::
    "driver \<Rightarrow> gotime \<Rightarrow> writeReq list \<Rightarrow> writeStatements option \<Rightarrow> writer \<Rightarrow> writer" where
  "commitGroup drv now appends st w =
     (case (case st of None \<Rightarrow> (None, w)
            | Some s \<Rightarrow> (case resolveSatisfied s w of (s', w') \<Rightarrow> (Some s', w'))) of
        (st1, w1) \<Rightarrow>
          let waiters = appends @ (case st1 of None \<Rightarrow> [] | Some s \<Rightarrow> stmt_waiters s)
          in (case withTx drv (w_closed w1) (group_tx drv now w1 appends st1) (w_db w1) of
                Inl e \<Rightarrow> resolve_all waiters (Failed (''store: write batch: '' @ e)) w1
              | Inr (db', vals) \<Rightarrow>
                  let w2 = (case st1 of None \<Rightarrow> w1\<lparr>w_db := db'\<rparr> | Some s \<Rightarrow> applyMarks s (w1\<lparr>w_db := db'\<rparr>))
                  in w2\<lparr>w_results := w_results w2 @ map (\<lambda>r. (rq_id r, Done (value_for vals r))) waiters\<rparr>))"

definition commit_next :: "driver \<Rightarrow> gotime \<Rightarrow> writer \<Rightarrow> writer" where
  "commit_next drv now w =
     (case w_groups w of
        [] \<Rightarrow> w
      | (appends, st) # gs \<Rightarrow> (commitGroup drv now appends st w)\<lparr>w_groups := gs\<rparr>)"

definition shutdown :: "writer \<Rightarrow> writer" where
  "shutdown w = resolve_all (w_queue w) (Failed ErrClosed) (w\<lparr>w_closed := True, w_queue := []\<rparr>)"

section \<open>Events\<close>

datatype wr_event =
    Enqueue write_op
  | Take
  | Probe
  | Plan
  | Commit driver gotime
  | Shutdown

fun wr_apply :: "wr_event \<Rightarrow> writer \<Rightarrow> writer" where
  "wr_apply (Enqueue x) w = enqueue x w"
| "wr_apply Take w = takeAll w"
| "wr_apply Probe w = collect_probe w"
| "wr_apply Plan w = execute w"
| "wr_apply (Commit drv now) w = commit_next drv now w"
| "wr_apply Shutdown w = shutdown w"

section \<open>Every request is answered exactly once\<close>

fun group_reqs :: "writeReq list \<times> writeStatements option \<Rightarrow> writeReq list" where
  "group_reqs (appends, None) = appends"
| "group_reqs (appends, Some s) = appends @ stmt_waiters s"

definition pending_reqs :: "writer \<Rightarrow> writeReq list" where
  "pending_reqs w = w_queue w @ w_batch w @ concat (map group_reqs (w_groups w))"

definition accounted :: "writer \<Rightarrow> bool" where
  "accounted w \<longleftrightarrow>
     mset (map rq_id (pending_reqs w)) + mset (map fst (w_results w)) = mset [0..<length (w_reqs w)]"

lemma coalesce_cp_waiters:
  "mset (concat (map cw_waiters (coalesce_cp p q r es))) = add_mset r (mset (concat (map cw_waiters es)))"
  by (induction es) auto

lemma coalesce_ss_waiters:
  "mset (concat (map sw_waiters (coalesce_ss p n s q r es))) = add_mset r (mset (concat (map sw_waiters es)))"
  by (induction es) (auto simp: ss_merge_def)

definition acc_reqs :: "plan_acc \<Rightarrow> writeReq multiset" where
  "acc_reqs a = (case a of (appends, chunk, st) \<Rightarrow>
     mset (concat appends) + mset chunk + mset (stmt_waiters st))"

lemma plan_request_reqs: "acc_reqs (plan_request maxRows a r) = add_mset r (acc_reqs a)"
  by (cases a) (auto simp: acc_reqs_def stmt_waiters_def Let_def coalesce_cp_waiters coalesce_ss_waiters
    split: write_op.split)

lemma plan_fold_reqs: "acc_reqs (foldl (plan_request maxRows) a rs) = acc_reqs a + mset rs"
  by (induction rs arbitrary: a) (simp_all add: plan_request_reqs)

lemma planWriteBatch_reqs:
  "mset (concat (wp_appends (planWriteBatch batch maxRows)) @ stmt_waiters (wp_stmts (planWriteBatch batch maxRows)))
    = mset batch"
proof -
  obtain appends chunk st where f: "foldl (plan_request maxRows)
      ([], [], \<lparr>st_checkpoints = [], st_sourceStates = [], st_rest = []\<rparr>) batch = (appends, chunk, st)"
    by (rule prod_cases3)
  have "acc_reqs (appends, chunk, st) = mset batch"
    using plan_fold_reqs [of maxRows "([], [], \<lparr>st_checkpoints = [], st_sourceStates = [], st_rest = []\<rparr>)" batch]
    by (simp add: f) (simp add: acc_reqs_def stmt_waiters_def)
  then show ?thesis by (auto simp: planWriteBatch_def f acc_reqs_def)
qed

lemma execute_reqs: "mset (pending_reqs (execute w)) = mset (pending_reqs w)" if "w_groups w = []"
proof (cases "w_batch w \<noteq> [] \<and> \<not> collecting w")
  case True
  let ?plan = "planWriteBatch (w_batch w) (MaxRows (w_opts w))"
  have "concat (map group_reqs (map (\<lambda>c. (c, None)) cs)) = concat cs" for cs
    by (induction cs) auto
  then have "mset (concat (map group_reqs (w_groups (execute w))))
      = mset (concat (wp_appends ?plan) @ stmt_waiters (wp_stmts ?plan))"
    using True by (auto simp: execute_def Let_def split: list.split)
  also have "\<dots> = mset (w_batch w)" by (rule planWriteBatch_reqs)
  finally show ?thesis using True that by (simp add: pending_reqs_def) (simp add: execute_def Let_def)
qed (auto simp: execute_def)

lemma filter_waiters_split:
  "mset (concat (map f (filter P es))) + mset (concat (map f (map (\<lambda>e. if P e then g e else e) es)))
    = mset (concat (map f es))" if "\<And>e. f (g e) = []"
  using that by (induction es) auto

lemma resolveSatisfied_reqs:
  assumes "resolveSatisfied s w = (s', w')"
  shows "mset (map rq_id (stmt_waiters s')) + mset (map fst (w_results w'))
      = mset (map rq_id (stmt_waiters s)) + mset (map fst (w_results w))"
    and "w' = w\<lparr>w_results := w_results w'\<rparr>"
proof -
  let ?cpd = "satisfied_cp (w_cpSeqs w)" and ?ssd = "satisfied_ss (w_srcSeqs w)"
  let ?c = "concat (map cw_waiters (filter ?cpd (st_checkpoints s)))"
  let ?d = "concat (map sw_waiters (filter ?ssd (st_sourceStates s)))"
  have "mset ?c + mset (concat (map cw_waiters (st_checkpoints s'))) = mset (concat (map cw_waiters (st_checkpoints s)))"
    "mset ?d + mset (concat (map sw_waiters (st_sourceStates s'))) = mset (concat (map sw_waiters (st_sourceStates s)))"
    "st_rest s' = st_rest s"
    using assms filter_waiters_split [of cw_waiters "\<lambda>cp. cp\<lparr>cw_waiters := []\<rparr>" ?cpd "st_checkpoints s"]
      filter_waiters_split [of sw_waiters "\<lambda>ss. ss\<lparr>sw_waiters := []\<rparr>" ?ssd "st_sourceStates s"]
    by (auto simp: resolveSatisfied_def Let_def)
  then have split: "mset ?c + mset ?d + mset (stmt_waiters s') = mset (stmt_waiters s)"
    by (simp add: stmt_waiters_def) (metis (no_types, lifting) add.assoc add.commute add.left_commute)
  have res: "map fst (w_results w') = map fst (w_results w) @ map rq_id ?c @ map rq_id ?d"
    using assms by (auto simp: resolveSatisfied_def Let_def resolve_all_def)
  show "mset (map rq_id (stmt_waiters s')) + mset (map fst (w_results w'))
      = mset (map rq_id (stmt_waiters s)) + mset (map fst (w_results w))"
    unfolding res using arg_cong [OF split, of "image_mset rq_id"] by (simp add: ac_simps)
  show "w' = w\<lparr>w_results := w_results w'\<rparr>"
    using assms by (auto simp: resolveSatisfied_def Let_def resolve_all_def)
qed

lemma applyMarks_frame [simp]:
  "w_results (applyMarks s w) = w_results w" "w_db (applyMarks s w) = w_db w"
  "w_queue (applyMarks s w) = w_queue w" "w_batch (applyMarks s w) = w_batch w"
  "w_groups (applyMarks s w) = w_groups w" "w_reqs (applyMarks s w) = w_reqs w"
  "w_opts (applyMarks s w) = w_opts w" "w_closed (applyMarks s w) = w_closed w"
  "w_probes (applyMarks s w) = w_probes w"
  by (simp_all add: applyMarks_def)

lemma resolve_all_frame [simp]:
  "w_db (resolve_all rs x w) = w_db w" "w_queue (resolve_all rs x w) = w_queue w"
  "w_batch (resolve_all rs x w) = w_batch w" "w_groups (resolve_all rs x w) = w_groups w"
  "w_reqs (resolve_all rs x w) = w_reqs w" "w_opts (resolve_all rs x w) = w_opts w"
  "w_closed (resolve_all rs x w) = w_closed w" "w_cpSeqs (resolve_all rs x w) = w_cpSeqs w"
  "w_srcSeqs (resolve_all rs x w) = w_srcSeqs w" "w_probes (resolve_all rs x w) = w_probes w"
  "map fst (w_results (resolve_all rs x w)) = map fst (w_results w) @ map rq_id rs"
  by (simp_all add: resolve_all_def)

lemma resolveSatisfied_frame:
  assumes "resolveSatisfied s w = (s', w')"
  shows "w_db w' = w_db w" "w_queue w' = w_queue w" "w_batch w' = w_batch w" "w_groups w' = w_groups w"
    "w_reqs w' = w_reqs w" "w_closed w' = w_closed w" "w_cpSeqs w' = w_cpSeqs w" "w_srcSeqs w' = w_srcSeqs w"
    "w_opts w' = w_opts w" "w_probes w' = w_probes w"
  using resolveSatisfied_reqs(2) [OF assms] by (metis writer.ext_inject writer.surjective writer.update_convs(11))+

text \<open>What a group leaves of the writer besides the database and the marks.\<close>

lemma commitGroup_reqs:
  "mset (map fst (w_results (commitGroup drv now appends st w)))
    = mset (map rq_id (group_reqs (appends, st))) + mset (map fst (w_results w))"
proof (cases st)
  case None
  then show ?thesis
    by (auto simp: commitGroup_def Let_def o_def simp del: mset_map split: sum.split)
next
  case (Some s)
  obtain s' w' where r: "resolveSatisfied s w = (s', w')" by fastforce
  note reqs = resolveSatisfied_reqs(1) [OF r]
  have "mset (map fst (w_results (commitGroup drv now appends st w)))
      = mset (map rq_id (appends @ stmt_waiters s')) + mset (map fst (w_results w'))"
    using Some r by (auto simp: commitGroup_def Let_def o_def simp del: mset_map split: sum.split)
  then show ?thesis using reqs Some by (simp add: ac_simps)
qed

lemma commitGroup_frame:
  "w_queue (commitGroup drv now a st w) = w_queue w" "w_batch (commitGroup drv now a st w) = w_batch w"
  "w_reqs (commitGroup drv now a st w) = w_reqs w" "w_groups (commitGroup drv now a st w) = w_groups w"
  "w_opts (commitGroup drv now a st w) = w_opts w" "w_closed (commitGroup drv now a st w) = w_closed w"
  "w_probes (commitGroup drv now a st w) = w_probes w"
  by (auto simp: commitGroup_def Let_def resolveSatisfied_frame split: option.split prod.split sum.split)

definition wr_inv :: "writer \<Rightarrow> bool" where
  "wr_inv w \<longleftrightarrow> accounted w \<and> (w_batch w \<noteq> [] \<longrightarrow> w_groups w = [])"

lemma accountedI:
  assumes "accounted w" and "w_reqs w' = w_reqs w"
    and "mset (map rq_id (pending_reqs w')) + mset (map fst (w_results w'))
      = mset (map rq_id (pending_reqs w)) + mset (map fst (w_results w))"
  shows "accounted w'"
  using assms by (simp add: accounted_def)

lemma wr_inv_enqueue: "wr_inv w \<Longrightarrow> wr_inv (enqueue x w)"
  by (auto simp: wr_inv_def accounted_def enqueue_def Let_def pending_reqs_def simp del: mset_map mset_upt)

lemma wr_inv_execute:
  assumes inv: "wr_inv w"
  shows "wr_inv (execute w)"
proof (cases "w_batch w \<noteq> []")
  case True
  with inv have "mset (pending_reqs (execute w)) = mset (pending_reqs w)"
    by (intro execute_reqs) (simp add: wr_inv_def)
  moreover have "w_results (execute w) = w_results w" "w_reqs (execute w) = w_reqs w"
    "w_batch (execute w) = [] \<or> execute w = w"
    by (simp_all add: execute_def Let_def)
  ultimately show ?thesis
    using inv unfolding wr_inv_def accounted_def by (metis mset_map)
qed (use inv in \<open>simp add: execute_def\<close>)

lemma wr_inv_commit:
  assumes inv: "wr_inv w"
  shows "wr_inv (commit_next drv now w)"
proof (cases "w_groups w")
  case (Cons g gs)
  obtain a st where g: "g = (a, st)" by fastforce
  let ?w = "commit_next drv now w"
  have w: "w_reqs ?w = w_reqs w" "w_groups ?w = gs" "w_batch ?w = w_batch w" "w_queue ?w = w_queue w"
    "w_results ?w = w_results (commitGroup drv now a st w)"
    by (simp_all add: commit_next_def Cons g commitGroup_frame)
  have "mset (map rq_id (pending_reqs ?w)) + mset (map fst (w_results ?w))
      = mset (map rq_id (pending_reqs w)) + mset (map fst (w_results w))"
    unfolding w commitGroup_reqs pending_reqs_def Cons g
    by (simp add: ac_simps)
  moreover have "w_batch ?w = []" using inv Cons w by (auto simp: wr_inv_def)
  ultimately show ?thesis using inv w(1) by (simp add: wr_inv_def accounted_def)
qed (use inv in \<open>simp add: commit_next_def\<close>)

lemma wr_inv_apply: "wr_inv w \<Longrightarrow> wr_inv (wr_apply e w)"
proof (cases e)
  case Take
  moreover assume "wr_inv w"
  ultimately show ?thesis
    by (auto simp: takeAll_def wr_inv_def accounted_def pending_reqs_def)
next
  case Probe
  moreover assume "wr_inv w"
  ultimately show ?thesis
    by (auto simp: collect_probe_def wr_inv_def accounted_def pending_reqs_def ac_simps)
next
  case Shutdown
  moreover assume "wr_inv w"
  ultimately show ?thesis
    by (auto simp: shutdown_def wr_inv_def accounted_def pending_reqs_def ac_simps simp del: mset_map)
qed (auto intro: wr_inv_enqueue wr_inv_execute wr_inv_commit)

lemma wr_inv_new: "wr_inv (newWriter db opts)"
  by (simp add: wr_inv_def accounted_def newWriter_def pending_reqs_def)

lemma wr_inv_run: "wr_inv w \<Longrightarrow> wr_inv (fold wr_apply es w)"
  by (induction es arbitrary: w) (auto intro: wr_inv_apply)

section \<open>The plan\<close>

definition is_append :: "writeReq \<Rightarrow> bool" where
  "is_append r = (case rq_op r of WAppend _ _ _ \<Rightarrow> True | _ \<Rightarrow> False)"

definition is_checkpoint :: "string \<Rightarrow> writeReq \<Rightarrow> bool" where
  "is_checkpoint p r = (case rq_op r of WCheckpoint p' _ \<Rightarrow> p' = p | _ \<Rightarrow> False)"

definition cp_of :: "writeReq \<Rightarrow> seq" where
  "cp_of r = (case rq_op r of WCheckpoint _ q \<Rightarrow> q | _ \<Rightarrow> 0)"

definition is_rest :: "writeReq \<Rightarrow> bool" where
  "is_rest r = (case rq_op r of WAppend _ _ _ \<Rightarrow> False | WCheckpoint _ _ \<Rightarrow> False
     | WSourceState _ _ _ _ \<Rightarrow> False | _ \<Rightarrow> True)"

definition is_source :: "string \<Rightarrow> writeReq \<Rightarrow> bool" where
  "is_source k r = (case rq_op r of WSourceState p n _ _ \<Rightarrow> sourceKey p n = k | _ \<Rightarrow> False)"

definition frontier_of :: "writeReq \<Rightarrow> seq" where
  "frontier_of r = (case rq_op r of WSourceState _ _ _ q \<Rightarrow> q | _ \<Rightarrow> 0)"

definition state_of :: "writeReq \<Rightarrow> bytes" where
  "state_of r = (case rq_op r of WSourceState _ _ s _ \<Rightarrow> s | _ \<Rightarrow> [])"

lemmas req_defs = is_append_def is_checkpoint_def cp_of_def is_rest_def is_source_def frontier_of_def state_of_def

abbreviation sw_key :: "sourceStateWrite \<Rightarrow> string" where
  "sw_key e \<equiv> sourceKey (sw_pipeline e) (sw_source e)"

text \<open>The loop invariant: the chunks hold the appends in order, all full but the open one; one
  entry per pipeline carries the largest checkpoint and its requests in order; one entry per
  source carries the state and frontier of one of its requests, the frontier being the largest.\<close>

definition cp_entry_ok :: "writeReq list \<Rightarrow> checkpointWrite \<Rightarrow> bool" where
  "cp_entry_ok rs e \<longleftrightarrow> cw_waiters e = filter (is_checkpoint (cw_pipeline e)) rs
     \<and> cw_waiters e \<noteq> [] \<and> cw_seq e = Max (cp_of ` set (cw_waiters e))"

definition ss_entry_ok :: "writeReq list \<Rightarrow> sourceStateWrite \<Rightarrow> bool" where
  "ss_entry_ok rs e \<longleftrightarrow> sw_waiters e = filter (is_source (sw_key e)) rs
     \<and> (\<exists>r\<in>set (sw_waiters e). state_of r = sw_state e \<and> frontier_of r = sw_srcSeq e)
     \<and> (\<forall>r\<in>set (sw_waiters e). frontier_of r \<le> sw_srcSeq e)"

definition plan_ok :: "int \<Rightarrow> writeReq list \<Rightarrow> plan_acc \<Rightarrow> bool" where
  "plan_ok maxRows rs a \<longleftrightarrow> (case a of (appends, chunk, st) \<Rightarrow>
     concat appends @ chunk = filter is_append rs \<and>
     (\<forall>c\<in>set appends. int (length c) = maxRows) \<and> int (length chunk) < maxRows \<and>
     distinct (map cw_pipeline (st_checkpoints st)) \<and>
     (\<forall>e\<in>set (st_checkpoints st). cp_entry_ok rs e) \<and>
     (\<forall>p. p \<in> cw_pipeline ` set (st_checkpoints st) \<longleftrightarrow> (\<exists>r\<in>set rs. is_checkpoint p r)) \<and>
     distinct (map sw_key (st_sourceStates st)) \<and>
     (\<forall>e\<in>set (st_sourceStates st). ss_entry_ok rs e) \<and>
     (\<forall>k. k \<in> sw_key ` set (st_sourceStates st) \<longleftrightarrow> (\<exists>r\<in>set rs. is_source k r)) \<and>
     st_rest st = filter is_rest rs)"

lemma coalesce_cp_pipelines:
  "cw_pipeline ` set (coalesce_cp p q r es) = insert p (cw_pipeline ` set es)"
  by (induction es) auto

lemma coalesce_cp_distinct:
  "distinct (map cw_pipeline es) \<Longrightarrow> distinct (map cw_pipeline (coalesce_cp p q r es))"
  by (induction es) (auto simp: coalesce_cp_pipelines)

lemma coalesce_cp_entry:
  assumes "e \<in> set (coalesce_cp p q r es)" and "distinct (map cw_pipeline es)"
  shows "e \<in> set es \<and> cw_pipeline e \<noteq> p
    \<or> e = \<lparr>cw_pipeline = p, cw_seq = q, cw_waiters = [r]\<rparr> \<and> p \<notin> cw_pipeline ` set es
    \<or> (\<exists>e0\<in>set es. cw_pipeline e0 = p \<and> e = e0\<lparr>cw_seq := max q (cw_seq e0), cw_waiters := cw_waiters e0 @ [r]\<rparr>)"
  using assms
proof (induction es)
  case (Cons a es)
  show ?case
  proof (cases "cw_pipeline a = p")
    case True
    have "cw_pipeline x \<noteq> p" if "x \<in> set es" for x
      using True Cons.prems(2) that by (metis distinct.simps(2) image_eqI image_set list.simps(9))
    with True have "e = a\<lparr>cw_seq := max q (cw_seq a), cw_waiters := cw_waiters a @ [r]\<rparr> \<or> e \<in> set es \<and> cw_pipeline e \<noteq> p"
      using Cons.prems by (auto simp: max_def split: if_splits)
    with True show ?thesis by auto
  next
    case False
    with Cons show ?thesis by auto
  qed
qed simp

lemma ss_merge_key [simp]: "sw_pipeline (ss_merge s q r e) = sw_pipeline e" "sw_source (ss_merge s q r e) = sw_source e"
  by (simp_all add: ss_merge_def)

lemma coalesce_ss_keys:
  "sw_key ` set (coalesce_ss p n s q r es) = insert (sourceKey p n) (sw_key ` set es)"
  by (induction es) auto

lemma coalesce_ss_distinct:
  "distinct (map sw_key es) \<Longrightarrow> distinct (map sw_key (coalesce_ss p n s q r es))"
proof (induction es)
  case (Cons a es)
  then show ?case using coalesce_ss_keys [of p n s q r es] by auto
qed simp

lemma coalesce_ss_entry:
  assumes "e \<in> set (coalesce_ss p n s q r es)" and "distinct (map sw_key es)"
  shows "e \<in> set es \<and> sw_key e \<noteq> sourceKey p n
    \<or> e = \<lparr>sw_pipeline = p, sw_source = n, sw_state = s, sw_srcSeq = q, sw_waiters = [r]\<rparr>
       \<and> sourceKey p n \<notin> sw_key ` set es
    \<or> (\<exists>e0\<in>set es. sw_key e0 = sourceKey p n \<and> e = ss_merge s q r e0)"
  using assms
proof (induction es)
  case (Cons a es)
  show ?case
  proof (cases "sw_key a = sourceKey p n")
    case True
    have "sw_key x \<noteq> sourceKey p n" if "x \<in> set es" for x
      using True Cons.prems(2) that by (metis (mono_tags, lifting) distinct.simps(2) image_eqI image_set list.simps(9))
    with True have "e = ss_merge s q r a \<or> e \<in> set es \<and> sw_key e \<noteq> sourceKey p n"
      using Cons.prems by auto
    with True show ?thesis by (metis list.set_intros(1) list.set_intros(2))
  next
    case False
    with Cons show ?thesis by auto
  qed
qed simp

lemma cp_entry_ok_snoc_other:
  assumes "cp_entry_ok rs e" and "\<not> is_checkpoint (cw_pipeline e) r"
  shows "cp_entry_ok (rs @ [r]) e"
proof -
  have "filter (is_checkpoint (cw_pipeline e)) (rs @ [r]) = filter (is_checkpoint (cw_pipeline e)) rs"
    using assms(2) by simp
  with assms(1) show ?thesis unfolding cp_entry_ok_def by metis
qed

lemma ss_entry_ok_snoc_other:
  assumes "ss_entry_ok rs e" and "\<not> is_source (sw_key e) r"
  shows "ss_entry_ok (rs @ [r]) e"
proof -
  have "filter (is_source (sw_key e)) (rs @ [r]) = filter (is_source (sw_key e)) rs"
    using assms(2) by simp
  with assms(1) show ?thesis unfolding ss_entry_ok_def by metis
qed

lemma cp_entry_ok_coalesce:
  assumes "\<forall>e\<in>set es. cp_entry_ok rs e" and "distinct (map cw_pipeline es)"
    and "\<forall>p. p \<in> cw_pipeline ` set es \<longleftrightarrow> (\<exists>r\<in>set rs. is_checkpoint p r)"
    and "rq_op r = WCheckpoint p q" and "e \<in> set (coalesce_cp p q r es)"
  shows "cp_entry_ok (rs @ [r]) e"
  using coalesce_cp_entry [OF assms(5,2)]
proof (elim disjE bexE conjE)
  assume "e \<in> set es" "cw_pipeline e \<noteq> p"
  then show ?thesis using assms(1,4) by (intro cp_entry_ok_snoc_other) (auto simp: req_defs)
next
  assume e: "e = \<lparr>cw_pipeline = p, cw_seq = q, cw_waiters = [r]\<rparr>" and new: "p \<notin> cw_pipeline ` set es"
  then have "filter (is_checkpoint p) rs = []" using assms(3) by (auto simp: filter_empty_conv)
  moreover have "is_checkpoint p r" "cp_of r = q" using assms(4) by (simp_all add: req_defs)
  ultimately show ?thesis by (simp add: cp_entry_ok_def e)
next
  fix e0
  assume e0: "e0 \<in> set es" "cw_pipeline e0 = p"
    and e: "e = e0\<lparr>cw_seq := max q (cw_seq e0), cw_waiters := cw_waiters e0 @ [r]\<rparr>"
  then have ok: "cp_entry_ok rs e0" using assms(1) by blast
  have r: "is_checkpoint p r" "cp_of r = q" using assms(4) by (simp_all add: req_defs)
  have ne: "set (cw_waiters e0) \<noteq> {}" using ok unfolding cp_entry_ok_def set_empty by blast
  have "Max (cp_of ` set (cw_waiters e0 @ [r])) = max q (Max (cp_of ` set (cw_waiters e0)))"
    using r ne by (simp add: Max_insert)
  with ok r e0 show ?thesis unfolding cp_entry_ok_def e by simp
qed

lemma ss_entry_ok_coalesce:
  assumes "\<forall>e\<in>set es. ss_entry_ok rs e" and "distinct (map sw_key es)"
    and "\<forall>k. k \<in> sw_key ` set es \<longleftrightarrow> (\<exists>r\<in>set rs. is_source k r)"
    and "rq_op r = WSourceState p n s q" and "e \<in> set (coalesce_ss p n s q r es)"
  shows "ss_entry_ok (rs @ [r]) e"
  using coalesce_ss_entry [OF assms(5,2)]
proof (elim disjE bexE conjE)
  assume "e \<in> set es" "sw_key e \<noteq> sourceKey p n"
  then show ?thesis using assms(1,4) by (intro ss_entry_ok_snoc_other) (auto simp: req_defs)
next
  assume e: "e = \<lparr>sw_pipeline = p, sw_source = n, sw_state = s, sw_srcSeq = q, sw_waiters = [r]\<rparr>"
    and new: "sourceKey p n \<notin> sw_key ` set es"
  then have "filter (is_source (sourceKey p n)) rs = []" using assms(3) by (auto simp: filter_empty_conv)
  moreover have "is_source (sourceKey p n) r" "frontier_of r = q" "state_of r = s"
    using assms(4) by (simp_all add: req_defs)
  ultimately show ?thesis by (simp add: ss_entry_ok_def e)
next
  fix e0
  assume e0: "e0 \<in> set es" "sw_key e0 = sourceKey p n"
    and e: "e = ss_merge s q r e0"
  then have ok: "ss_entry_ok rs e0" using assms(1) by blast
  have 1: "frontier_of r = q" "state_of r = s" "is_source (sourceKey p n) r" using assms(4) by (simp_all add: req_defs)
  show ?thesis
  proof (cases "q \<ge> sw_srcSeq e0")
    case True
    with ok e0 1 show ?thesis unfolding ss_entry_ok_def e ss_merge_def by fastforce
  next
    case False
    with ok e0 1 show ?thesis unfolding ss_entry_ok_def e ss_merge_def by fastforce
  qed
qed

end
