(* ===== verification/WriterSpec.thy ===== *)
theory WriterSpec
  imports Writer
begin

text \<open>
  What the group-commit writer promises: the batch plan partitions the group and coalesces it
  without losing a value, every transaction is all or nothing, sequences are assigned in queue
  order, every request is answered exactly once, an acknowledged checkpoint is durable, and the
  store as a whole meets the spool contract.
\<close>

section \<open>The plan\<close>

lemma plan_request_ok:
  assumes "plan_ok maxRows rs a" and "0 < maxRows"
  shows "plan_ok maxRows (rs @ [r]) (plan_request maxRows a r)"
proof -
  obtain appends chunk st where a: "a = (appends, chunk, st)" by (rule prod_cases3)
  note ok = assms(1) [unfolded a plan_ok_def prod.case]
  have cps: "\<forall>e\<in>set (st_checkpoints st). cp_entry_ok (rs @ [r]) e" if "\<And>p. \<not> is_checkpoint p r"
    using ok that by (auto intro: cp_entry_ok_snoc_other)
  have sss: "\<forall>e\<in>set (st_sourceStates st). ss_entry_ok (rs @ [r]) e" if "\<And>k. \<not> is_source k r"
    using ok that by (auto intro: ss_entry_ok_snoc_other)
  show ?thesis
  proof (cases "rq_op r")
    case (WAppend p m t)
    then have "is_append r" "\<not> is_rest r" "\<And>p. \<not> is_checkpoint p r" "\<And>k. \<not> is_source k r"
      by (simp_all add: req_defs)
    then show ?thesis using ok cps sss assms(2) WAppend
      by (simp add: a plan_ok_def Let_def flip: append_assoc)
  next
    case (WCheckpoint p q)
    then have k: "\<not> is_append r" "\<not> is_rest r" "\<And>p'. is_checkpoint p' r \<longleftrightarrow> p' = p" "\<And>k. \<not> is_source k r"
      by (auto simp: req_defs)
    have "\<forall>e\<in>set (coalesce_cp p q r (st_checkpoints st)). cp_entry_ok (rs @ [r]) e"
      using ok WCheckpoint by (auto intro: cp_entry_ok_coalesce)
    then show ?thesis using ok sss k WCheckpoint
      by (auto simp: a plan_ok_def coalesce_cp_distinct coalesce_cp_pipelines)
  next
    case (WSourceState p n s q)
    then have k: "\<not> is_append r" "\<not> is_rest r" "\<And>p'. \<not> is_checkpoint p' r"
      "\<And>k. is_source k r \<longleftrightarrow> k = sourceKey p n"
      by (auto simp: req_defs)
    have "\<forall>e\<in>set (coalesce_ss p n s q r (st_sourceStates st)). ss_entry_ok (rs @ [r]) e"
      using ok WSourceState by (auto intro: ss_entry_ok_coalesce)
    then show ?thesis using ok cps k WSourceState
      by (auto simp: a plan_ok_def coalesce_ss_distinct coalesce_ss_keys)
  qed (use ok cps sss in \<open>simp add: a plan_ok_def req_defs\<close>)+
qed

lemma plan_fold_ok:
  assumes "0 < maxRows"
  shows "plan_ok maxRows rs (foldl (plan_request maxRows)
    ([], [], \<lparr>st_checkpoints = [], st_sourceStates = [], st_rest = []\<rparr>) rs)"
proof (induction rs rule: rev_induct)
  case Nil
  show ?case using assms by (simp add: plan_ok_def)
next
  case (snoc r rs)
  then show ?case using plan_request_ok [OF _ assms] by simp
qed

lemma normalized_MaxRows: "1 \<le> MaxRows (normalized opts) \<and> MaxRows (normalized opts) \<le> maxWriteBatchRows"
  by (auto simp: normalized_def Let_def defaultWriteBatchRows_def maxWriteBatchRows_def)

section \<open>Properties of the plan\<close>



section \<open>What a transaction does\<close>

text \<open>The checkpoint upserts of a group with one entry per pipeline, against the marks they
  advance.\<close>

lemma find_other: "f x \<notin> f ` set xs \<Longrightarrow> find (\<lambda>e. f e = f x) xs = None"
  by (induction xs) auto

lemma exec_checkpoints_spec:
  assumes "exec_checkpoints drv m cps db = Inr db'" and "distinct (map cw_pipeline cps)"
  shows "tb_checkpoint db' p =
      (case find (\<lambda>e. cw_pipeline e = p) cps of
         Some e \<Rightarrow> if cw_seq e > mark_of m p then Some (cw_seq e) else tb_checkpoint db p
       | None \<Rightarrow> tb_checkpoint db p)
    \<and> db' = db\<lparr>tb_checkpoint := tb_checkpoint db'\<rparr>"
  using assms
proof (induction cps arbitrary: db)
  case (Cons c cps)
  have none: "find (\<lambda>e. cw_pipeline e = cw_pipeline c) cps = None"
    using Cons.prems(2) by (simp add: find_other)
  have d: "distinct (map cw_pipeline cps)" using Cons.prems(2) by simp
  show ?case
  proof (cases "cw_seq c \<le> mark_of m (cw_pipeline c)")
    case True
    then have "exec_checkpoints drv m cps db = Inr db'" using Cons.prems(1) by simp
    from Cons.IH [OF this d] show ?thesis using True none by (auto split: option.splits)
  next
    case False
    then have "exec_checkpoints drv m cps (upsertCheckpoint (cw_pipeline c) (cw_seq c) db) = Inr db'"
      using Cons.prems(1) by (auto split: option.splits)
    from Cons.IH [OF this d] show ?thesis
      using False none by (auto simp: upsertCheckpoint_def split: option.splits)
  qed
qed simp

lemma exec_sourceStates_frame:
  "exec_sourceStates drv m sss db = Inr db' \<Longrightarrow> db' = db\<lparr>tb_source_state := tb_source_state db'\<rparr>"
proof (induction sss arbitrary: db)
  case (Cons s sss)
  then show ?case
    by (auto simp: upsertSourceState_def split: if_splits option.splits dest!: Cons.IH)
qed simp

lemma marks_fold_spec:
  assumes "distinct (map cw_pipeline cps)"
  shows "foldl (\<lambda>m cp. advance_mark (cw_pipeline cp) (cw_seq cp) m) m cps p =
    (case find (\<lambda>e. cw_pipeline e = p) cps of
       Some e \<Rightarrow> if cw_seq e > mark_of m p then Some (cw_seq e) else m p
     | None \<Rightarrow> m p)"
  using assms
proof (induction cps arbitrary: m)
  case (Cons c cps)
  have "find (\<lambda>e. cw_pipeline e = cw_pipeline c) cps = None"
    using Cons.prems by (simp add: find_other)
  with Cons.IH [of "advance_mark (cw_pipeline c) (cw_seq c) m"] Cons.prems show ?case
    by (auto simp: advance_mark_def mark_of_def split: option.splits)
qed simp

text \<open>A row survives the individual statements unless one of them is a trim that covers it.\<close>

lemma execWriteRequest_frame:
  assumes "execWriteRequest drv now r db = Inr (db', n)"
  shows "tb_spool_seq db' = tb_spool_seq db" "tb_checkpoint db' = tb_checkpoint db"
    "set (tb_spool db') \<subseteq> set (tb_spool db)"
    "row \<in> set (tb_spool db) \<Longrightarrow> row \<in> set (tb_spool db')
      \<or> (\<exists>thr. rq_op r = WDeleteSpoolThrough (row_pipeline row) thr \<and> row_seq row \<le> thr)"
proof -
  have sweep: "tb_spool (fst (dlq_sweep_loop p c d t)) = tb_spool d
      \<and> tb_spool_seq (fst (dlq_sweep_loop p c d t)) = tb_spool_seq d
      \<and> tb_checkpoint (fst (dlq_sweep_loop p c d t)) = tb_checkpoint d" for p c d t
    by (induction p c d t rule: dlq_sweep_loop.induct)
      (subst (1 2 3) dlq_sweep_loop.simps, auto simp: deleteDL_def)
  then have sweep: "dlq_sweep_loop p c d t = (d', n) \<Longrightarrow> tb_spool d' = tb_spool d
      \<and> tb_spool_seq d' = tb_spool_seq d \<and> tb_checkpoint d' = tb_checkpoint d" for p c d t d' n
    by (metis fst_conv)
  note defs = execWriteRequest_def insertDeadLetter_def deleteSpoolThrough_def deleteDeadLetters_def
    deleteDL_def deleteJobRunsBefore_def upsertJobRun_def deleteDeadLettersBefore_def Let_def
  have "tb_spool_seq db' = tb_spool_seq db \<and> tb_checkpoint db' = tb_checkpoint db \<and>
      (tb_spool db' = tb_spool db \<or> (\<exists>p thr. rq_op r = WDeleteSpoolThrough p thr \<and>
         tb_spool db' = filter (\<lambda>r. \<not> (row_pipeline r = p \<and> row_seq r \<le> thr)) (tb_spool db)))"
    using assms by (cases "rq_op r") (auto simp: defs split: option.splits if_splits dest: sweep)
  then show "tb_spool_seq db' = tb_spool_seq db" "tb_checkpoint db' = tb_checkpoint db"
    "set (tb_spool db') \<subseteq> set (tb_spool db)"
    "row \<in> set (tb_spool db) \<Longrightarrow> row \<in> set (tb_spool db')
      \<or> (\<exists>thr. rq_op r = WDeleteSpoolThrough (row_pipeline row) thr \<and> row_seq row \<le> thr)"
    by auto
qed

lemma exec_rest_frame:
  assumes "exec_rest drv now rs db = Inr (db', ns)"
  shows "tb_spool_seq db' = tb_spool_seq db" "tb_checkpoint db' = tb_checkpoint db"
    "set (tb_spool db') \<subseteq> set (tb_spool db)" "map fst ns = map rq_id rs"
    "row \<in> set (tb_spool db) \<Longrightarrow> row \<in> set (tb_spool db')
      \<or> (\<exists>r\<in>set rs. \<exists>thr. rq_op r = WDeleteSpoolThrough (row_pipeline row) thr \<and> row_seq row \<le> thr)"
proof -
  have "tb_spool_seq db' = tb_spool_seq db \<and> tb_checkpoint db' = tb_checkpoint db
    \<and> set (tb_spool db') \<subseteq> set (tb_spool db) \<and> map fst ns = map rq_id rs
    \<and> (row \<in> set (tb_spool db) \<longrightarrow> row \<in> set (tb_spool db')
      \<or> (\<exists>r\<in>set rs. \<exists>thr. rq_op r = WDeleteSpoolThrough (row_pipeline row) thr \<and> row_seq row \<le> thr))"
    using assms
  proof (induction rs arbitrary: db ns)
    case (Cons r rs)
    obtain db1 n ns' where 1: "execWriteRequest drv now r db = Inr (db1, n)"
      and 2: "exec_rest drv now rs db1 = Inr (db', ns')" "ns = (rq_id r, n) # ns'"
      using Cons.prems by (auto split: sum.splits)
    note f = execWriteRequest_frame [OF 1]
    show ?case using Cons.IH [OF 2(1)] f(1-3) f(4) [of row] 2(2) by auto
  qed simp
  then show "tb_spool_seq db' = tb_spool_seq db" "tb_checkpoint db' = tb_checkpoint db"
    "set (tb_spool db') \<subseteq> set (tb_spool db)" "map fst ns = map rq_id rs"
    "row \<in> set (tb_spool db) \<Longrightarrow> row \<in> set (tb_spool db')
      \<or> (\<exists>r\<in>set rs. \<exists>thr. rq_op r = WDeleteSpoolThrough (row_pipeline row) thr \<and> row_seq row \<le> thr)"
    by auto
qed

definition row_of :: "seq \<Rightarrow> string \<Rightarrow> message \<Rightarrow> gotime \<Rightarrow> memRow" where
  "row_of q p m t = \<lparr>row_seq = q, row_pipeline = p, row_msg = stored_msg m, row_ingestTime = t\<rparr>"

lemma map_of_enumerate:
  assumes "distinct (map rq_id rs)" and "i < length rs"
  shows "map_of (map (\<lambda>(k, r). (rq_id r, f k)) (enumerate n rs)) (rq_id (rs ! i)) = Some (f (n + i))"
  using assms
proof (induction rs arbitrary: n i)
  case (Cons r rs)
  show ?case
  proof (cases i)
    case (Suc j)
    then have "rs ! j \<in> set rs" using Cons.prems by simp
    then have "rq_id (rs ! j) \<noteq> rq_id r" using Cons.prems(1)
      by (metis distinct.simps(2) image_eqI image_set list.simps(9))
    with Suc Cons.IH [of j "Suc n"] Cons.prems show ?thesis by simp
  qed simp
qed simp

lemma insertSpoolRows_spec:
  assumes "insertSpoolRows drv rs db = Inr (db', seqs)"
  shows "tb_spool_seq db' = tb_spool_seq db + int (length rs)" "tb_checkpoint db' = tb_checkpoint db"
    "set (tb_spool db) \<subseteq> set (tb_spool db')"
    "i < length rs \<Longrightarrow> rq_op (rs ! i) = WAppend p m t
      \<Longrightarrow> row_of (tb_spool_seq db + 1 + int i) p m t \<in> set (tb_spool db')"
    "distinct (map rq_id rs) \<Longrightarrow> i < length rs
      \<Longrightarrow> value_for (seqs @ ns) (rs ! i) = tb_spool_seq db + 1 + int i"
proof -
  have seqs: "seqs = map (\<lambda>(i, r). (rq_id r, tb_spool_seq db + 1 + int i)) (enumerate 0 rs)"
    using assms by (auto simp: insertSpoolRows_def insertSpool_def Let_def split: option.splits)
  have db': "db' = fst (insertSpool (map spool_row_of rs) db)"
    using assms by (auto simp: insertSpoolRows_def insertSpool_def Let_def split: option.splits)
  show "tb_spool_seq db' = tb_spool_seq db + int (length rs)" "tb_checkpoint db' = tb_checkpoint db"
    "set (tb_spool db) \<subseteq> set (tb_spool db')"
    by (simp_all add: db' insertSpool_def Let_def)
  show "row_of (tb_spool_seq db + 1 + int i) p m t \<in> set (tb_spool db')"
    if "i < length rs" "rq_op (rs ! i) = WAppend p m t"
  proof -
    have "(i, p, m, t) \<in> set (enumerate 0 (map spool_row_of rs))"
      using that by (auto simp: in_set_enumerate_eq)
    then show ?thesis by (force simp: db' insertSpool_def Let_def row_of_def)
  qed
  show "value_for (seqs @ ns) (rs ! i) = tb_spool_seq db + 1 + int i"
    if "distinct (map rq_id rs)" "i < length rs"
    using map_of_enumerate [OF that, of "\<lambda>k. tb_spool_seq db + 1 + int k" 0]
    by (simp add: value_for_def map_add_def seqs)
qed

section \<open>Acknowledged writes are durable\<close>

text \<open>A trim of the pipeline that covers the sequence was acknowledged.\<close>

definition trimmed :: "write_op list \<Rightarrow> (nat \<times> outcome) list \<Rightarrow> string \<Rightarrow> seq \<Rightarrow> bool" where
  "trimmed reqs R p q \<longleftrightarrow>
     (\<exists>j v thr. (j, Done v) \<in> set R \<and> reqs ! j = WDeleteSpoolThrough p thr \<and> q \<le> thr)"

definition ack_ok :: "write_op list \<Rightarrow> sqliteDB \<Rightarrow> marks \<Rightarrow> (nat \<times> outcome) list \<Rightarrow> nat \<Rightarrow> int \<Rightarrow> bool" where
  "ack_ok reqs db cps R i v \<longleftrightarrow>
     (case reqs ! i of
        WCheckpoint p q \<Rightarrow> q \<le> mark_of cps p
      | WAppend p m t \<Rightarrow> v \<le> tb_spool_seq db \<and> (row_of v p m t \<in> set (tb_spool db) \<or> trimmed reqs R p v)
      | _ \<Rightarrow> True)"

definition acks_ok :: "write_op list \<Rightarrow> sqliteDB \<Rightarrow> marks \<Rightarrow> (nat \<times> outcome) list \<Rightarrow> bool" where
  "acks_ok reqs db cps R \<longleftrightarrow> (\<forall>i v. (i, Done v) \<in> set R \<longrightarrow> ack_ok reqs db cps R i v)"

lemma ack_ok_mono:
  assumes "ack_ok reqs db cps R i v" and "i < length reqs"
    and "\<And>j. j < length reqs \<Longrightarrow> reqs' ! j = reqs ! j" and "set R \<subseteq> set R'" and "\<forall>j x. (j, x) \<in> set R \<longrightarrow> j < length reqs"
    and "\<And>p. mark_of cps p \<le> mark_of cps' p" and "tb_spool_seq db \<le> tb_spool_seq db'"
    and "\<And>row. row \<in> set (tb_spool db) \<Longrightarrow> row \<in> set (tb_spool db') \<or> trimmed reqs' R' (row_pipeline row) (row_seq row)"
  shows "ack_ok reqs' db' cps' R' i v"
proof -
  have trim: "trimmed reqs' R' p q" if "trimmed reqs R p q" for p q
    using that assms(3,4,5) unfolding trimmed_def by (metis subsetD)
  have row: "row_of v p m t \<in> set (tb_spool db') \<or> trimmed reqs' R' p v"
    if "row_of v p m t \<in> set (tb_spool db)" for p m t
    using assms(8) [OF that] by (simp add: row_of_def)
  show ?thesis
  proof (cases "reqs ! i")
    case (WAppend p m t)
    then show ?thesis using assms(1,2,3,7) row trim by (force simp: ack_ok_def)
  next
    case (WCheckpoint p q)
    then show ?thesis using assms(1,2,3) assms(6) [of p] by (auto simp: ack_ok_def)
  qed (use assms(2,3) in \<open>simp_all add: ack_ok_def\<close>)
qed

text \<open>Append requests not yet answered, in the order in which they will get their sequences.\<close>

definition pend_appends :: "writer \<Rightarrow> writeReq list" where
  "pend_appends w = concat (map fst (w_groups w)) @ filter is_append (w_batch w) @ filter is_append (w_queue w)"

definition order_ok :: "write_op list \<Rightarrow> (nat \<times> outcome) list \<Rightarrow> nat list \<Rightarrow> bool" where
  "order_ok reqs R ids \<longleftrightarrow>
     sorted_wrt (<) ids \<and>
     (\<forall>i v p m t. (i, Done v) \<in> set R \<and> reqs ! i = WAppend p m t \<longrightarrow>
        (\<forall>j\<in>set ids. i < j) \<and>
        (\<forall>k u p' m' t'. (k, Done u) \<in> set R \<and> reqs ! k = WAppend p' m' t' \<and> i < k \<longrightarrow> v < u))"

definition group_ok :: "writeReq list \<times> writeStatements option \<Rightarrow> bool" where
  "group_ok g \<longleftrightarrow> (\<forall>r\<in>set (fst g). is_append r) \<and>
     (case snd g of
        None \<Rightarrow> True
      | Some s \<Rightarrow>
          distinct (map cw_pipeline (st_checkpoints s)) \<and>
          (\<forall>e\<in>set (st_checkpoints s). \<forall>r\<in>set (cw_waiters e).
             is_checkpoint (cw_pipeline e) r \<and> cp_of r \<le> cw_seq e) \<and>
          (\<forall>e\<in>set (st_sourceStates s). \<forall>r\<in>set (sw_waiters e). is_source (sw_key e) r) \<and>
          (\<forall>r\<in>set (st_rest s). is_rest r))"

definition marks_ok :: "marks \<Rightarrow> sqliteDB \<Rightarrow> bool" where
  "marks_ok cps db \<longleftrightarrow> (\<forall>p q. cps p = Some q \<longrightarrow> tb_checkpoint db p = Some q)"

definition ops_ok_w :: "writer \<Rightarrow> bool" where
  "ops_ok_w w \<longleftrightarrow> (\<forall>r\<in>set (pending_reqs w). rq_id r < length (w_reqs w) \<and> rq_op r = w_reqs w ! rq_id r)"

definition wr_ok :: "writer \<Rightarrow> bool" where
  "wr_ok w \<longleftrightarrow> wr_inv w \<and> ops_ok_w w \<and> (\<forall>g\<in>set (w_groups w). group_ok g) \<and>
     1 \<le> MaxRows (w_opts w) \<and>
     marks_ok (w_cpSeqs w) (w_db w) \<and>
     acks_ok (w_reqs w) (w_db w) (w_cpSeqs w) (w_results w) \<and>
     order_ok (w_reqs w) (w_results w) (map rq_id (pend_appends w))"

lemma wr_inv_ids:
  assumes "wr_inv w"
  shows "(i, x) \<in> set (w_results w) \<Longrightarrow> i < length (w_reqs w)"
    and "distinct (map rq_id (pending_reqs w) @ map fst (w_results w))"
proof -
  have eq: "mset (map rq_id (pending_reqs w) @ map fst (w_results w)) = mset [0..<length (w_reqs w)]"
    using assms by (simp add: wr_inv_def accounted_def)
  show "distinct (map rq_id (pending_reqs w) @ map fst (w_results w))"
    using eq by (metis distinct_upt mset_eq_imp_distinct_iff)
  have "set (map rq_id (pending_reqs w) @ map fst (w_results w)) = {0..<length (w_reqs w)}"
    using eq by (metis atLeast_upt set_mset_mset set_upt)
  then show "(i, x) \<in> set (w_results w) \<Longrightarrow> i < length (w_reqs w)" by force
qed

text \<open>Adding answers: the new ones are right, the old ones stay right.\<close>

lemma acks_ok_add:
  assumes "acks_ok reqs db cps R" and "\<forall>j x. (j, x) \<in> set R \<longrightarrow> j < length reqs"
    and "\<And>p. mark_of cps p \<le> mark_of cps' p" and "tb_spool_seq db \<le> tb_spool_seq db'"
    and "\<And>row. row \<in> set (tb_spool db) \<Longrightarrow> row \<in> set (tb_spool db') \<or> trimmed reqs (R @ N) (row_pipeline row) (row_seq row)"
    and "\<And>i v. (i, Done v) \<in> set N \<Longrightarrow> ack_ok reqs db' cps' (R @ N) i v"
  shows "acks_ok reqs db' cps' (R @ N)"
  unfolding acks_ok_def
proof (intro allI impI)
  fix i v
  assume "(i, Done v) \<in> set (R @ N)"
  then consider "(i, Done v) \<in> set R" | "(i, Done v) \<in> set N" by auto
  then show "ack_ok reqs db' cps' (R @ N) i v"
  proof cases
    case 1
    then have "ack_ok reqs db cps R i v" using assms(1) by (simp add: acks_ok_def)
    then show ?thesis
    proof (rule ack_ok_mono)
      show "i < length reqs" using assms(2) 1 by blast
    qed (use assms(2-5) in auto)
  next
    case 2
    then show ?thesis by (rule assms(6))
  qed
qed

lemma acks_ok_failed:
  assumes "acks_ok reqs db cps R" and "\<forall>j x. (j, x) \<in> set R \<longrightarrow> j < length reqs"
    and "\<And>i v. (i, Done v) \<notin> set N"
  shows "acks_ok reqs db cps (R @ N)"
  using assms by (intro acks_ok_add [of reqs db cps R]) auto

lemma order_ok_shrink:
  assumes "order_ok reqs R ids" and "sorted_wrt (<) ids'" and "set ids' \<subseteq> set ids"
  shows "order_ok reqs R ids'"
  using assms unfolding order_ok_def by blast

lemma order_ok_no_append:
  assumes "order_ok reqs R ids" and "\<And>i v p m t. (i, Done v) \<in> set N \<Longrightarrow> reqs ! i \<noteq> WAppend p m t"
  shows "order_ok reqs (R @ N) ids"
  using assms unfolding order_ok_def by (auto, blast+)

lemma wr_ok_new:
  "1 \<le> MaxRows opts \<Longrightarrow> wr_ok (newWriter db opts)"
  using wr_inv_new [of db opts]
  by (simp add: wr_ok_def ops_ok_w_def newWriter_def pending_reqs_def marks_ok_def
    acks_ok_def order_ok_def pend_appends_def)

lemma wr_ok_enqueue:
  assumes ok: "wr_ok w"
  shows "wr_ok (enqueue x w)"
proof -
  let ?r = "\<lparr>rq_id = length (w_reqs w), rq_op = x\<rparr>"
  let ?reqs = "w_reqs w @ [x]"
  have inv: "wr_inv w" and ops: "ops_ok_w w" using ok by (simp_all add: wr_ok_def)
  note ids = wr_inv_ids(1) [OF inv]
  have acks: "acks_ok ?reqs (w_db w) (w_cpSeqs w) (w_results w)"
    unfolding acks_ok_def
  proof (intro allI impI)
    fix i v
    assume i: "(i, Done v) \<in> set (w_results w)"
    then have "ack_ok (w_reqs w) (w_db w) (w_cpSeqs w) (w_results w) i v"
      using ok by (simp add: wr_ok_def acks_ok_def)
    then show "ack_ok ?reqs (w_db w) (w_cpSeqs w) (w_results w) i v"
      by (rule ack_ok_mono) (use i ids in \<open>auto simp: nth_append\<close>)
  qed
  have low: "\<forall>j\<in>set (map rq_id (pend_appends w)). j < length (w_reqs w)"
  proof -
    have "set (concat (map fst gs)) \<subseteq> set (concat (map group_reqs gs))" for gs
    proof (induction gs)
      case (Cons g gs)
      then show ?case by (cases g; cases "snd g") auto
    qed simp
    then have "set (pend_appends w) \<subseteq> set (pending_reqs w)"
      by (auto simp: pend_appends_def pending_reqs_def)
    then show ?thesis using ops by (auto simp: ops_ok_w_def)
  qed
  have order: "order_ok ?reqs (w_results w) (map rq_id (pend_appends w))"
    using ok ids unfolding wr_ok_def order_ok_def by (simp add: nth_append) blast
  then have order': "order_ok ?reqs (w_results w) (map rq_id (pend_appends w) @ (if is_append ?r then [length (w_reqs w)] else []))"
    using low ids unfolding order_ok_def by (auto simp: sorted_wrt_append)
  have ops': "\<forall>r\<in>set (pending_reqs w). rq_id r < length ?reqs \<and> rq_op r = ?reqs ! rq_id r"
    using ops by (auto simp: ops_ok_w_def nth_append)
  show ?thesis
  proof (cases "w_closed w")
    case True
    then show ?thesis
      using ok wr_inv_enqueue [OF inv, of x] acks order ops' ids
      by (simp add: wr_ok_def enqueue_def Let_def ops_ok_w_def pending_reqs_def pend_appends_def resolve_all_def)
        (intro conjI acks_ok_failed order_ok_no_append, auto simp: less_SucI)
  next
    case False
    then show ?thesis
      using ok wr_inv_enqueue [OF inv, of x] acks order' ops'
      by (auto simp: wr_ok_def enqueue_def Let_def ops_ok_w_def pending_reqs_def pend_appends_def)
  qed
qed

lemma wr_ok_frame:
  assumes "wr_ok w" and "wr_inv w'" and "set (pending_reqs w') \<subseteq> set (pending_reqs w)"
    and "pend_appends w' = pend_appends w" and "w_groups w' = w_groups w" and "w_opts w' = w_opts w"
    and "w_reqs w' = w_reqs w" and "w_db w' = w_db w" and "w_cpSeqs w' = w_cpSeqs w" and "w_results w' = w_results w"
  shows "wr_ok w'"
  using assms(1-3) unfolding wr_ok_def ops_ok_w_def assms(4-10) by blast

lemma wr_ok_takeAll:
  assumes "wr_ok w"
  shows "wr_ok (takeAll w)"
proof (rule wr_ok_frame [OF assms])
  show "wr_inv (takeAll w)" using assms wr_inv_apply [of w Take] by (simp add: wr_ok_def)
  show "set (pending_reqs (takeAll w)) \<subseteq> set (pending_reqs w)" by (auto simp: takeAll_def pending_reqs_def)
  show "pend_appends (takeAll w) = pend_appends w" by (auto simp: takeAll_def pend_appends_def)
qed (simp_all add: takeAll_def)

lemma wr_ok_probe:
  assumes "wr_ok w"
  shows "wr_ok (collect_probe w)"
proof (rule wr_ok_frame [OF assms])
  show "wr_inv (collect_probe w)" using assms wr_inv_apply [of w Probe] by (simp add: wr_ok_def)
  show "set (pending_reqs (collect_probe w)) \<subseteq> set (pending_reqs w)"
    by (auto simp: collect_probe_def pending_reqs_def)
  show "pend_appends (collect_probe w) = pend_appends w" by (auto simp: collect_probe_def pend_appends_def)
qed (simp_all add: collect_probe_def)

lemma wr_ok_shutdown:
  assumes ok: "wr_ok w"
  shows "wr_ok (shutdown w)"
proof -
  have inv: "wr_inv w" and inv': "wr_inv (shutdown w)"
    using ok wr_inv_apply [of w Shutdown] by (simp_all add: wr_ok_def)
  let ?N = "map (\<lambda>r. (rq_id r, Failed ErrClosed)) (w_queue w)"
  have app: "pend_appends w = pend_appends (shutdown w) @ filter is_append (w_queue w)"
    by (simp add: pend_appends_def shutdown_def)
  have "order_ok (w_reqs w) (w_results w) (map rq_id (pend_appends w))" using ok by (simp add: wr_ok_def)
  moreover from this have "sorted_wrt (<) (map rq_id (pend_appends (shutdown w)))"
    by (simp add: order_ok_def app sorted_wrt_append)
  ultimately have "order_ok (w_reqs w) (w_results w) (map rq_id (pend_appends (shutdown w)))"
    by (rule order_ok_shrink) (simp add: app)
  then have order: "order_ok (w_reqs w) (w_results w @ ?N) (map rq_id (pend_appends (shutdown w)))"
    by (rule order_ok_no_append) auto
  have acks: "acks_ok (w_reqs w) (w_db w) (w_cpSeqs w) (w_results w @ ?N)"
    using ok wr_inv_ids(1) [OF inv] by (intro acks_ok_failed) (auto simp: wr_ok_def)
  have ops: "ops_ok_w (shutdown w)"
    using ok by (auto simp: wr_ok_def ops_ok_w_def shutdown_def pending_reqs_def)
  have frame: "w_groups (shutdown w) = w_groups w" "w_opts (shutdown w) = w_opts w" "w_reqs (shutdown w) = w_reqs w"
    "w_db (shutdown w) = w_db w" "w_cpSeqs (shutdown w) = w_cpSeqs w" "w_results (shutdown w) = w_results w @ ?N"
    by (simp_all add: shutdown_def resolve_all_def)
  show ?thesis using ok inv' ops order acks unfolding wr_ok_def frame by blast
qed

text \<open>The plan of a group keeps its requests in order.\<close>

lemma wr_ok_execute:
  assumes ok: "wr_ok w"
  shows "wr_ok (execute w)"
proof (cases "w_batch w \<noteq> [] \<and> \<not> collecting w")
  case False
  then show ?thesis using ok by (auto simp: execute_def)
next
  case True
  let ?max = "MaxRows (w_opts w)"
  let ?plan = "planWriteBatch (w_batch w) ?max"
  have inv: "wr_inv w" and inv': "wr_inv (execute w)" and max: "0 < ?max"
    using ok wr_inv_execute by (auto simp: wr_ok_def)
  then have g0: "w_groups w = []" using True by (auto simp: wr_inv_def)
  obtain appends chunk st where f: "foldl (plan_request ?max)
      ([], [], \<lparr>st_checkpoints = [], st_sourceStates = [], st_rest = []\<rparr>) (w_batch w) = (appends, chunk, st)"
    by (rule prod_cases3)
  note pok = plan_fold_ok [OF max, of "w_batch w", unfolded f plan_ok_def prod.case]
  have cat: "concat (wp_appends ?plan) = filter is_append (w_batch w)" and st: "wp_stmts ?plan = st"
    using pok by (auto simp: planWriteBatch_def f)
  have groups: "w_groups (execute w) = (case wp_appends ?plan of [] \<Rightarrow> [([], Some st)]
      | c # cs \<Rightarrow> (c, Some st) # map (\<lambda>c. (c, None)) cs)"
    using True by (simp add: execute_def Let_def st split: list.split)
  have fsts: "concat (map fst (w_groups (execute w))) = filter is_append (w_batch w)"
    unfolding cat [symmetric] groups by (auto simp: o_def split: list.split)
  have "\<forall>r\<in>set (concat (wp_appends ?plan)). is_append r" by (simp add: cat)
  then have chunks: "\<forall>c\<in>set (wp_appends ?plan). \<forall>r\<in>set c. is_append r" by auto
  have cps: "\<forall>e\<in>set (st_checkpoints st). \<forall>r\<in>set (cw_waiters e). is_checkpoint (cw_pipeline e) r \<and> cp_of r \<le> cw_seq e"
  proof (intro ballI)
    fix e r
    assume "e \<in> set (st_checkpoints st)" "r \<in> set (cw_waiters e)"
    moreover from this have "cw_waiters e = filter (is_checkpoint (cw_pipeline e)) (w_batch w)"
      "cw_seq e = Max (cp_of ` set (cw_waiters e))" using pok unfolding cp_entry_ok_def by blast+
    ultimately show "is_checkpoint (cw_pipeline e) r \<and> cp_of r \<le> cw_seq e" by auto
  qed
  have sss: "\<forall>e\<in>set (st_sourceStates st). \<forall>r\<in>set (sw_waiters e). is_source (sw_key e) r"
  proof (intro ballI)
    fix e r
    assume "e \<in> set (st_sourceStates st)" "r \<in> set (sw_waiters e)"
    moreover from this have "sw_waiters e = filter (is_source (sw_key e)) (w_batch w)"
      using pok unfolding ss_entry_ok_def by blast
    ultimately show "is_source (sw_key e) r" by auto
  qed
  have d: "distinct (map cw_pipeline (st_checkpoints st))" and rest: "\<forall>r\<in>set (st_rest st). is_rest r"
    using pok by auto
  have gok: "\<forall>g\<in>set (w_groups (execute w)). group_ok g"
    using chunks cps sss d rest unfolding groups by (auto simp: group_ok_def split: list.split)
  have app: "pend_appends (execute w) = pend_appends w"
    using True by (simp add: pend_appends_def fsts g0) (simp add: execute_def Let_def)
  have "set_mset (mset (pending_reqs (execute w))) = set_mset (mset (pending_reqs w))"
    by (simp only: execute_reqs [OF g0])
  then have ops: "ops_ok_w (execute w)"
    using ok by (simp add: wr_ok_def ops_ok_w_def) (simp add: execute_def Let_def)
  have frame: "w_opts (execute w) = w_opts w" "w_reqs (execute w) = w_reqs w"
    "w_db (execute w) = w_db w" "w_cpSeqs (execute w) = w_cpSeqs w" "w_results (execute w) = w_results w"
    by (simp_all add: execute_def Let_def)
  show ?thesis using ok inv' ops gok unfolding wr_ok_def frame app by blast
qed

definition rests :: "writeStatements option \<Rightarrow> writeReq list" where
  "rests st = (case st of None \<Rightarrow> [] | Some s \<Rightarrow> st_rest s)"

definition trims :: "writeReq list \<Rightarrow> memRow \<Rightarrow> bool" where
  "trims rs row \<longleftrightarrow> (\<exists>r\<in>set rs. \<exists>thr. rq_op r = WDeleteSpoolThrough (row_pipeline row) thr \<and> row_seq row \<le> thr)"

definition new_checkpoint :: "marks \<Rightarrow> writeStatements option \<Rightarrow> string \<Rightarrow> seq option \<Rightarrow> seq option" where
  "new_checkpoint m st p old =
     (case st of None \<Rightarrow> old
      | Some s \<Rightarrow> (case find (\<lambda>e. cw_pipeline e = p) (st_checkpoints s) of
           Some e \<Rightarrow> if cw_seq e > mark_of m p then Some (cw_seq e) else old
         | None \<Rightarrow> old))"

lemma execStatements_spec:
  assumes "execStatements drv now cps sss s db = Inr (db', ns)" and "distinct (map cw_pipeline (st_checkpoints s))"
  shows "tb_spool_seq db' = tb_spool_seq db \<and> set (tb_spool db') \<subseteq> set (tb_spool db)
    \<and> tb_checkpoint db' p = new_checkpoint cps (Some s) p (tb_checkpoint db p)
    \<and> (row \<in> set (tb_spool db) \<longrightarrow> row \<in> set (tb_spool db') \<or> trims (st_rest s) row)"
proof -
  obtain db1 db2 where 1: "exec_checkpoints drv cps (st_checkpoints s) db = Inr db1"
    and 2: "exec_sourceStates drv sss (st_sourceStates s) db1 = Inr db2"
    and 3: "exec_rest drv now (st_rest s) db2 = Inr (db', ns)"
    using assms(1) by (auto simp: execStatements_def split: sum.splits)
  note a = exec_checkpoints_spec [OF 1 assms(2), of p]
  note b = exec_sourceStates_frame [OF 2]
  have "tb_spool db2 = tb_spool db" "tb_spool_seq db2 = tb_spool_seq db" "tb_checkpoint db2 = tb_checkpoint db1"
    using a b by (metis sqliteDB.ext_inject sqliteDB.surjective sqliteDB.update_convs)+
  with a exec_rest_frame(1-3) [OF 3] exec_rest_frame(5) [OF 3, of row] show ?thesis
    by (auto simp: new_checkpoint_def trims_def)
qed

lemma group_tx_spec:
  assumes "group_tx drv now w a st db = Inr (db', vals)" and "group_ok (a, st)"
  shows "tb_spool_seq db' = tb_spool_seq db + int (length a)"
    and "tb_checkpoint db' p = new_checkpoint (w_cpSeqs w) st p (tb_checkpoint db p)"
    and "row \<in> set (tb_spool db) \<Longrightarrow> row \<in> set (tb_spool db') \<or> trims (rests st) row"
    and "i < length a \<Longrightarrow> rq_op (a ! i) = WAppend p' m t \<Longrightarrow>
      row_of (tb_spool_seq db + 1 + int i) p' m t \<in> set (tb_spool db')
      \<or> trims (rests st) (row_of (tb_spool_seq db + 1 + int i) p' m t)"
    and "distinct (map rq_id a) \<Longrightarrow> i < length a \<Longrightarrow> value_for vals (a ! i) = tb_spool_seq db + 1 + int i"
proof -
  have d: "st = Some s \<Longrightarrow> distinct (map cw_pipeline (st_checkpoints s))" for s
    using assms(2) by (simp add: group_ok_def)
  obtain db1 seqs where ins: "a \<noteq> [] \<longrightarrow> insertSpoolRows drv a db = Inr (db1, seqs)" "a = [] \<longrightarrow> db1 = db \<and> seqs = []"
    using assms(1) by (cases "a = []") (auto simp: group_tx_def split: sum.splits)
  obtain ns where rest: "vals = seqs @ ns" "st = None \<longrightarrow> db' = db1"
    "\<And>s. st = Some s \<Longrightarrow> execStatements drv now (w_cpSeqs w) (w_srcSeqs w) s db1 = Inr (db', ns)"
    using assms(1) ins by (cases "a = []"; cases st) (auto simp: group_tx_def split: sum.splits)
  have 1: "tb_spool_seq db1 = tb_spool_seq db + int (length a)" "tb_checkpoint db1 = tb_checkpoint db"
    "set (tb_spool db) \<subseteq> set (tb_spool db1)"
    using ins insertSpoolRows_spec(1-3) [of drv a db db1 seqs] by (cases "a = []"; auto)+
  have 2: "tb_spool_seq db' = tb_spool_seq db1" "tb_checkpoint db' p = new_checkpoint (w_cpSeqs w) st p (tb_checkpoint db1 p)"
    "row \<in> set (tb_spool db1) \<Longrightarrow> row \<in> set (tb_spool db') \<or> trims (rests st) row" for row
    using rest execStatements_spec [OF rest(3) d, of _ p row]
    by (cases st; auto simp: new_checkpoint_def rests_def)+
  show "tb_spool_seq db' = tb_spool_seq db + int (length a)"
    "tb_checkpoint db' p = new_checkpoint (w_cpSeqs w) st p (tb_checkpoint db p)" using 1 2 by simp_all
  show "row \<in> set (tb_spool db) \<Longrightarrow> row \<in> set (tb_spool db') \<or> trims (rests st) row" using 1(3) 2(3) by blast
  show "row_of (tb_spool_seq db + 1 + int i) p' m t \<in> set (tb_spool db')
      \<or> trims (rests st) (row_of (tb_spool_seq db + 1 + int i) p' m t)"
    if "i < length a" "rq_op (a ! i) = WAppend p' m t"
    using that ins insertSpoolRows_spec(4) [of drv a db db1 seqs i] 2(3) by (cases "a = []") auto
  show "value_for vals (a ! i) = tb_spool_seq db + 1 + int i" if "distinct (map rq_id a)" "i < length a"
    using that ins rest(1) insertSpoolRows_spec(5) [of drv a db db1 seqs i] by (cases "a = []") auto
qed

text \<open>The marks after a committed group, and the waiters they cover.\<close>

lemma new_marks:
  assumes "group_ok (a, Some s)"
  shows "foldl (\<lambda>m cp. advance_mark (cw_pipeline cp) (cw_seq cp) m) m (st_checkpoints s) p
    = new_checkpoint m (Some s) p (m p)"
  using assms by (simp add: group_ok_def marks_fold_spec new_checkpoint_def)

lemma new_checkpoint_mono: "mark_of m p \<le> mark_of (\<lambda>p. new_checkpoint m st p (m p)) p"
  by (auto simp: new_checkpoint_def mark_of_def split: option.split)

lemma new_checkpoint_covers:
  assumes "group_ok (a, Some s)" and "e \<in> set (st_checkpoints s)" and "r \<in> set (cw_waiters e)"
  shows "cp_of r \<le> mark_of (\<lambda>p. new_checkpoint m (Some s) p (m p)) (cw_pipeline e)"
proof -
  have "find (\<lambda>e'. cw_pipeline e' = cw_pipeline e) es = Some e"
    if "distinct (map cw_pipeline es)" "e \<in> set es" for es
    using that by (induction es) (auto dest: imageI)
  then have "find (\<lambda>e'. cw_pipeline e' = cw_pipeline e) (st_checkpoints s) = Some e"
    using assms by (simp add: group_ok_def)
  moreover have "cp_of r \<le> cw_seq e" using assms by (auto simp: group_ok_def)
  ultimately show ?thesis by (auto simp: new_checkpoint_def mark_of_def split: option.split)
qed

lemma marks_ok_new:
  assumes "marks_ok m db" and "\<And>p. tb_checkpoint db' p = new_checkpoint m st p (tb_checkpoint db p)"
  shows "marks_ok (\<lambda>p. new_checkpoint m st p (m p)) db'"
  using assms unfolding marks_ok_def
  by (auto simp: new_checkpoint_def split: option.splits if_splits)

text \<open>The waiters resolved before the transaction: their values are at or below the marks.\<close>

lemma resolveSatisfied_ok:
  assumes r: "resolveSatisfied s w = (s', w1)" and g: "group_ok (a, Some s)"
  shows "group_ok (a, Some s')" and "set (stmt_waiters s') \<subseteq> set (stmt_waiters s)" and "st_rest s' = st_rest s"
    and "\<exists>N. w_results w1 = w_results w @ N \<and>
      (\<forall>(i, x)\<in>set N. \<exists>r\<in>set (stmt_waiters s). i = rq_id r \<and>
         (\<exists>p q. rq_op r = WCheckpoint p q \<and> q \<le> mark_of (w_cpSeqs w) p \<or> (\<exists>n b. rq_op r = WSourceState p n b q)))"
proof -
  let ?c = "satisfied_cp (w_cpSeqs w)" and ?d = "satisfied_ss (w_srcSeqs w)"
  have s': "s' = s\<lparr>st_checkpoints := map (\<lambda>cp. if ?c cp then cp\<lparr>cw_waiters := []\<rparr> else cp) (st_checkpoints s),
             st_sourceStates := map (\<lambda>ss. if ?d ss then ss\<lparr>sw_waiters := []\<rparr> else ss) (st_sourceStates s)\<rparr>"
    using r by (simp add: resolveSatisfied_def Let_def)
  have pipes: "map cw_pipeline (map (\<lambda>cp. if ?c cp then cp\<lparr>cw_waiters := []\<rparr> else cp) cps) = map cw_pipeline cps" for cps
    by (induction cps) auto
  show "group_ok (a, Some s')"
    using g by (auto simp: group_ok_def s' pipes split: if_splits simp del: map_map)
  show "set (stmt_waiters s') \<subseteq> set (stmt_waiters s)"
    by (auto simp: stmt_waiters_def s' split: if_splits)
  show "st_rest s' = st_rest s" by (simp add: s')
  let ?N = "map (\<lambda>r. (rq_id r, Done 0)) (concat (map cw_waiters (filter ?c (st_checkpoints s))))
     @ map (\<lambda>r. (rq_id r, Done 0)) (concat (map sw_waiters (filter ?d (st_sourceStates s))))"
  have res: "w_results w1 = w_results w @ ?N"
    using r by (auto simp: resolveSatisfied_def Let_def resolve_all_def)
  have "\<exists>r\<in>set (stmt_waiters s). i = rq_id r \<and>
         (\<exists>p q. rq_op r = WCheckpoint p q \<and> q \<le> mark_of (w_cpSeqs w) p \<or> (\<exists>n b. rq_op r = WSourceState p n b q))"
    if "(i, x) \<in> set ?N" for i x
  proof -
    from that consider (cp) e r where "e \<in> set (st_checkpoints s)" "?c e" "r \<in> set (cw_waiters e)" "i = rq_id r"
      | (ss) e r where "e \<in> set (st_sourceStates s)" "r \<in> set (sw_waiters e)" "i = rq_id r" by auto
    then show ?thesis
    proof cases
      case cp
      then have "is_checkpoint (cw_pipeline e) r" "cp_of r \<le> cw_seq e" using g by (auto simp: group_ok_def)
      moreover have "r \<in> set (stmt_waiters s)" using cp by (auto simp: stmt_waiters_def)
      ultimately show ?thesis using cp
        by (auto simp: req_defs satisfied_cp_def split: write_op.splits intro!: bexI [of _ r])
    next
      case ss
      then have "is_source (sw_key e) r" using g by (auto simp: group_ok_def)
      moreover have "r \<in> set (stmt_waiters s)" using ss by (auto simp: stmt_waiters_def)
      ultimately show ?thesis using ss by (auto simp: req_defs split: write_op.splits intro!: bexI [of _ r])
    qed
  qed
  then show "\<exists>N. w_results w1 = w_results w @ N \<and>
      (\<forall>(i, x)\<in>set N. \<exists>r\<in>set (stmt_waiters s). i = rq_id r \<and>
         (\<exists>p q. rq_op r = WCheckpoint p q \<and> q \<le> mark_of (w_cpSeqs w) p \<or> (\<exists>n b. rq_op r = WSourceState p n b q)))"
    using res by blast
qed

lemma stmt_waiter_op:
  assumes "group_ok (a, Some s)" and "r \<in> set (stmt_waiters s)"
  shows "\<not> is_append r" and "is_rest r \<or> (\<exists>e\<in>set (st_checkpoints s). r \<in> set (cw_waiters e))
      \<or> (\<exists>k. is_source k r)"
proof -
  have 1: "is_rest r \<or> (\<exists>e\<in>set (st_checkpoints s). r \<in> set (cw_waiters e) \<and> is_checkpoint (cw_pipeline e) r)
      \<or> (\<exists>k. is_source k r)"
    using assms by (fastforce simp: group_ok_def stmt_waiters_def)
  then show "\<not> is_append r" by (auto simp: req_defs split: write_op.splits)
  show "is_rest r \<or> (\<exists>e\<in>set (st_checkpoints s). r \<in> set (cw_waiters e)) \<or> (\<exists>k. is_source k r)"
    using 1 by blast
qed

text \<open>One transaction on a state whose satisfied waiters are already resolved.\<close>

definition waiters_of :: "writeReq list \<Rightarrow> writeStatements option \<Rightarrow> writeReq list" where
  "waiters_of a st = a @ (case st of None \<Rightarrow> [] | Some s \<Rightarrow> stmt_waiters s)"

lemma committed_acks:
  assumes tx: "group_tx drv now w a st db = Inr (db', vals)" and g: "group_ok (a, st)"
    and ok: "acks_ok reqs db (w_cpSeqs w) R" and ids: "\<forall>j x. (j, x) \<in> set R \<longrightarrow> j < length reqs"
    and ops: "\<forall>r\<in>set (waiters_of a st). rq_id r < length reqs \<and> rq_op r = reqs ! rq_id r"
    and dist: "distinct (map rq_id a)"
  shows "acks_ok reqs db' (\<lambda>p. new_checkpoint (w_cpSeqs w) st p (w_cpSeqs w p))
    (R @ map (\<lambda>r. (rq_id r, Done (value_for vals r))) (waiters_of a st))"
proof (rule acks_ok_add [OF ok ids])
  let ?N = "map (\<lambda>r. (rq_id r, Done (value_for vals r))) (waiters_of a st)"
  note spec = group_tx_spec [OF tx g]
  have trim: "trimmed reqs (R @ ?N) (row_pipeline row) (row_seq row)" if trims: "trims (rests st) row" for row
  proof -
    obtain r thr where r: "r \<in> set (rests st)" "rq_op r = WDeleteSpoolThrough (row_pipeline row) thr" "row_seq row \<le> thr"
      using trims by (auto simp: trims_def)
    then have "r \<in> set (waiters_of a st)"
      by (auto simp: rests_def waiters_of_def stmt_waiters_def split: option.splits)
    with r ops show ?thesis by (force simp: trimmed_def)
  qed
  show "mark_of (w_cpSeqs w) p \<le> mark_of (\<lambda>p. new_checkpoint (w_cpSeqs w) st p (w_cpSeqs w p)) p" for p
    by (rule new_checkpoint_mono)
  show "tb_spool_seq db \<le> tb_spool_seq db'" using spec(1) by simp
  show "row \<in> set (tb_spool db') \<or> trimmed reqs (R @ ?N) (row_pipeline row) (row_seq row)"
    if "row \<in> set (tb_spool db)" for row
    using spec(3) [OF that] trim by blast
  show "ack_ok reqs db' (\<lambda>p. new_checkpoint (w_cpSeqs w) st p (w_cpSeqs w p)) (R @ ?N) i v"
    if iv: "(i, Done v) \<in> set ?N" for i v
  proof -
    obtain r where r: "r \<in> set (waiters_of a st)" "i = rq_id r" "v = value_for vals r" using iv by auto
    then have op: "reqs ! i = rq_op r" using ops by simp
    consider (app) k where "k < length a" "r = a ! k" | (stmt) s where "st = Some s" "r \<in> set (stmt_waiters s)"
      using r(1) by (auto simp: waiters_of_def in_set_conv_nth split: option.splits)
    then show ?thesis
    proof cases
      case app
      then have v: "v = tb_spool_seq db + 1 + int k" using spec(5) dist r by simp
      have "is_append r" using g app by (simp add: group_ok_def)
      then obtain p m t where pm: "rq_op r = WAppend p m t" by (auto simp: req_defs split: write_op.splits)
      have "row_of v p m t \<in> set (tb_spool db') \<or> trims (rests st) (row_of v p m t)"
        using spec(4) [of k p m t] app pm v by simp
      then show ?thesis using trim [of "row_of v p m t"] op pm v app spec(1)
        by (auto simp: ack_ok_def row_of_def)
    next
      case stmt
      then have g': "group_ok (a, Some s)" using g by simp
      note w = stmt_waiter_op [OF g' stmt(2)]
      show ?thesis
      proof (cases "rq_op r")
        case (WCheckpoint p q)
        with w(2) obtain e where e: "e \<in> set (st_checkpoints s)" "r \<in> set (cw_waiters e)" by (auto simp: req_defs)
        then have "is_checkpoint (cw_pipeline e) r" using g' by (auto simp: group_ok_def)
        then have "cw_pipeline e = p" using WCheckpoint by (simp add: req_defs)
        with new_checkpoint_covers [OF g' e, of "w_cpSeqs w"] WCheckpoint op stmt show ?thesis
          by (simp add: ack_ok_def req_defs)
      qed (use w(1) op in \<open>simp_all add: ack_ok_def req_defs\<close>)
    qed
  qed
qed

lemma committed_order:
  assumes tx: "group_tx drv now w a st db = Inr (db', vals)" and g: "group_ok (a, st)"
    and acks: "acks_ok reqs db cps R"
    and order: "order_ok reqs R (map rq_id a @ later)"
    and ops: "\<forall>r\<in>set (waiters_of a st). rq_op r = reqs ! rq_id r"
  shows "order_ok reqs (R @ map (\<lambda>r. (rq_id r, Done (value_for vals r))) (waiters_of a st)) later"
proof -
  have dist: "distinct (map rq_id a)" and sorted: "sorted_wrt (<) (map rq_id a)"
    and below: "\<forall>i\<in>set (map rq_id a). \<forall>j\<in>set later. i < j" and later: "sorted_wrt (<) later"
    using order by (auto simp: order_ok_def sorted_wrt_append strict_sorted_iff)
  have app: "\<exists>k<length a. r = a ! k \<and> value_for vals r = tb_spool_seq db + 1 + int k"
    if r: "r \<in> set (waiters_of a st)" and "reqs ! rq_id r = WAppend p m t" for r p m t
  proof -
    have "is_append r" using that ops by (simp add: req_defs)
    then have "r \<in> set a"
      using r stmt_waiter_op(1) g by (auto simp: waiters_of_def split: option.splits)
    then show ?thesis using group_tx_spec(5) [OF tx g dist] by (metis in_set_conv_nth)
  qed
  have old: "v \<le> tb_spool_seq db" if "(i, Done v) \<in> set R" "reqs ! i = WAppend p m t" for i v p m t
    using acks that by (force simp: acks_ok_def ack_ok_def)
  have mono: "rq_id (a ! k) < rq_id (a ! l) \<longleftrightarrow> k < l" if "k < length a" "l < length a" for k l
    using sorted_wrt_nth_less [OF sorted, of k l] sorted_wrt_nth_less [OF sorted, of l k] that
    by (cases k l rule: linorder_cases) auto
  show ?thesis
    unfolding order_ok_def
  proof (intro conjI allI impI ballI later)
    fix i v p m t j
    assume i: "(i, Done v) \<in> set (R @ map (\<lambda>r. (rq_id r, Done (value_for vals r))) (waiters_of a st))
      \<and> reqs ! i = WAppend p m t" and j: "j \<in> set later"
    show "i < j"
    proof (cases "(i, Done v) \<in> set R")
      case True
      then show ?thesis using order i j unfolding order_ok_def by auto
    next
      case False
      with i have "i \<in> rq_id ` set (waiters_of a st)" by auto
      then obtain r where "r \<in> set (waiters_of a st)" "i = rq_id r" by blast
      then have "\<exists>n<length a. r = a ! n" using app [of r p m t] i by blast
      then have "i \<in> set (map rq_id a)" using \<open>i = rq_id r\<close> by auto
      then show ?thesis using below j by blast
    qed
  next
    fix i v p m t k u p' m' t'
    assume i: "(i, Done v) \<in> set (R @ map (\<lambda>r. (rq_id r, Done (value_for vals r))) (waiters_of a st))
      \<and> reqs ! i = WAppend p m t"
      and k: "(k, Done u) \<in> set (R @ map (\<lambda>r. (rq_id r, Done (value_for vals r))) (waiters_of a st))
        \<and> reqs ! k = WAppend p' m' t' \<and> i < k"
    have new: "\<exists>n<length a. j = rq_id (a ! n) \<and> x = tb_spool_seq db + 1 + int n"
      if j: "(j, Done x) \<notin> set R" "(j, Done x) \<in> set (R @ map (\<lambda>r. (rq_id r, Done (value_for vals r))) (waiters_of a st))"
        "reqs ! j = WAppend p m t" for j x p m t
    proof -
      obtain r where "r \<in> set (waiters_of a st)" "j = rq_id r" "x = value_for vals r" using j(1,2) by auto
      then show ?thesis using app j(3) by blast
    qed
    consider (oo) "(i, Done v) \<in> set R" "(k, Done u) \<in> set R" | (on) "(i, Done v) \<in> set R" "(k, Done u) \<notin> set R"
      | (no) "(i, Done v) \<notin> set R" "(k, Done u) \<in> set R" | (nn) "(i, Done v) \<notin> set R" "(k, Done u) \<notin> set R" by blast
    then show "v < u"
    proof cases
      case oo
      then show ?thesis using order i k unfolding order_ok_def by blast
    next
      case on
      then show ?thesis using old i new k by fastforce
    next
      case no
      then obtain n where "n < length a" "i = rq_id (a ! n)" using new i by blast
      then have "k < i" using order no(2) k unfolding order_ok_def by fastforce
      then show ?thesis using k by simp
    next
      case nn
      obtain n where n: "n < length a" "i = rq_id (a ! n)" "v = tb_spool_seq db + 1 + int n"
        using new [OF nn(1)] i by blast
      obtain l where l: "l < length a" "k = rq_id (a ! l)" "u = tb_spool_seq db + 1 + int l"
        using new [OF nn(2)] k by blast
      have "n < l" using mono n l k by simp
      with n l show ?thesis by simp
    qed
  qed
qed

text \<open>A group's commit, with the satisfied waiters first.\<close>

lemma commitGroup_result:
  obtains (failed) N0 st1 e where "w_results (commitGroup drv now a st w)
        = w_results w @ N0 @ map (\<lambda>r. (rq_id r, Failed e)) (waiters_of a st1)"
      "w_db (commitGroup drv now a st w) = w_db w" "w_cpSeqs (commitGroup drv now a st w) = w_cpSeqs w"
      "case st of None \<Rightarrow> st1 = None \<and> N0 = [] | Some s \<Rightarrow> \<exists>s' w1. st1 = Some s' \<and> resolveSatisfied s w = (s', w1)
         \<and> w_results w1 = w_results w @ N0"
    | (committed) N0 st1 w1 db' vals where "w_results (commitGroup drv now a st w)
        = w_results w @ N0 @ map (\<lambda>r. (rq_id r, Done (value_for vals r))) (waiters_of a st1)"
      "w_db (commitGroup drv now a st w) = db'"
      "group_tx drv now w1 a st1 (w_db w) = Inr (db', vals)" "w_cpSeqs w1 = w_cpSeqs w" "\<not> w_closed w"
      "w_cpSeqs (commitGroup drv now a st w) = (case st1 of None \<Rightarrow> w_cpSeqs w
         | Some s \<Rightarrow> foldl (\<lambda>m cp. advance_mark (cw_pipeline cp) (cw_seq cp) m) (w_cpSeqs w) (st_checkpoints s))"
      "case st of None \<Rightarrow> st1 = None \<and> N0 = [] | Some s \<Rightarrow> \<exists>s' w1. st1 = Some s' \<and> resolveSatisfied s w = (s', w1)
         \<and> w_results w1 = w_results w @ N0"
proof -
  obtain st1 w1 N0 where pre: "(case st of None \<Rightarrow> (None, w)
      | Some s \<Rightarrow> (case resolveSatisfied s w of (s', w') \<Rightarrow> (Some s', w'))) = (st1, w1)"
    "w_results w1 = w_results w @ N0"
    "case st of None \<Rightarrow> st1 = None \<and> N0 = [] | Some s \<Rightarrow> \<exists>s' w1. st1 = Some s' \<and> resolveSatisfied s w = (s', w1)
         \<and> w_results w1 = w_results w @ N0"
    "w_db w1 = w_db w" "w_cpSeqs w1 = w_cpSeqs w" "w_closed w1 = w_closed w"
  proof (cases st)
    case None
    then show ?thesis using that [of None w "[]"] by simp
  next
    case (Some s)
    obtain s' w1 where r: "resolveSatisfied s w = (s', w1)" by fastforce
    have "\<exists>N0. w_results w1 = w_results w @ N0"
      using r by (auto simp: resolveSatisfied_def Let_def resolve_all_def)
    then show ?thesis using that [of "Some s'" w1] Some r resolveSatisfied_frame [OF r] by auto
  qed
  have w: "a @ (case st1 of None \<Rightarrow> [] | Some s \<Rightarrow> stmt_waiters s) = waiters_of a st1" by (simp add: waiters_of_def)
  show ?thesis
  proof (cases "withTx drv (w_closed w1) (group_tx drv now w1 a st1) (w_db w1)")
    case (Inl e)
    then have c: "commitGroup drv now a st w
        = resolve_all (waiters_of a st1) (Failed (''store: write batch: '' @ e)) w1"
      unfolding commitGroup_def pre(1) by (simp add: Let_def w)
    show ?thesis
      by (rule failed [of N0 "''store: write batch: '' @ e" st1])
        (use pre in \<open>simp_all add: c resolve_all_def\<close>)
  next
    case (Inr res)
    obtain db' vals where res: "res = (db', vals)" by fastforce
    let ?w2 = "case st1 of None \<Rightarrow> w1\<lparr>w_db := db'\<rparr> | Some s \<Rightarrow> applyMarks s (w1\<lparr>w_db := db'\<rparr>)"
    have c: "commitGroup drv now a st w = ?w2\<lparr>w_results := w_results ?w2
        @ map (\<lambda>r. (rq_id r, Done (value_for vals r))) (waiters_of a st1)\<rparr>"
      using Inr res unfolding commitGroup_def pre(1) by (simp add: Let_def w)
    have tx: "group_tx drv now w1 a st1 (w_db w1) = Inr (db', vals)" "\<not> w_closed w1"
      using Inr res by (auto simp: withTx_def split: option.splits sum.splits if_splits)
    show ?thesis
      by (rule committed [of N0 vals st1 db' w1])
        (use pre tx in \<open>simp_all add: c applyMarks_def split: option.split\<close>)
  qed
qed

lemma wr_ok_commit:
  assumes ok: "wr_ok w"
  shows "wr_ok (commit_next drv now w)"
proof (cases "w_groups w")
  case Nil
  then show ?thesis using ok by (simp add: commit_next_def)
next
  case (Cons grp gs)
  obtain a st where grp: "grp = (a, st)" by fastforce
  let ?w = "commit_next drv now w" and ?c = "commitGroup drv now a st w"
  have inv: "wr_inv w" and inv': "wr_inv ?w" and g: "group_ok (a, st)" and ops: "ops_ok_w w"
    using ok wr_inv_commit Cons grp by (auto simp: wr_ok_def)
  have w: "w_reqs ?w = w_reqs w" "w_groups ?w = gs" "w_batch ?w = w_batch w" "w_queue ?w = w_queue w"
    "w_opts ?w = w_opts w" "w_results ?w = w_results ?c" "w_db ?w = w_db ?c" "w_cpSeqs ?w = w_cpSeqs ?c"
    by (simp_all add: commit_next_def Cons grp commitGroup_frame)
  have app: "pend_appends w = a @ pend_appends ?w" by (simp add: pend_appends_def w Cons grp)
  have pend: "set (pending_reqs ?w) \<subseteq> set (pending_reqs w)" by (auto simp: pending_reqs_def w Cons)
  have mine: "set (waiters_of a st) \<subseteq> set (pending_reqs w)"
    by (cases st) (auto simp: pending_reqs_def waiters_of_def Cons grp)
  note ids = wr_inv_ids(1) [OF inv]
  have order0: "order_ok (w_reqs w) (w_results w) (map rq_id a @ map rq_id (pend_appends ?w))"
    and acks0: "acks_ok (w_reqs w) (w_db w) (w_cpSeqs w) (w_results w)"
    and marks0: "marks_ok (w_cpSeqs w) (w_db w)"
    using ok by (simp_all add: wr_ok_def app)
  \<comment> \<open>the satisfied waiters\<close>
  have pre: "group_ok (a, st1) \<and> set (waiters_of a st1) \<subseteq> set (pending_reqs w)
      \<and> order_ok (w_reqs w) (w_results w @ N0) (map rq_id a @ map rq_id (pend_appends ?w))
      \<and> acks_ok (w_reqs w) (w_db w) (w_cpSeqs w) (w_results w @ N0)
      \<and> (\<forall>j x. (j, x) \<in> set (w_results w @ N0) \<longrightarrow> j < length (w_reqs w))"
    if st1: "case st of None \<Rightarrow> st1 = None \<and> N0 = [] | Some s \<Rightarrow> \<exists>s' w1. st1 = Some s' \<and> resolveSatisfied s w = (s', w1)
         \<and> w_results w1 = w_results w @ N0" for st1 N0
  proof (cases st)
    case None
    then show ?thesis using st1 g mine order0 acks0 ids by auto
  next
    case (Some s)
    then obtain s' w1 where r: "st1 = Some s'" "resolveSatisfied s w = (s', w1)" "w_results w1 = w_results w @ N0"
      using st1 by auto
    note rs = resolveSatisfied_ok [OF r(2) g [unfolded Some]]
    have N0: "\<exists>r\<in>set (stmt_waiters s). i = rq_id r \<and>
         (\<exists>p q. rq_op r = WCheckpoint p q \<and> q \<le> mark_of (w_cpSeqs w) p \<or> (\<exists>n b. rq_op r = WSourceState p n b q))"
      if "(i, x) \<in> set N0" for i x
      using rs(4) r(3) that by auto
    have sub: "set (stmt_waiters s) \<subseteq> set (pending_reqs w)" using mine Some by (auto simp: waiters_of_def)
    have N0': "i < length (w_reqs w) \<and> (\<exists>p q. w_reqs w ! i = WCheckpoint p q \<and> q \<le> mark_of (w_cpSeqs w) p
        \<or> (\<exists>n b. w_reqs w ! i = WSourceState p n b q))" if "(i, x) \<in> set N0" for i x
      using N0 [OF that] sub ops unfolding ops_ok_w_def by (metis subsetD)
    have "acks_ok (w_reqs w) (w_db w) (w_cpSeqs w) (w_results w @ N0)"
      by (rule acks_ok_add [OF acks0]) (use ids N0' in \<open>fastforce simp: ack_ok_def\<close>)+
    moreover have "order_ok (w_reqs w) (w_results w @ N0) (map rq_id a @ map rq_id (pend_appends ?w))"
      by (rule order_ok_no_append [OF order0]) (use N0' in fastforce)
    moreover have "set (waiters_of a st1) \<subseteq> set (pending_reqs w)"
      using rs(2) mine Some r(1) by (auto simp: waiters_of_def)
    ultimately show ?thesis using rs(1) r(1) ids N0' by auto
  qed
  have ops': "ops_ok_w ?w" using ops pend by (auto simp: ops_ok_w_def w)
  have "marks_ok (w_cpSeqs ?c) (w_db ?c) \<and> acks_ok (w_reqs w) (w_db ?c) (w_cpSeqs ?c) (w_results ?c)
     \<and> order_ok (w_reqs w) (w_results ?c) (map rq_id (pend_appends ?w))"
  proof (cases rule: commitGroup_result [of drv now a st w])
    case (failed N0 st1 e)
    note p = pre [OF failed(4)]
    then have o: "order_ok (w_reqs w) (w_results w @ N0) (map rq_id a @ map rq_id (pend_appends ?w))" by blast
    then have "sorted_wrt (<) (map rq_id (pend_appends ?w))"
      unfolding order_ok_def sorted_wrt_append by blast
    from order_ok_shrink [OF o this]
    have "order_ok (w_reqs w) (w_results w @ N0) (map rq_id (pend_appends ?w))" by simp
    then have "order_ok (w_reqs w) ((w_results w @ N0) @ map (\<lambda>r. (rq_id r, Failed e)) (waiters_of a st1))
        (map rq_id (pend_appends ?w))"
      by (rule order_ok_no_append) auto
    moreover have "acks_ok (w_reqs w) (w_db w) (w_cpSeqs w)
        ((w_results w @ N0) @ map (\<lambda>r. (rq_id r, Failed e)) (waiters_of a st1))"
      by (rule acks_ok_failed) (use p in auto)
    ultimately show ?thesis using marks0 unfolding failed(1-3) append_assoc by blast
  next
    case (committed N0 st1 w1 db' vals)
    note p = pre [OF committed(7)]
    then have g1: "group_ok (a, st1)" by blast
    have ops1: "\<forall>r\<in>set (waiters_of a st1). rq_id r < length (w_reqs w) \<and> rq_op r = w_reqs w ! rq_id r"
      using p ops by (auto simp: ops_ok_w_def)
    have dist: "distinct (map rq_id a)" using p by (auto simp: order_ok_def sorted_wrt_append strict_sorted_iff)
    have cps: "w_cpSeqs ?c = (\<lambda>q. new_checkpoint (w_cpSeqs w) st1 q (w_cpSeqs w q))"
      using g1 committed(6) by (auto simp: fun_eq_iff new_marks new_checkpoint_def split: option.split)
    have "marks_ok (\<lambda>q. new_checkpoint (w_cpSeqs w) st1 q (w_cpSeqs w q)) db'"
      using marks0 group_tx_spec(2) [OF committed(3) g1] committed(4) by (intro marks_ok_new) simp_all
    moreover have "acks_ok (w_reqs w) db' (\<lambda>q. new_checkpoint (w_cpSeqs w) st1 q (w_cpSeqs w q))
        ((w_results w @ N0) @ map (\<lambda>r. (rq_id r, Done (value_for vals r))) (waiters_of a st1))"
      using committed_acks [OF committed(3) g1 _ _ ops1 dist, of "w_results w @ N0"] p committed(4) by simp
    moreover have "order_ok (w_reqs w) ((w_results w @ N0) @ map (\<lambda>r. (rq_id r, Done (value_for vals r))) (waiters_of a st1))
        (map rq_id (pend_appends ?w))"
      using committed_order [OF committed(3) g1, of "w_reqs w" "w_cpSeqs w" "w_results w @ N0"] p ops1 by blast
    ultimately show ?thesis unfolding committed(1,2) cps by simp
  qed
  then show ?thesis
    using ok inv' ops' Cons unfolding wr_ok_def w by auto
qed

lemma wr_ok_apply: "wr_ok w \<Longrightarrow> wr_ok (wr_apply e w)"
  by (cases e) (simp_all add: wr_ok_enqueue wr_ok_takeAll wr_ok_probe wr_ok_execute wr_ok_commit wr_ok_shutdown)

lemma wr_ok_run: "wr_ok w \<Longrightarrow> wr_ok (fold wr_apply es w)"
  by (induction es arbitrary: w) (auto intro: wr_ok_apply)

section \<open>The marks never move back\<close>

lemma advance_fold_mono: "mark_of m p \<le> mark_of (foldl (\<lambda>m cp. advance_mark (k cp) (v cp) m) m cps) p"
proof (induction cps arbitrary: m)
  case (Cons c cps)
  have "mark_of m p \<le> mark_of (advance_mark (k c) (v c) m) p"
    by (auto simp: advance_mark_def mark_of_def)
  also have "\<dots> \<le> mark_of (foldl (\<lambda>m cp. advance_mark (k cp) (v cp) m) m (c # cps)) p"
    using Cons.IH by simp
  finally show ?case .
qed simp

lemma commitGroup_marks_mono: "mark_of (w_cpSeqs w) p \<le> mark_of (w_cpSeqs (commitGroup drv now a st w)) p"
  by (cases rule: commitGroup_result [of drv now a st w]) (auto simp: advance_fold_mono split: option.splits)

interpretation writer_mark: high_water_mark "\<lambda>w. mark_of (w_cpSeqs w) p" wr_apply for p
proof (unfold_locales, goal_cases)
  case (1 w e)
  show ?case
  proof (cases e)
    case (Commit drv now)
    then show ?thesis
      by (auto simp: commit_next_def commitGroup_marks_mono split: list.split)
  qed (auto simp: enqueue_def Let_def takeAll_def collect_probe_def execute_def shutdown_def)
qed

inductive wr_step :: "writer \<Rightarrow> writer \<Rightarrow> bool" where
  "wr_step w (wr_apply e w)"

interpretation writer_runs: inductive_invariant "\<lambda>w. \<exists>db opts. w = newWriter db (normalized opts)" wr_step wr_ok
proof (unfold_locales, goal_cases)
  case (1 w)
  then show ?case using normalized_MaxRows by (auto intro: wr_ok_new)
next
  case (2 w w')
  then show ?case by (auto elim!: wr_step.cases intro: wr_ok_apply)
qed

lemma reachable_fold:
  "reachable (\<lambda>w. \<exists>db opts. w = newWriter db (normalized opts)) wr_step (fold wr_apply es (newWriter db (normalized opts)))"
proof (induction es rule: rev_induct)
  case Nil
  show ?case by (auto intro: reach_init)
next
  case (snoc e es)
  then show ?case by (auto intro: reach_step wr_step.intros)
qed

section \<open>Properties of the writer\<close>

text \<open>
  C9. Every write request is answered exactly once: after any interleaving of enqueues, drains,
  probes, plans, transactions (with any driver failures) and a shutdown, no request has two
  answers, and once nothing is queued or in flight every request ever allocated has one.
\<close>

theorem every_request_answered_once:
  "distinct (map fst (w_results (fold wr_apply es (newWriter db (normalized opts)))))
   \<and> (pending_reqs (fold wr_apply es (newWriter db (normalized opts))) = [] \<longrightarrow>
      set (map fst (w_results (fold wr_apply es (newWriter db (normalized opts)))))
        = {0..<length (w_reqs (fold wr_apply es (newWriter db (normalized opts))))})"
proof -
  let ?w = "fold wr_apply es (newWriter db (normalized opts))"
  have "wr_ok ?w" by (rule writer_runs.reachable_inv [OF reachable_fold])
  then have inv: "wr_inv ?w" by (simp add: wr_ok_def)
  then have acc: "mset (map rq_id (pending_reqs ?w)) + mset (map fst (w_results ?w)) = mset [0..<length (w_reqs ?w)]"
    unfolding wr_inv_def accounted_def by (rule conjunct1)
  have "set (map fst (w_results ?w)) = {0..<length (w_reqs ?w)}" if nil: "pending_reqs ?w = []"
  proof -
    have "mset (map fst (w_results ?w)) = mset [0..<length (w_reqs ?w)]"
      using acc unfolding nil by (simp only: list.map mset.simps add_0_left)
    then show ?thesis by (metis mset_eq_setD set_upt)
  qed
  with wr_inv_ids(2) [OF inv] show ?thesis by simp
qed

text \<open>A checkpoint request that a shutdown refuses: request 0 has its one answer.\<close>

theorem every_request_answered_once_witness:
  "set (map fst (w_results (fold wr_apply [Enqueue (WCheckpoint ''p'' 4), Shutdown]
     (newWriter emptyDB (normalized DefaultWriteOptions))))) = {0}"
proof -
  let ?w = "fold wr_apply [Enqueue (WCheckpoint ''p'' 4), Shutdown] (newWriter emptyDB (normalized DefaultWriteOptions))"
  have p: "pending_reqs ?w = []" and n: "length (w_reqs ?w) = 1"
    by (simp_all add: pending_reqs_def enqueue_def newWriter_def shutdown_def)
  show ?thesis using every_request_answered_once [THEN conjunct2, THEN mp, OF p] n by simp
qed

text \<open>
  C8. An acknowledged append is durable and in queue order: its answer is the sequence under which
  its row is in the spool table, unless a trim of the pipeline that covers the sequence was
  acknowledged; and of two acknowledged appends the one queued first has the smaller sequence.
\<close>

theorem acknowledged_appends_durable:
  assumes "w = fold wr_apply es (newWriter db (normalized opts))"
    and "(i, Done v) \<in> set (w_results w)" and "w_reqs w ! i = WAppend p m t"
  shows "(row_of v p m t \<in> set (tb_spool (w_db w)) \<or>
      (\<exists>j n thr. (j, Done n) \<in> set (w_results w) \<and> w_reqs w ! j = WDeleteSpoolThrough p thr \<and> v \<le> thr))
    \<and> (\<forall>k u p' m' t'. (k, Done u) \<in> set (w_results w) \<and> w_reqs w ! k = WAppend p' m' t' \<and> i < k \<longrightarrow> v < u)"
proof -
  have "wr_ok w" unfolding assms(1) by (rule writer_runs.reachable_inv [OF reachable_fold])
  then have "ack_ok (w_reqs w) (w_db w) (w_cpSeqs w) (w_results w) i v"
    and "order_ok (w_reqs w) (w_results w) (map rq_id (pend_appends w))"
    using assms(2) by (simp_all add: wr_ok_def acks_ok_def)
  note this [unfolded ack_ok_def assms(3) write_op.case trimmed_def] this(2) [unfolded order_ok_def]
  then have "row_of v p m t \<in> set (tb_spool (w_db w)) \<or>
      (\<exists>j n thr. (j, Done n) \<in> set (w_results w) \<and> w_reqs w ! j = WDeleteSpoolThrough p thr \<and> v \<le> thr)"
    and "\<forall>k u p' m' t'. (k, Done u) \<in> set (w_results w) \<and> w_reqs w ! k = WAppend p' m' t' \<and> i < k \<longrightarrow> v < u"
    using assms(2,3) by blast+
  then show ?thesis by blast
qed

text \<open>
  C14. An acknowledged checkpoint is durable: the stored checkpoint of the pipeline is at least the
  acknowledged value (a coalesced or superseded request is covered by the larger value), and no
  later event takes it back.
\<close>

theorem acknowledged_checkpoints_durable:
  assumes "w = fold wr_apply es (newWriter db (normalized opts))"
    and "(i, Done v) \<in> set (w_results w)" and "w_reqs w ! i = WCheckpoint p q" and "0 < q"
  shows "q \<le> sql_Checkpoint p (w_db (fold wr_apply es' w))"
proof -
  let ?w' = "fold wr_apply es' w"
  have ok: "wr_ok w" unfolding assms(1) by (rule writer_runs.reachable_inv [OF reachable_fold])
  then have "ack_ok (w_reqs w) (w_db w) (w_cpSeqs w) (w_results w) i v"
    using assms(2) by (simp add: wr_ok_def acks_ok_def)
  then have "q \<le> mark_of (w_cpSeqs w) p" using assms(3) by (simp add: ack_ok_def)
  also have "\<dots> \<le> mark_of (w_cpSeqs ?w') p" by (rule writer_mark.run_mono)
  finally have q: "q \<le> mark_of (w_cpSeqs ?w') p" .
  moreover have "marks_ok (w_cpSeqs ?w') (w_db ?w')" using wr_ok_run [OF ok] by (simp add: wr_ok_def)
  ultimately show ?thesis
    using assms(4) by (auto simp: mark_of_def marks_ok_def sql_Checkpoint_def split: option.splits)
qed


text \<open>One append, committed by a driver that never fails.\<close>

lemmas writer_eval = enqueue_def takeAll_def execute_def collecting_def planWriteBatch_def commit_next_def
  commitGroup_def resolveSatisfied_def withTx_def group_tx_def insertSpoolRows_def insertSpool_def
  execStatements_def value_for_def waiters_of_def stmt_waiters_def applyMarks_def resolve_all_def
  newWriter_def normalized_def satisfied_cp_def satisfied_ss_def advance_mark_def mark_of_def
  upsertCheckpoint_def upsertSourceState_def Let_def

theorem acknowledged_appends_durable_witness:
  "row_of 1 ''p'' zero_message 5 \<in> set (tb_spool (w_db (fold wr_apply
     [Enqueue (WAppend ''p'' zero_message 5), Take, Plan, Commit (\<lambda>_. None) 0]
     (newWriter emptyDB (normalized \<lparr>MaxRows = 4, MaxWait = 0, hasOnBatch = False\<rparr>)))))"
proof -
  let ?es = "[Enqueue (WAppend ''p'' zero_message 5), Take, Plan, Commit (\<lambda>_. None) 0]"
  let ?w = "fold wr_apply ?es (newWriter emptyDB (normalized \<lparr>MaxRows = 4, MaxWait = 0, hasOnBatch = False\<rparr>))"
  have w: "w_results ?w = [(0, Done 1)]" "w_reqs ?w = [WAppend ''p'' zero_message 5]"
    by (simp_all add: writer_eval emptyDB_def maxWriteBatchRows_def)
  have "(0, Done 1) \<in> set (w_results ?w)" "w_reqs ?w ! 0 = WAppend ''p'' zero_message 5"
    unfolding w by simp_all
  from acknowledged_appends_durable [OF refl this] show ?thesis unfolding w by auto
qed

theorem acknowledged_checkpoints_durable_witness:
  "7 \<le> sql_Checkpoint ''p'' (w_db (fold wr_apply [Shutdown] (fold wr_apply
     [Enqueue (WCheckpoint ''p'' 7), Take, Plan, Commit (\<lambda>_. None) 0]
     (newWriter emptyDB (normalized \<lparr>MaxRows = 4, MaxWait = 0, hasOnBatch = False\<rparr>)))))"
proof -
  let ?es = "[Enqueue (WCheckpoint ''p'' 7), Take, Plan, Commit (\<lambda>_. None) 0]"
  let ?w = "fold wr_apply ?es (newWriter emptyDB (normalized \<lparr>MaxRows = 4, MaxWait = 0, hasOnBatch = False\<rparr>))"
  have w: "w_results ?w = [(0, Done 0)]" "w_reqs ?w = [WCheckpoint ''p'' 7]"
    by (simp_all add: writer_eval emptyDB_def maxWriteBatchRows_def)
  have "(0, Done 0) \<in> set (w_results ?w)" "w_reqs ?w ! 0 = WCheckpoint ''p'' 7"
    unfolding w by simp_all
  from acknowledged_checkpoints_durable [OF refl this, of "[Shutdown]"] show ?thesis by simp
qed



end
