(* ===== verification/SqliteStore.thy ===== *)
theory SqliteStore
  imports WriterSpec
begin

text \<open>
  The SQLite store as one client sees it: a call enqueues its request and blocks until the writer
  answered it, so on an idle open store with a working driver a call is the writer's whole cycle.
  The store meets the spool contract, it agrees with the in-memory store call by call, and the one
  place where the two differ (a source state at or below the writer's mark) is stated as a theorem.
\<close>

section \<open>One blocking call\<close>

definition sql_do :: "gotime \<Rightarrow> write_op \<Rightarrow> writer \<Rightarrow> writer" where
  "sql_do now x w = fold wr_apply ([Enqueue x, Take] @ replicate 16 Probe @ [Plan, Commit (\<lambda>_. None) now]) w"

definition idle :: "writer \<Rightarrow> bool" where
  "idle w \<longleftrightarrow> w_queue w = [] \<and> w_batch w = [] \<and> w_groups w = [] \<and> \<not> w_closed w \<and> 1 \<le> MaxRows (w_opts w)"

definition no_stmts :: writeStatements where
  "no_stmts = \<lparr>st_checkpoints = [], st_sourceStates = [], st_rest = []\<rparr>"

definition single_group :: "writeReq \<Rightarrow> writeReq list \<times> writeStatements option" where
  "single_group r = (case rq_op r of
      WAppend _ _ _ \<Rightarrow> ([r], Some no_stmts)
    | WCheckpoint p q \<Rightarrow> ([], Some (no_stmts\<lparr>st_checkpoints := [\<lparr>cw_pipeline = p, cw_seq = q, cw_waiters = [r]\<rparr>]\<rparr>))
    | WSourceState p n s q \<Rightarrow> ([], Some (no_stmts\<lparr>st_sourceStates :=
        [\<lparr>sw_pipeline = p, sw_source = n, sw_state = s, sw_srcSeq = q, sw_waiters = [r]\<rparr>]\<rparr>))
    | _ \<Rightarrow> ([], Some (no_stmts\<lparr>st_rest := [r]\<rparr>)))"

lemma probes_drain:
  assumes "w_queue w = []" and "\<not> w_closed w" and "w_probes w \<le> int n" and "w_batch w \<noteq> []"
  shows "\<exists>k. fold wr_apply (replicate n Probe) w = w\<lparr>w_probes := k\<rparr> \<and> \<not> collecting (w\<lparr>w_probes := k\<rparr>)"
  using assms
proof (induction n arbitrary: w)
  case 0
  then show ?case by (intro exI [of _ "w_probes w"]) (simp add: collecting_def)
next
  case (Suc n)
  let ?w = "collect_probe w"
  show ?case
  proof (cases "w_batch w \<noteq> [] \<and> 0 < w_probes w \<and> int (length (w_batch w)) < MaxRows (w_opts w)")
    case True
    then have w: "?w = w\<lparr>w_probes := w_probes w - 1\<rparr>"
      using Suc.prems by (simp add: collect_probe_def)
    with Suc.IH [of ?w] Suc.prems show ?thesis by auto
  next
    case False
    then have w: "?w = w" by (auto simp: collect_probe_def)
    have "\<exists>k. fold wr_apply (replicate m Probe) w = w\<lparr>w_probes := k\<rparr> \<and> k = w_probes w" for m
      using w by (induction m) auto
    then have rep: "fold wr_apply (replicate m Probe) w = w" for m by force
    have "\<not> collecting w" using False Suc.prems(4) by (auto simp: collecting_def)
    then show ?thesis using rep [of "Suc n"] by (intro exI [of _ "w_probes w"]) simp
  qed
qed

lemma planWriteBatch_single:
  assumes "1 \<le> maxRows"
  shows "planWriteBatch [r] maxRows = \<lparr>wp_appends = (if is_append r then [[r]] else []),
     wp_stmts = the (snd (single_group r))\<rparr>"
  using assms by (cases "rq_op r")
    (auto simp: planWriteBatch_def Let_def single_group_def no_stmts_def is_append_def)

lemma sql_do_eq:
  assumes "idle w"
  shows "sql_do now x w = (case single_group \<lparr>rq_id = length (w_reqs w), rq_op = x\<rparr> of (a, st) \<Rightarrow>
    commitGroup (\<lambda>_. None) now a st (w\<lparr>w_reqs := w_reqs w @ [x], w_probes := 0,
      w_groups := [single_group \<lparr>rq_id = length (w_reqs w), rq_op = x\<rparr>]\<rparr>)\<lparr>w_groups := []\<rparr>)"
proof -
  let ?r = "\<lparr>rq_id = length (w_reqs w), rq_op = x\<rparr>"
  let ?probes = "if MaxWait (w_opts w) \<le> 0 \<or> 1 \<ge> MaxRows (w_opts w) then 0 else companionProbes (MaxWait (w_opts w))"
  let ?w1 = "w\<lparr>w_reqs := w_reqs w @ [x], w_batch := [?r], w_probes := ?probes\<rparr>"
  have taken: "fold wr_apply [Enqueue x, Take] w = ?w1"
    using assms by (simp add: idle_def enqueue_def takeAll_def Let_def)
  have "?probes \<le> int 16" by (simp add: companionProbes_def Let_def)
  then obtain k where k: "fold wr_apply (replicate 16 Probe) ?w1 = ?w1\<lparr>w_probes := k\<rparr>" "\<not> collecting (?w1\<lparr>w_probes := k\<rparr>)"
    using probes_drain [of ?w1 16] assms by (auto simp: idle_def)
  have g: "single_group ?r = ((if is_append ?r then [?r] else []), Some (the (snd (single_group ?r))))"
    by (cases x) (auto simp: single_group_def is_append_def)
  have "execute (?w1\<lparr>w_probes := k\<rparr>) = w\<lparr>w_reqs := w_reqs w @ [x], w_probes := 0, w_groups := [single_group ?r]\<rparr>"
    using k(2) assms by (subst g) (auto simp: execute_def idle_def planWriteBatch_single Let_def)
  then have "sql_do now x w = commit_next (\<lambda>_. None) now
      (w\<lparr>w_reqs := w_reqs w @ [x], w_probes := 0, w_groups := [single_group ?r]\<rparr>)"
    using taken k(1) by (simp add: sql_do_def del: replicate.simps fold_simps)
  then show ?thesis by (simp add: commit_next_def split: prod.split)
qed

text \<open>The effect of each kind of call.\<close>

definition answer :: "writer \<Rightarrow> go_error + int" where
  "answer w = (case snd (List.last (w_results w)) of Done v \<Rightarrow> Inr v | Failed e \<Rightarrow> Inl e)"

lemmas single_eval = sql_do_eq single_group_def no_stmts_def commitGroup_def resolveSatisfied_def
  withTx_def group_tx_def insertSpoolRows_def execStatements_def value_for_def stmt_waiters_def
  applyMarks_def resolve_all_def satisfied_cp_def satisfied_ss_def advance_mark_def Let_def idle_def answer_def

lemma sql_do_append:
  assumes "idle w"
  shows "idle (sql_do now (WAppend p m t) w)"
    and "w_db (sql_do now (WAppend p m t) w) = fst (insertSpool [(p, m, t)] (w_db w))"
    and "w_cpSeqs (sql_do now (WAppend p m t) w) = w_cpSeqs w"
    and "w_srcSeqs (sql_do now (WAppend p m t) w) = w_srcSeqs w"
    and "answer (sql_do now (WAppend p m t) w) = Inr (tb_spool_seq (w_db w) + 1)"
  using assms by (simp_all add: single_eval insertSpool_def)

lemma sql_do_checkpoint:
  assumes "idle w"
  shows "idle (sql_do now (WCheckpoint p q) w)"
    and "w_db (sql_do now (WCheckpoint p q) w)
      = (if q > mark_of (w_cpSeqs w) p then upsertCheckpoint p q (w_db w) else w_db w)"
    and "w_cpSeqs (sql_do now (WCheckpoint p q) w) = advance_mark p q (w_cpSeqs w)"
    and "w_srcSeqs (sql_do now (WCheckpoint p q) w) = w_srcSeqs w"
    and "answer (sql_do now (WCheckpoint p q) w) = Inr 0"
  using assms by (simp_all add: single_eval)

lemma sql_do_source:
  assumes "idle w"
  shows "idle (sql_do now (WSourceState p n s q) w)"
    and "w_db (sql_do now (WSourceState p n s q) w)
      = (if q > mark_of (w_srcSeqs w) (sourceKey p n) then upsertSourceState p n s q (w_db w) else w_db w)"
    and "w_cpSeqs (sql_do now (WSourceState p n s q) w) = w_cpSeqs w"
    and "w_srcSeqs (sql_do now (WSourceState p n s q) w) = advance_mark (sourceKey p n) q (w_srcSeqs w)"
    and "answer (sql_do now (WSourceState p n s q) w) = Inr 0"
  using assms by (simp_all add: single_eval)

definition rest_result :: "gotime \<Rightarrow> write_op \<Rightarrow> sqliteDB \<Rightarrow> go_error + sqliteDB \<times> int" where
  "rest_result now x db = execWriteRequest (\<lambda>_. None) now \<lparr>rq_id = 0, rq_op = x\<rparr> db"

lemma execWriteRequest_id:
  "execWriteRequest (\<lambda>_. None) now \<lparr>rq_id = i, rq_op = x\<rparr> db = rest_result now x db"
  by (simp add: rest_result_def execWriteRequest_def)

definition is_rest_op :: "write_op \<Rightarrow> bool" where
  "is_rest_op x = is_rest \<lparr>rq_id = 0, rq_op = x\<rparr>"

lemma sql_do_rest:
  assumes "idle w" and "is_rest_op x"
  shows "idle (sql_do now x w)"
    and "w_db (sql_do now x w) = (case rest_result now x (w_db w) of Inl e \<Rightarrow> w_db w | Inr (db', n) \<Rightarrow> db')"
    and "w_cpSeqs (sql_do now x w) = w_cpSeqs w"
    and "w_srcSeqs (sql_do now x w) = w_srcSeqs w"
    and "answer (sql_do now x w) = (case rest_result now x (w_db w) of
        Inl e \<Rightarrow> Inl (''store: write batch: '' @ e) | Inr (db', n) \<Rightarrow> Inr n)"
proof -
  have g: "single_group \<lparr>rq_id = i, rq_op = x\<rparr> = ([], Some (no_stmts\<lparr>st_rest := [\<lparr>rq_id = i, rq_op = x\<rparr>]\<rparr>))" for i
    using assms(2) by (cases x) (simp_all add: is_rest_op_def is_rest_def single_group_def)
  have c: "sql_do now x w = commitGroup (\<lambda>_. None) now [] (Some (no_stmts\<lparr>st_rest := [\<lparr>rq_id = length (w_reqs w), rq_op = x\<rparr>]\<rparr>))
      (w\<lparr>w_reqs := w_reqs w @ [x], w_probes := 0, w_groups := [single_group \<lparr>rq_id = length (w_reqs w), rq_op = x\<rparr>]\<rparr>)
      \<lparr>w_groups := []\<rparr>"
    by (subst sql_do_eq [OF assms(1)]) (subst g, simp)
  note e = commitGroup_def resolveSatisfied_def withTx_def group_tx_def execStatements_def value_for_def
    stmt_waiters_def applyMarks_def resolve_all_def Let_def idle_def answer_def no_stmts_def execWriteRequest_id
  show "idle (sql_do now x w)" using assms(1) unfolding c by (auto simp: e split: sum.split)
  show "w_db (sql_do now x w) = (case rest_result now x (w_db w) of Inl e \<Rightarrow> w_db w | Inr (db', n) \<Rightarrow> db')"
    using assms(1) unfolding c by (auto simp: e split: sum.split)
  show "w_cpSeqs (sql_do now x w) = w_cpSeqs w" "w_srcSeqs (sql_do now x w) = w_srcSeqs w"
    using assms(1) unfolding c by (auto simp: e split: sum.split)
  show "answer (sql_do now x w) = (case rest_result now x (w_db w) of
        Inl e \<Rightarrow> Inl (''store: write batch: '' @ e) | Inr (db', n) \<Rightarrow> Inr n)"
    using assms(1) unfolding c by (auto simp: e split: sum.split)
qed

section \<open>The SQLite store meets the spool contract\<close>

definition sq_inv :: "writer \<Rightarrow> bool" where
  "sq_inv w \<longleftrightarrow> idle w \<and> db_inv (w_db w) \<and> marks_ok (w_cpSeqs w) (w_db w) \<and> (\<forall>p. 0 \<le> sql_Checkpoint p (w_db w))"

lemma db_inv_insertSpool: "db_inv db \<Longrightarrow> db_inv (fst (insertSpool [(p, m, t)] db))"
  by (force simp: db_inv_def insertSpool_def Let_def sorted_wrt_append)

lemma db_inv_upserts: "db_inv db \<Longrightarrow> db_inv (upsertCheckpoint p q db)"
  "db_inv db \<Longrightarrow> db_inv (upsertSourceState p n s q db)"
  by (simp_all add: db_inv_def upsertCheckpoint_def upsertSourceState_def)

lemma db_inv_deleteDL: "db_inv db \<Longrightarrow> db_inv (fst (deleteDL sel db))"
  by (auto simp: db_inv_def deleteDL_def)

lemma rest_result_frame:
  assumes "rest_result now x db = Inr (db', n)" and "db_inv db"
  shows "db_inv db'" and "tb_checkpoint db' = tb_checkpoint db" and "tb_source_state db' = tb_source_state db"
proof -
  note defs = rest_result_def execWriteRequest_def
  have "db_inv db' \<and> tb_checkpoint db' = tb_checkpoint db \<and> tb_source_state db' = tb_source_state db"
  proof (cases x)
    case (WDeadLetter d)
    then show ?thesis using assms by (force simp: defs db_inv_def insertDeadLetter_def Let_def sorted_wrt_append)
  next
    case (WDeleteDeadLettersBefore p t)
    then have "db' = db\<lparr>tb_dead_letter := filter (\<lambda>d. \<not> expired p t d) (tb_dead_letter db)\<rparr>"
      using assms by (simp add: defs deleteDeadLettersBefore_def dlq_sweep_loop_once)
    then show ?thesis using assms(2) by (auto simp: db_inv_def)
  next
    case (WCreateJobRun jr)
    have "jr_RunID jr \<notin> jr_RunID ` set (tb_job_run db)"
      using assms WCreateJobRun by (auto simp: defs upsertJobRun_def split: if_splits)
    then show ?thesis using assms WCreateJobRun
      by (auto simp: defs upsertJobRun_def db_inv_def split: if_splits)
  next
    case (WUpdateJobRun jr)
    have "map jr_RunID (map (\<lambda>e. if jr_RunID e = jr_RunID jr \<and> P e then jr\<lparr>jr_UpdatedAt := now\<rparr> else e) rs) = map jr_RunID rs"
      for P rs by (induction rs) auto
    then show ?thesis using assms WUpdateJobRun
      by (auto simp: defs upsertJobRun_def Let_def db_inv_def simp del: map_map split: if_splits)
  qed (use assms in \<open>auto simp: defs db_inv_def deleteSpoolThrough_def deleteDeadLetters_def deleteDL_def
        deleteJobRunsBefore_def upsertJobRun_def Let_def split: if_splits\<close>)
  then show "db_inv db'" "tb_checkpoint db' = tb_checkpoint db" "tb_source_state db' = tb_source_state db"
    by simp_all
qed

lemma sq_inv_do: "sq_inv w \<Longrightarrow> sq_inv (sql_do now x w)"
proof -
  assume inv: "sq_inv w"
  then have i: "idle w" and d: "db_inv (w_db w)" and m: "marks_ok (w_cpSeqs w) (w_db w)"
    and c: "\<And>p. 0 \<le> sql_Checkpoint p (w_db w)" by (simp_all add: sq_inv_def)
  have mark: "0 \<le> mark_of (w_cpSeqs w) p" for p
    using m c [of p] by (auto simp: mark_of_def marks_ok_def sql_Checkpoint_def split: option.splits)
  show ?thesis
  proof (cases x)
    case (WAppend p m t)
    then show ?thesis using sql_do_append [OF i, of now p m t] inv db_inv_insertSpool [OF d, of p m t]
      by (auto simp: sq_inv_def marks_ok_def sql_Checkpoint_def insertSpool_def Let_def)
  next
    case (WCheckpoint p q)
    show ?thesis
      using WCheckpoint sql_do_checkpoint [OF i, of now p q] i d m c mark [of p] db_inv_upserts(1) [OF d, of p q]
      by (auto simp: sq_inv_def marks_ok_def sql_Checkpoint_def upsertCheckpoint_def advance_mark_def)
  next
    case (WSourceState p n s q)
    then show ?thesis using sql_do_source [OF i, of now p n s q] inv db_inv_upserts(2) [OF d, of p n s q]
      by (auto simp: sq_inv_def marks_ok_def sql_Checkpoint_def upsertSourceState_def)
  qed (use inv i rest_result_frame [of now x "w_db w"] sql_do_rest [OF i, of x now] in
      \<open>auto simp: sq_inv_def marks_ok_def sql_Checkpoint_def is_rest_op_def is_rest_def split: sum.splits\<close>)
qed

definition sql_pending :: "string \<Rightarrow> seq \<Rightarrow> writer \<Rightarrow> entries" where
  "sql_pending p a w = map entry_of (sql_rows_after p a (w_db w))"

definition sql_AppendSpool :: "string \<Rightarrow> message \<Rightarrow> gotime \<Rightarrow> writer \<Rightarrow> writer \<times> (go_error + seq)" where
  "sql_AppendSpool p m t w = (let w' = sql_do 0 (WAppend p m t) w in (w', answer w'))"

definition sql_DeleteSpoolThrough :: "string \<Rightarrow> seq \<Rightarrow> writer \<Rightarrow> writer" where
  "sql_DeleteSpoolThrough p q w = sql_do 0 (WDeleteSpoolThrough p q) w"

definition sql_SetCheckpoint :: "string \<Rightarrow> seq \<Rightarrow> writer \<Rightarrow> writer" where
  "sql_SetCheckpoint p q w = sql_do 0 (WCheckpoint p q) w"

lemma sql_rows_insert:
  "sql_rows_after p' a (fst (insertSpool [(p, m, t)] db)) = sql_rows_after p' a db
    @ (if p' = p \<and> a < tb_spool_seq db + 1 then [row_of (tb_spool_seq db + 1) p m t] else [])"
  by (simp add: sql_rows_after_def insertSpool_def Let_def row_of_def)

interpretation sql: spool_store sq_inv sql_pending stored_msg sql_AppendSpool sql_DeleteSpoolThrough
  sql_SetCheckpoint "\<lambda>p w. sql_Checkpoint p (w_db w)"
proof (unfold_locales, goal_cases)
  case (1 s p m t)
  then show ?case by (simp add: sql_AppendSpool_def Let_def sq_inv_do)
next
  case (2 s p m t s' q p' a)
  then have i: "idle s" by (simp add: sq_inv_def)
  from 2 show ?case
    by (auto simp: sql_pending_def sql_AppendSpool_def Let_def sql_do_append [OF i] sql_rows_insert
      entry_of_def row_of_def)
next
  case (3 s p m t s' q q' m' p' a)
  then have i: "idle s" and d: "db_inv (w_db s)" by (simp_all add: sq_inv_def)
  have "q = tb_spool_seq (w_db s) + 1" using 3(2) by (auto simp: sql_AppendSpool_def Let_def sql_do_append [OF i])
  then show ?case using 3(3) d
    by (auto simp: sql_pending_def sql_rows_after_def entry_of_def db_inv_def)
next
  case (4 s p m t s' e p' a)
  then have "idle s" by (simp add: sq_inv_def)
  then show ?case using 4(2) by (simp add: sql_AppendSpool_def Let_def sql_do_append)
next
  case (5 s p' p m t)
  then have "idle s" by (simp add: sq_inv_def)
  then show ?case
    by (simp add: sql_AppendSpool_def Let_def sql_do_append sql_Checkpoint_def insertSpool_def)
next
  case (6 s p q)
  then show ?case by (simp add: sql_DeleteSpoolThrough_def sq_inv_do)
next
  case (7 s p' a p q)
  then have i: "idle s" by (simp add: sq_inv_def)
  have r: "is_rest_op (WDeleteSpoolThrough p q)" by (simp add: is_rest_op_def is_rest_def)
  show ?case
    by (auto simp: sql_DeleteSpoolThrough_def sql_do_rest [OF i r] rest_result_def execWriteRequest_def
      deleteSpoolThrough_def Let_def sql_pending_def filter_map_entry sql_rows_after_def
      intro!: arg_cong [of _ _ "map entry_of"] filter_cong)
next
  case (8 s p' p q)
  then have i: "idle s" by (simp add: sq_inv_def)
  have r: "is_rest_op (WDeleteSpoolThrough p q)" by (simp add: is_rest_op_def is_rest_def)
  show ?case
    by (simp add: sql_DeleteSpoolThrough_def sql_do_rest [OF i r] rest_result_def execWriteRequest_def
      deleteSpoolThrough_def Let_def sql_Checkpoint_def)
next
  case (9 s p q)
  then show ?case by (simp add: sql_SetCheckpoint_def sq_inv_do)
next
  case (10 s p' a p q)
  then have "idle s" by (simp add: sq_inv_def)
  then show ?case
    by (simp add: sql_SetCheckpoint_def sql_do_checkpoint sql_pending_def sql_rows_after_def upsertCheckpoint_def)
next
  case (11 s p q)
  then have "idle s" and m: "marks_ok (w_cpSeqs s) (w_db s)" and c: "0 \<le> sql_Checkpoint p (w_db s)"
    by (simp_all add: sq_inv_def)
  moreover have "mark_of (w_cpSeqs s) p < q"
    using 11(2) m c by (auto simp: mark_of_def marks_ok_def sql_Checkpoint_def split: option.splits)
  ultimately show ?case
    by (simp add: sql_SetCheckpoint_def sql_do_checkpoint sql_Checkpoint_def upsertCheckpoint_def)
next
  case (12 s p' p q)
  then have "idle s" by (simp add: sq_inv_def)
  with 12 show ?case
    by (simp add: sql_SetCheckpoint_def sql_do_checkpoint sql_Checkpoint_def upsertCheckpoint_def)
next
  case (13 a b s p)
  then show ?case
    by (auto simp: sql_pending_def filter_map_entry sql_rows_after_def intro!: arg_cong [of _ _ "map entry_of"] filter_cong)
qed

section \<open>Agreement with the in-memory store\<close>

text \<open>One call on the SQLite store. \<^verbatim>\<open>WriteDeadLetter\<close> stamps the creation time before it
  enqueues, \<^verbatim>\<open>DeleteDeadLetters\<close> without ids returns at once.\<close>

fun sql_call :: "gotime \<Rightarrow> store_op \<Rightarrow> writer \<Rightarrow> writer" where
  "sql_call now (OpAppend p m t) w = sql_do now (WAppend p m t) w"
| "sql_call now (OpTrim p q) w = sql_do now (WDeleteSpoolThrough p q) w"
| "sql_call now (OpCheckpoint p q) w = sql_do now (WCheckpoint p q) w"
| "sql_call now (OpSourceState p n st q) w = sql_do now (WSourceState p n st q) w"
| "sql_call now (OpDeadLetter d) w =
     sql_do now (WDeadLetter (if dl_CreatedAt d = 0 then d\<lparr>dl_CreatedAt := now\<rparr> else d)) w"
| "sql_call now (OpDeleteDL p ids) w = (if ids = [] then w else sql_do now (WDeleteDeadLetters p ids) w)"
| "sql_call now (OpDeleteDLBefore p t) w = sql_do now (WDeleteDeadLettersBefore p t) w"
| "sql_call now (OpCreateRun jr) w = sql_do now (WCreateJobRun jr) w"
| "sql_call now (OpUpdateRun jr) w = sql_do now (WUpdateJobRun jr) w"
| "sql_call now (OpDeleteRuns p t) w = sql_do now (WDeleteJobRunsBefore p t) w"
| "sql_call now OpClose w = shutdown w"

text \<open>What a row looks like after its trip through the table.\<close>

definition strip_row :: "memRow \<Rightarrow> memRow" where
  "strip_row r = r\<lparr>row_msg := stored_msg (row_msg r)\<rparr>"

definition agrees :: "memStore \<Rightarrow> writer \<Rightarrow> bool" where
  "agrees s w \<longleftrightarrow> mem_inv s \<and> \<not> ms_closed s \<and> sq_inv w \<and>
     tb_spool (w_db w) = map strip_row (ms_spool s) \<and> tb_spool_seq (w_db w) = ms_nextSeq s \<and>
     (\<forall>p. sql_Checkpoint p (w_db w) = Checkpoint p s) \<and>
     (\<forall>p n. CHR 0x00 \<notin> set p \<longrightarrow> sql_SourceState p n (w_db w) = SourceState p n s) \<and>
     tb_dead_letter (w_db w) = ms_deadLetters s \<and> tb_dead_letter_seq (w_db w) = ms_nextDLID s \<and>
     tb_job_run (w_db w) = ms_jobRuns s"

text \<open>The calls the backends answer alike: checkpoints and source states that move forward, job
  runs that leave the update stamp to the store.\<close>

fun forward :: "store_op \<Rightarrow> writer \<Rightarrow> bool" where
  "forward (OpCheckpoint p q) w = (sql_Checkpoint p (w_db w) < q)"
| "forward (OpSourceState p n st q) w = (mark_of (w_srcSeqs w) (sourceKey p n) < q \<and> CHR 0x00 \<notin> set p)"
| "forward (OpCreateRun jr) w = (jr_UpdatedAt jr = 0)"
| "forward OpClose w = False"
| "forward _ w = True"

lemma update_run_map:
  assumes "distinct (map jr_RunID rs)"
  shows "update_run jr rs = (if \<exists>e\<in>set rs. jr_RunID e = jr_RunID jr \<and> jr_Pipeline e = jr_Pipeline jr
    then Some (map (\<lambda>e. if jr_RunID e = jr_RunID jr \<and> jr_Pipeline e = jr_Pipeline jr then jr else e) rs) else None)"
  using assms
proof (induction rs)
  case (Cons r rs)
  show ?case
  proof (cases "jr_RunID r = jr_RunID jr \<and> jr_Pipeline r = jr_Pipeline jr")
    case True
    then have "\<And>e. e \<in> set rs \<Longrightarrow> jr_RunID e \<noteq> jr_RunID jr" using Cons.prems by (auto simp: image_iff)
    then have "map (\<lambda>e. if jr_RunID e = jr_RunID jr \<and> jr_Pipeline e = jr_Pipeline jr then jr else e) rs = rs"
      by (intro map_idI) auto
    with True show ?thesis by simp
  next
    case False
    then show ?thesis using Cons by auto
  qed
qed simp

lemma agrees_rest:
  assumes a: "agrees s w" and x: "is_rest_op x" and inv: "mem_inv s'"
    and frame: "\<not> ms_closed s'" "ms_nextSeq s' = ms_nextSeq s" "ms_checkpoints s' = ms_checkpoints s"
      "ms_srcStates s' = ms_srcStates s"
    and res: "rest_result now x (w_db w) = Inr (db', n)"
    and new: "tb_spool db' = map strip_row (ms_spool s')" "tb_spool_seq db' = ms_nextSeq s'"
      "tb_dead_letter db' = ms_deadLetters s'" "tb_dead_letter_seq db' = ms_nextDLID s'" "tb_job_run db' = ms_jobRuns s'"
  shows "agrees s' (sql_do now x w)"
proof -
  have w: "sq_inv w" using a by (simp add: agrees_def)
  then have i: "idle w" and d: "db_inv (w_db w)" by (simp_all add: sq_inv_def)
  note f = rest_result_frame [OF res d] and r = sql_do_rest(2) [OF i x, of now]
  show ?thesis
    using a inv frame new f sq_inv_do [OF w, of now x]
    by (simp add: agrees_def r res sql_Checkpoint_def Checkpoint_def sql_SourceState_def SourceState_def)
qed

lemma strip_row_simps [simp]:
  "row_seq (strip_row r) = row_seq r" "row_pipeline (strip_row r) = row_pipeline r"
  by (simp_all add: strip_row_def)

lemma filter_map_strip:
  "filter (\<lambda>r. P (row_pipeline r) (row_seq r)) (map strip_row rs) = map strip_row (filter (\<lambda>r. P (row_pipeline r) (row_seq r)) rs)"
  by (induction rs) auto

lemma agrees_step:
  assumes a: "agrees s w" and f: "forward x w"
  shows "agrees (mem_step now x s) (sql_call now x w)"
proof -
  have w: "sq_inv w" and m: "mem_inv s" and open_s: "\<not> ms_closed s" using a by (simp_all add: agrees_def)
  then have i: "idle w" and d: "db_inv (w_db w)" and mk: "marks_ok (w_cpSeqs w) (w_db w)"
    and cp0: "\<And>p. 0 \<le> sql_Checkpoint p (w_db w)" by (simp_all add: sq_inv_def)
  have m': "mem_inv (mem_step now x s)" by (rule mem_step_inv [OF m])
  note rest = agrees_rest [OF a]
  show ?thesis
  proof (cases x)
    case (OpAppend p msg t)
    note r = sql_do_append [OF i, of now p msg t]
    show ?thesis
      using a open_s m' sq_inv_do [OF w, of now "WAppend p msg t"] OpAppend
      by (auto simp: agrees_def r AppendSpool_def Let_def insertSpool_def strip_row_def sql_Checkpoint_def Checkpoint_def
        sql_SourceState_def SourceState_def)
  next
    case (OpTrim p q)
    show ?thesis unfolding OpTrim sql_call.simps mem_step.simps
      by (rule rest [where n = "snd (deleteSpoolThrough p q (w_db w))" and db' = "fst (deleteSpoolThrough p q (w_db w))"])
        (use a m' OpTrim open_s in \<open>simp_all add: is_rest_op_def is_rest_def DeleteSpoolThrough_def deleteSpoolThrough_def
          Let_def rest_result_def execWriteRequest_def agrees_def filter_map_strip [of "\<lambda>p' q'. \<not> (p' = p \<and> q' \<le> q)", simplified]\<close>)
  next
    case (OpCheckpoint p q)
    note r = sql_do_checkpoint [OF i, of now p q]
    have "mark_of (w_cpSeqs w) p < q"
      using f OpCheckpoint mk cp0 [of p] by (auto simp: mark_of_def marks_ok_def sql_Checkpoint_def split: option.splits)
    then show ?thesis
      using a m' sq_inv_do [OF w, of now "WCheckpoint p q"] OpCheckpoint
      by (auto simp: agrees_def r SetCheckpoint_def upsertCheckpoint_def sql_Checkpoint_def Checkpoint_def
        sql_SourceState_def SourceState_def)
  next
    case (OpSourceState p n st q)
    note r = sql_do_source [OF i, of now p n st q]
    show ?thesis
      using a m' f sq_inv_do [OF w, of now "WSourceState p n st q"] OpSourceState
      by (auto simp: agrees_def r SetSourceState_def upsertSourceState_def sql_Checkpoint_def Checkpoint_def
        sql_SourceState_def SourceState_def sourceKey_inject)
  next
    case (OpDeadLetter dl)
    let ?d = "if dl_CreatedAt dl = 0 then dl\<lparr>dl_CreatedAt := now\<rparr> else dl"
    show ?thesis unfolding OpDeadLetter sql_call.simps mem_step.simps
      by (rule rest [where n = 0 and db' = "insertDeadLetter ?d (w_db w)"])
        (use a m' OpDeadLetter open_s in \<open>simp_all add: is_rest_op_def is_rest_def WriteDeadLetter_def insertDeadLetter_def
          Let_def rest_result_def execWriteRequest_def agrees_def\<close>)
  next
    case (OpDeleteDL p ids)
    show ?thesis
    proof (cases "ids = []")
      case True
      then show ?thesis using a OpDeleteDL by (simp add: DeleteDeadLetters_def drop_deadLetters_def)
    next
      case False
      then show ?thesis unfolding OpDeleteDL sql_call.simps mem_step.simps if_not_P [OF False]
        by (intro rest [where n = "snd (deleteDeadLetters p ids (w_db w))" and db' = "fst (deleteDeadLetters p ids (w_db w))"])
          (use a m' OpDeleteDL open_s in \<open>simp_all add: is_rest_op_def is_rest_def DeleteDeadLetters_def drop_deadLetters_def
            deleteDeadLetters_def deleteDL_def rest_result_def execWriteRequest_def agrees_def\<close>)
    qed
  next
    case (OpDeleteDLBefore p t)
    have e: "deleteDeadLettersBefore p t (w_db w)
        = (w_db w\<lparr>tb_dead_letter := filter (\<lambda>d. \<not> expired p t d) (tb_dead_letter (w_db w))\<rparr>,
           int (length (filter (expired p t) (tb_dead_letter (w_db w)))))"
      by (simp add: deleteDeadLettersBefore_def dlq_sweep_loop_once [OF d])
    show ?thesis unfolding OpDeleteDLBefore sql_call.simps mem_step.simps
      by (rule rest [where n = "snd (deleteDeadLettersBefore p t (w_db w))" and db' = "fst (deleteDeadLettersBefore p t (w_db w))"])
        (use a m' OpDeleteDLBefore open_s in \<open>simp_all add: is_rest_op_def is_rest_def DeleteDeadLettersBefore_def drop_deadLetters_def
          e expired_def [abs_def] rest_result_def execWriteRequest_def agrees_def\<close>)
  next
    case (OpCreateRun jr)
    show ?thesis
    proof (cases "\<exists>e\<in>set (tb_job_run (w_db w)). jr_RunID e = jr_RunID jr")
      case True
      have x: "is_rest_op (WCreateJobRun jr)" by (simp add: is_rest_op_def is_rest_def)
      have "rest_result now (WCreateJobRun jr) (w_db w) = Inl (unique_error (jr_RunID jr))"
        using True by (simp add: rest_result_def execWriteRequest_def upsertJobRun_def)
      with True show ?thesis
        using a OpCreateRun sql_do_rest(2) [OF i x, of now] sq_inv_do [OF w, of now "WCreateJobRun jr"]
        by (simp add: agrees_def CreateJobRun_def)
    next
      case False
      then show ?thesis unfolding OpCreateRun sql_call.simps mem_step.simps
        by (intro rest [where n = 0 and db' = "w_db w\<lparr>tb_job_run := tb_job_run (w_db w) @ [jr\<lparr>jr_UpdatedAt := now\<rparr>]\<rparr>"])
          (use a m' f OpCreateRun open_s in \<open>simp_all add: is_rest_op_def is_rest_def CreateJobRun_def upsertJobRun_def Let_def
            rest_result_def execWriteRequest_def agrees_def\<close>)
    qed
  next
    case (OpUpdateRun jr)
    have dist: "distinct (map jr_RunID (ms_jobRuns s))" and tb: "tb_job_run (w_db w) = ms_jobRuns s"
      using m a by (simp_all add: mem_inv_def agrees_def)
    note u = update_run_map [OF dist, of "jr\<lparr>jr_UpdatedAt := now\<rparr>"]
    show ?thesis
    proof (cases "\<exists>e\<in>set (ms_jobRuns s). jr_RunID e = jr_RunID jr \<and> jr_Pipeline e = jr_Pipeline jr")
      case False
      have x: "is_rest_op (WUpdateJobRun jr)" by (simp add: is_rest_op_def is_rest_def)
      have "rest_result now (WUpdateJobRun jr) (w_db w) = Inl (not_found (jr_RunID jr))"
        using False tb by (auto simp: rest_result_def execWriteRequest_def upsertJobRun_def Let_def)
      moreover have "update_run (jr\<lparr>jr_UpdatedAt := now\<rparr>) (ms_jobRuns s) = None"
        using False u by auto
      then have "mem_step now x s = s" using OpUpdateRun by (simp add: UpdateJobRun_def)
      ultimately show ?thesis
        using a OpUpdateRun sql_do_rest(2) [OF i x, of now] sq_inv_do [OF w, of now "WUpdateJobRun jr"]
        by (simp add: agrees_def)
    next
      case True
      let ?rs = "map (\<lambda>e. if jr_RunID e = jr_RunID jr \<and> jr_Pipeline e = jr_Pipeline jr then jr\<lparr>jr_UpdatedAt := now\<rparr> else e) (ms_jobRuns s)"
      have "mem_step now x s = s\<lparr>ms_jobRuns := ?rs\<rparr>"
        using True OpUpdateRun u by (simp add: UpdateJobRun_def)
      then have "agrees (mem_step now x s) (sql_do now (WUpdateJobRun jr) w)"
        by (intro rest [where n = 0 and db' = "w_db w\<lparr>tb_job_run := ?rs\<rparr>"])
          (use m' True tb a open_s in \<open>simp_all add: is_rest_op_def is_rest_def upsertJobRun_def Let_def
            rest_result_def execWriteRequest_def agrees_def\<close>)
      then show ?thesis by (simp add: OpUpdateRun)
    qed
  next
    case (OpDeleteRuns p t)
    show ?thesis unfolding OpDeleteRuns sql_call.simps mem_step.simps
      by (rule rest [where n = "snd (deleteJobRunsBefore p t (w_db w))" and db' = "fst (deleteJobRunsBefore p t (w_db w))"])
        (use a m' OpDeleteRuns open_s in \<open>auto simp: is_rest_op_def is_rest_def DeleteJobRunsBefore_def deleteJobRunsBefore_def
          Let_def rest_result_def execWriteRequest_def agrees_def IsRunnableStatus_def job_status_defs intro!: filter_cong\<close>)
  next
    case OpClose
    then show ?thesis using f by simp
  qed
qed

fun all_forward :: "(gotime \<times> store_op) list \<Rightarrow> writer \<Rightarrow> bool" where
  "all_forward [] w = True"
| "all_forward ((now, x) # xs) w = (forward x w \<and> all_forward xs (sql_call now x w))"

section \<open>Properties\<close>



lemma agrees_initial: "1 \<le> MaxRows opts \<Longrightarrow> agrees NewMemory (newWriter emptyDB opts)"
  by (simp add: agrees_def NewMemory_inv)
    (simp add: NewMemory_def newWriter_def emptyDB_def sq_inv_def idle_def db_inv_def marks_ok_def sql_Checkpoint_def
      Checkpoint_def sql_SourceState_def SourceState_def)


text \<open>
  C17. A source state whose frontier is at or below the writer's in-memory mark is acknowledged
  without being stored, and the stored pair stays. The mark outlives an engine session while the
  sources number their emissions from 1 again in every session, so after a first session stored
  frontier \<open>k\<close>, every state a second session commits on the same open store at a frontier up to \<open>k\<close>
  is lost, although its caller is told it is durable; the in-memory store keeps it.
\<close>

theorem second_session_state_dropped:
  assumes "sq_inv w" and "0 \<le> mark_of (w_srcSeqs w) (sourceKey p n)" and "q \<le> k"
    and "mark_of (w_srcSeqs w) (sourceKey p n) < k"
  shows "answer (sql_do now2 (WSourceState p n stB q) (sql_do now1 (WSourceState p n stA k) w)) = Inr 0
    \<and> sql_SourceState p n (w_db (sql_do now2 (WSourceState p n stB q) (sql_do now1 (WSourceState p n stA k) w))) = (stA, k)
    \<and> SourceState p n (SetSourceState p n stB q (SetSourceState p n stA k s)) = (stB, q)"
proof -
  have i: "idle w" using assms(1) by (simp add: sq_inv_def)
  have i': "idle (sql_do now1 (WSourceState p n stA k) w)" by (rule sql_do_source(1) [OF i])
  show ?thesis using assms(3,4)
    by (simp add: sql_do_source(2-5) [OF i'] sql_do_source(2-5) [OF i] advance_mark_def mark_of_def
      sql_SourceState_def upsertSourceState_def SourceState_def SetSourceState_def)
qed

theorem second_session_state_dropped_witness:
  "sql_SourceState ''p'' ''s'' (w_db (sql_do 9 (WSourceState ''p'' ''s'' ''new'' 10)
     (sql_do 5 (WSourceState ''p'' ''s'' ''old'' 100) (newWriter emptyDB DefaultWriteOptions)))) = (''old'', 100)"
proof -
  have "agrees NewMemory (newWriter emptyDB DefaultWriteOptions)"
    by (rule agrees_initial) (simp add: DefaultWriteOptions_def defaultWriteBatchRows_def)
  then have "sq_inv (newWriter emptyDB DefaultWriteOptions)" by (simp add: agrees_def)
  moreover have "mark_of (w_srcSeqs (newWriter emptyDB DefaultWriteOptions)) (sourceKey ''p'' ''s'') = 0"
    by (simp add: newWriter_def mark_of_def)
  ultimately show ?thesis
    using second_session_state_dropped [of "newWriter emptyDB DefaultWriteOptions" "''p''" "''s''" 10 100] by simp
qed


end
