(* ===== verification/SourceCommit.thy ===== *)
theory SourceCommit
  imports SpoolSpec
begin

text \<open>
  The source committer of \<^verbatim>\<open>src/internal/engine/sourcecommit.go\<close>: the highest frontier posted by
  the tracker, the highest frontier whose state is persisted, and the attempts of the worker and of
  the shutdown flush. \<^verbatim>\<open>Source.Commit\<close> is third-party code behind an interface: its answer (a state,
  no state, or an error) is an argument of the attempt, as is the store's answer to the state
  write. An attempt reads the frontier, calls the source and the store without the lock, and then
  takes the lock again, so posts may come in between; the two halves are separate operations.
\<close>

record sourceCommitter =
  sc_pending :: seq
  sc_persisted :: seq
  sc_wake :: bool                 \<comment> \<open>the wake channel, capacity 1\<close>
  sc_attempt :: "seq option"      \<comment> \<open>the frontier of the attempt in flight\<close>
  sc_stored :: "(seq \<times> bytes) list" \<comment> \<open>the state writes that succeeded, newest first\<close>

definition newSourceCommitter :: sourceCommitter where
  "newSourceCommitter = \<lparr>sc_pending = 0, sc_persisted = 0, sc_wake = False, sc_attempt = None, sc_stored = []\<rparr>"

definition post :: "seq \<Rightarrow> sourceCommitter \<Rightarrow> sourceCommitter" where
  "post frontier c =
     (if frontier \<le> 0 then c
      else let c1 = (if frontier > sc_pending c then c\<lparr>sc_pending := frontier\<rparr> else c)
           in if sc_pending c1 > sc_persisted c1 then c1\<lparr>sc_wake := True\<rparr> else c1)"

text \<open>\<^verbatim>\<open>commit\<close>, up to the call of the source: nothing to do at or below the persisted frontier.\<close>

definition commit_begin :: "sourceCommitter \<Rightarrow> sourceCommitter" where
  "commit_begin c =
     (if sc_attempt c \<noteq> None then c
      else if sc_pending c \<le> sc_persisted c then c\<lparr>sc_wake := False\<rparr>
      else c\<lparr>sc_wake := False, sc_attempt := Some (sc_pending c)\<rparr>)"

text \<open>The rest of \<^verbatim>\<open>commit\<close>: an error of the source, a missing state or a failed write keeps the
  pending value; a stored state advances the persisted frontier, never back.\<close>

definition commit_end :: "go_error + bytes option \<Rightarrow> go_error option \<Rightarrow> sourceCommitter \<Rightarrow> sourceCommitter" where
  "commit_end answer write c =
     (case sc_attempt c of
        None \<Rightarrow> c
      | Some frontier \<Rightarrow>
          let c0 = c\<lparr>sc_attempt := None\<rparr>
          in (case answer of
                Inl _ \<Rightarrow> c0
              | Inr None \<Rightarrow> c0
              | Inr (Some st) \<Rightarrow>
                  if write \<noteq> None then c0
                  else let c1 = c0\<lparr>sc_stored := (frontier, st) # sc_stored c0\<rparr>
                       in if frontier > sc_persisted c1 then c1\<lparr>sc_persisted := frontier\<rparr> else c1))"

text \<open>The shutdown flush: only after the worker is gone, one attempt that runs to its end.\<close>

definition sc_flush :: "go_error + bytes option \<Rightarrow> go_error option \<Rightarrow> sourceCommitter \<Rightarrow> sourceCommitter" where
  "sc_flush answer write c =
     (if sc_attempt c \<noteq> None then c else commit_end answer write (commit_begin c))"

datatype sc_op =
    Post seq
  | Begin
  | End "go_error + bytes option" "go_error option"
  | Flush "go_error + bytes option" "go_error option"

fun sc_apply :: "sc_op \<Rightarrow> sourceCommitter \<Rightarrow> sourceCommitter" where
  "sc_apply (Post f) c = post f c"
| "sc_apply Begin c = commit_begin c"
| "sc_apply (End a w) c = commit_end a w c"
| "sc_apply (Flush a w) c = sc_flush a w c"

lemmas sc_defs = post_def commit_begin_def commit_end_def sc_flush_def Let_def

text \<open>
  The invariant: the persisted frontier is the newest stored one and never ahead of the posted
  maximum, the stored frontiers grow, and an attempt in flight is ahead of what is persisted.
\<close>

definition sc_inv :: "sourceCommitter \<Rightarrow> bool" where
  "sc_inv c \<longleftrightarrow> 0 \<le> sc_persisted c \<and> sc_persisted c \<le> sc_pending c \<and>
     sorted_wrt (>) (map fst (sc_stored c)) \<and>
     sc_persisted c = (case sc_stored c of [] \<Rightarrow> 0 | e # es \<Rightarrow> fst e) \<and>
     (\<forall>f. sc_attempt c = Some f \<longrightarrow> sc_persisted c < f \<and> f \<le> sc_pending c)"

lemma sc_inv_apply: "sc_inv c \<Longrightarrow> sc_inv (sc_apply x c)"
  by (cases x) (auto simp: sc_inv_def sc_defs split: option.splits sum.splits list.splits if_splits)

lemma sc_inv_run: "sc_inv c \<Longrightarrow> sc_inv (fold sc_apply xs c)"
  by (induction xs arbitrary: c) (auto intro: sc_inv_apply)

lemma sc_inv_new: "sc_inv newSourceCommitter"
  by (simp add: sc_inv_def newSourceCommitter_def)

interpretation source_frontier: high_water_mark sc_persisted sc_apply
proof (unfold_locales, goal_cases)
  case (1 c x)
  show ?case
    by (cases x) (auto simp: sc_defs split: option.splits sum.splits)
qed

text \<open>The maximum of the posted frontiers.\<close>

fun posted_max :: "sc_op list \<Rightarrow> seq" where
  "posted_max [] = 0"
| "posted_max (Post f # xs) = max f (posted_max xs)"
| "posted_max (x # xs) = posted_max xs"

lemma posted_max_nonneg: "0 \<le> posted_max xs"
  by (induction xs rule: posted_max.induct) auto

lemma pending_is_max:
  "0 \<le> sc_pending c \<Longrightarrow> sc_pending (fold sc_apply xs c) = max (sc_pending c) (posted_max xs)"
proof (induction xs arbitrary: c)
  case Nil
  then show ?case by simp
next
  case (Cons x xs)
  have p: "sc_pending (sc_apply x c) = (case x of Post f \<Rightarrow> max f (sc_pending c) | _ \<Rightarrow> sc_pending c)"
    using Cons.prems by (cases x) (auto simp: sc_defs split: option.splits sum.splits)
  then have "0 \<le> sc_pending (sc_apply x c)" using Cons.prems by (cases x) auto
  from Cons.IH [OF this] show ?case
    using p by (cases x) (auto simp: max.assoc max.left_commute max.commute)
qed

section \<open>Properties\<close>

text \<open>
  C22. The persisted source frontier never regresses: over any interleaving of posts (late and out
  of order ones included), attempts that fail or succeed, and shutdown flushes, the frontiers whose
  states reach the store strictly increase, each of them was posted, and the last one written is
  the persisted frontier.
\<close>

theorem source_states_monotone:
  "sorted_wrt (>) (map fst (sc_stored (fold sc_apply xs newSourceCommitter)))
   \<and> (\<forall>f\<in>set (map fst (sc_stored (fold sc_apply xs newSourceCommitter))). 0 < f \<and> f \<le> posted_max xs)
   \<and> sc_persisted (fold sc_apply xs newSourceCommitter)
      = (case sc_stored (fold sc_apply xs newSourceCommitter) of [] \<Rightarrow> 0 | e # es \<Rightarrow> fst e)
   \<and> (\<forall>ys. sc_persisted (fold sc_apply xs newSourceCommitter)
        \<le> sc_persisted (fold sc_apply (xs @ ys) newSourceCommitter))"
proof -
  let ?c = "fold sc_apply xs newSourceCommitter"
  have inv: "sc_inv ?c" by (rule sc_inv_run [OF sc_inv_new])
  have pend: "sc_pending ?c = posted_max xs"
    using pending_is_max [of newSourceCommitter xs] posted_max_nonneg [of xs]
    by (simp add: newSourceCommitter_def)
  have pos: "\<forall>f\<in>set (map fst (sc_stored (fold sc_apply xs c))). 0 < f"
    if "sc_inv c" "\<forall>f\<in>set (map fst (sc_stored c)). 0 < f" for c
    using that
  proof (induction xs arbitrary: c)
    case (Cons x xs)
    have "\<forall>f\<in>set (map fst (sc_stored (sc_apply x c))). 0 < f"
      using Cons.prems
      by (cases x) (auto simp: sc_defs sc_inv_def split: option.splits sum.splits)
    from Cons.IH [OF sc_inv_apply [OF Cons.prems(1)] this] show ?case by simp
  qed simp
  have "f \<le> sc_pending ?c" if "f \<in> set (map fst (sc_stored ?c))" for f
    using inv that by (cases "sc_stored ?c") (auto simp: sc_inv_def)
  with inv pend pos [OF sc_inv_new] source_frontier.run_prefix_mono [of xs newSourceCommitter] show ?thesis
    unfolding sc_inv_def by (simp add: newSourceCommitter_def)
qed

theorem source_states_monotone_witness:
  "map fst (sc_stored (fold sc_apply [Post 3, Begin, End (Inr (Some ''x'')) None, Post 2] newSourceCommitter)) = [3]
   \<and> sc_persisted (fold sc_apply [Post 3, Begin, End (Inr (Some ''x'')) None, Post 2] newSourceCommitter) = 3"
  using source_states_monotone [of "[Post 3, Begin, End (Inr (Some ''x'')) None, Post 2]"]
  by (simp add: sc_defs newSourceCommitter_def)

text \<open>
  C23. No posted frontier is lost: when the shutdown flush runs with the worker gone and both the
  source and the store answer, the persisted frontier is the highest frontier ever posted, whatever
  attempts failed before.
\<close>

theorem flush_persists_maximum:
  assumes "sc_attempt (fold sc_apply xs newSourceCommitter) = None"
  shows "sc_persisted (sc_flush (Inr (Some st)) None (fold sc_apply xs newSourceCommitter)) = posted_max xs"
proof -
  let ?c = "fold sc_apply xs newSourceCommitter"
  have inv: "sc_inv ?c" by (rule sc_inv_run [OF sc_inv_new])
  have pend: "sc_pending ?c = posted_max xs"
    using pending_is_max [of newSourceCommitter xs] posted_max_nonneg [of xs]
    by (simp add: newSourceCommitter_def)
  then show ?thesis using inv assms by (auto simp: sc_inv_def sc_defs)
qed

theorem flush_persists_maximum_witness:
  "sc_persisted (sc_flush (Inr (Some ''x'')) None
     (fold sc_apply [Post 3, Begin, Post 5, End (Inl ''down'') None, Post 4] newSourceCommitter)) = 5"
proof -
  have "sc_attempt (fold sc_apply [Post 3, Begin, Post 5, End (Inl ''down'') None, Post 4] newSourceCommitter) = None"
    by (simp add: sc_defs newSourceCommitter_def)
  from flush_persists_maximum [OF this] show ?thesis by simp
qed

end
