(* ===== verification/ConfigTypes.thy ===== *)
theory ConfigTypes
  imports StoreTypes
begin

text \<open>
  The typed pipeline configuration (\<^verbatim>\<open>src/internal/config/config.go\<close>), the diagnostics of a verify
  pass (\<^verbatim>\<open>src/internal/config/diagnostics.go\<close>) and the framework constants they default to
  (\<^verbatim>\<open>src/internal/schema/schema.go\<close>). A pointer field is an \<open>option\<close>; a map the code only looks up
  is a partial map, a map it ranges over is an association list in iteration order.
\<close>

section \<open>The configuration\<close>

datatype node_section = SectionSource | SectionTransform | SectionSink

fun section_str :: "node_section \<Rightarrow> string" where
  "section_str SectionSource = ''sources''"
| "section_str SectionTransform = ''transforms''"
| "section_str SectionSink = ''sinks''"

record delivery =
  dv_Retries :: int
  dv_Backoff :: string
  dv_TimeoutMs :: int

record batch =
  bt_Size :: int
  bt_TimeoutMs :: int

record bufferConfig =
  bf_Type :: string
  bf_MaxEvents :: int

record cfg_edge =
  ce_From :: node_name
  ce_Line :: int
  ce_When :: string
  ce_WhenLang :: string
  ce_Route :: string
  ce_Delivery :: "delivery option"
  ce_Required :: "bool option"
  ce_Buffer :: "bufferConfig option"

record edgeAttrs =
  ea_Delivery :: "delivery option"
  ea_Required :: "bool option"
  ea_Buffer :: "bufferConfig option"

record grpcConfig =
  gc_Command :: "string list"
  gc_Env :: "(string \<times> string) list"
  gc_Schema :: string
  gc_Restart :: string

record pluginManifest =
  mf_Kind :: string
  mf_Name :: string
  mf_Version :: int
  mf_Capabilities :: "string list"
  mf_ConfigSchema :: "(string \<times> any) list"

record cfg_node =
  cn_Name :: node_name
  cn_Section :: node_section
  cn_Line :: int
  cn_DependsOn :: "cfg_edge list"
  cn_Decoder :: string
  cn_Encoder :: string
  cn_Workers :: int
  cn_OrderKey :: string
  cn_Batch :: "batch option"
  cn_Plugin :: string
  cn_PluginConfig :: any
  cn_PluginLine :: int
  cn_Grpc :: "grpcConfig option"
  cn_Manifest :: "pluginManifest option"
  cn_Version :: int

record limits =
  lm_MaxInFlight :: int
  lm_DrainTimeout :: duration

record telemetry =
  tm_Redact :: "string list"
  tm_SpanSampleRate :: rat

record codecDecl =
  cd_Name :: string
  cd_Type :: string
  cd_Config :: "(string \<times> any) list"
  cd_Line :: int

record runSpec =
  rs_Mode :: string
  rs_Schedule :: string
  rs_Overlap :: string
  rs_CatchupWindow :: duration
  rs_SkipIfSuccessful :: bool
  rs_Retention :: duration

record parameterSpec =
  ps_Name :: string
  ps_Type :: string
  ps_Default :: any
  ps_Required :: bool
  ps_Enum :: "any list"
  ps_Pattern :: string
  ps_Min :: "rat option"
  ps_Max :: "rat option"
  ps_Line :: int

record hookSink =
  hk_Plugin :: string
  hk_PluginConfig :: "(string \<times> any) list"
  hk_Line :: int

record hooksSpec =
  hs_Failure :: "hookSink option"
  hs_Success :: "hookSink option"

record cfg_pipeline =
  cp_File :: string
  cp_BaseDir :: string
  cp_Name :: string
  cp_Constants :: "(string \<times> any) list"
  cp_ConstantsUsed :: "(string \<times> bool) list"
  cp_EdgeDefaults :: edgeAttrs
  cp_Limits :: "limits option"
  cp_Telemetry :: "telemetry option"
  cp_Run :: "runSpec option"
  cp_DLQRetention :: "duration option"   \<comment> \<open>the one field of \<^verbatim>\<open>DLQSpec\<close>\<close>
  cp_Parameters :: "(string \<times> parameterSpec) list"
  cp_Hooks :: "hooksSpec option"
  cp_Codecs :: "(string \<times> codecDecl) list"
  cp_Sources :: "node_name \<rightharpoonup> cfg_node"
  cp_Transforms :: "node_name \<rightharpoonup> cfg_node"
  cp_Sinks :: "node_name \<rightharpoonup> cfg_node"
  cp_Order :: "node_name list"

definition IsJob :: "cfg_pipeline \<Rightarrow> bool" where
  "IsJob p = (case cp_Run p of None \<Rightarrow> False | Some r \<Rightarrow> rs_Mode r = ''job'')"

definition IsBatch :: "cfg_pipeline \<Rightarrow> bool" where
  "IsBatch p = (case cp_Run p of None \<Rightarrow> False | Some r \<Rightarrow> rs_Mode r = ''batch'')"

section \<open>Materialized edge defaults\<close>

definition DeliveryRetriesDefault :: int where "DeliveryRetriesDefault = 3"
definition DeliveryBackoffDefault :: string where "DeliveryBackoffDefault = ''exponential''"
definition BufferMaxDefault :: int where "BufferMaxDefault = 128"

definition MaterializeEdgeDefaults :: "cfg_pipeline \<Rightarrow> cfg_pipeline" where
  "MaterializeEdgeDefaults p =
     (let d = cp_EdgeDefaults p;
          dv = (case ea_Delivery d of
                  None \<Rightarrow> \<lparr>dv_Retries = DeliveryRetriesDefault, dv_Backoff = DeliveryBackoffDefault, dv_TimeoutMs = 0\<rparr>
                | Some v \<Rightarrow> if dv_Backoff v = '''' then v\<lparr>dv_Backoff := DeliveryBackoffDefault\<rparr> else v);
          rq = (case ea_Required d of None \<Rightarrow> True | Some b \<Rightarrow> b);
          bf = (case ea_Buffer d of
                  None \<Rightarrow> \<lparr>bf_Type = ''memory'', bf_MaxEvents = BufferMaxDefault\<rparr> | Some b \<Rightarrow> b)
      in p\<lparr>cp_EdgeDefaults := \<lparr>ea_Delivery = Some dv, ea_Required = Some rq, ea_Buffer = Some bf\<rparr>\<rparr>)"

section \<open>Rendering integers\<close>

text \<open>
  \<^verbatim>\<open>itoa\<close> on Go's 64-bit \<^verbatim>\<open>int\<close>: the negation wraps at the least integer, for which the digit loop
  does not run at all.
\<close>

definition wrap64 :: "int \<Rightarrow> int" where
  "wrap64 x = (x + 2 ^ 63) mod 2 ^ 64 - 2 ^ 63"

function itoa_loop :: "int \<Rightarrow> string \<Rightarrow> string" where
  "itoa_loop n b = (if n > 0 then itoa_loop (n div 10) (char_of (48 + nat (n mod 10)) # b) else b)"
  by pat_completeness auto
termination
  by (relation "measure (\<lambda>(n, b). nat n)") auto

declare itoa_loop.simps [simp del]

definition itoa :: "int \<Rightarrow> string" where
  "itoa n = (if n = 0 then ''0''
             else let neg = n < 0;
                      n = (if neg then wrap64 (- n) else n);
                      b = itoa_loop n []
                  in if neg then CHR 0x2D # b else b)"

section \<open>Diagnostics\<close>

record diagnostic =
  dg_Severity :: string
  dg_Code :: string
  dg_File :: string
  dg_Line :: int
  dg_Message :: string
  dg_Hint :: string

definition dg_Error :: "diagnostic \<Rightarrow> string" where
  "dg_Error d = dg_Severity d @ ''['' @ dg_Code d @ ''] '' @ dg_File d @ '':'' @ itoa (dg_Line d) @ '': '' @ dg_Message d"

definition Errors :: "diagnostic list \<Rightarrow> diagnostic list" where
  "Errors ds = filter (\<lambda>d. dg_Severity d = ''error'') ds"

definition Warnings :: "diagnostic list \<Rightarrow> diagnostic list" where
  "Warnings ds = filter (\<lambda>d. dg_Severity d = ''warning'') ds"

definition HasErrors :: "diagnostic list \<Rightarrow> bool" where
  "HasErrors ds \<longleftrightarrow> (\<exists>d\<in>set ds. dg_Severity d = ''error'')"

definition HasWarnings :: "diagnostic list \<Rightarrow> bool" where
  "HasWarnings ds \<longleftrightarrow> (\<exists>d\<in>set ds. dg_Severity d = ''warning'')"

definition FirstError :: "diagnostic list \<Rightarrow> diagnostic option" where
  "FirstError ds = find (\<lambda>d. dg_Severity d = ''error'') ds"

definition FirstErrorText :: "diagnostic list \<Rightarrow> string" where
  "FirstErrorText ds =
     (case FirstError ds of
        Some d \<Rightarrow> dg_Error d
      | None \<Rightarrow> (case ds of [] \<Rightarrow> ''unknown error'' | d # _ \<Rightarrow> dg_Error d))"

definition StrictOK :: "bool \<Rightarrow> diagnostic list \<Rightarrow> bool" where
  "StrictOK strict ds = (if HasErrors ds then False else \<not> strict \<or> \<not> HasWarnings ds)"

definition ErrorLines :: "diagnostic list \<Rightarrow> string" where
  "ErrorLines ds = concat (map (\<lambda>d. ''  '' @ dg_Error d @ [CHR 0x0A]) (Errors ds))"

section \<open>What the operations guarantee\<close>

definition digit_value :: "char \<Rightarrow> int" where
  "digit_value c = int (of_char c) - 48"

fun digits_value :: "int \<Rightarrow> string \<Rightarrow> int" where
  "digits_value acc [] = acc"
| "digits_value acc (c # cs) = digits_value (acc * 10 + digit_value c) cs"

text \<open>The reading of a decimal literal, the inverse \<^verbatim>\<open>itoa\<close> is measured against.\<close>

definition decimal_value :: "string \<Rightarrow> int" where
  "decimal_value s = (case s of [] \<Rightarrow> 0 | c # cs \<Rightarrow>
     if c = CHR 0x2D then - digits_value 0 cs else digits_value 0 (c # cs))"

lemma digit_char: "0 \<le> k \<Longrightarrow> k < 10 \<Longrightarrow> digit_value (char_of (48 + nat k)) = k"
  by (simp add: digit_value_def)

lemma digit_char_not_minus: "0 \<le> k \<Longrightarrow> k < 10 \<Longrightarrow> char_of (48 + nat k) \<noteq> CHR 0x2D"
proof
  assume k: "0 \<le> k" "k < 10" and "char_of (48 + nat k) = CHR 0x2D"
  then have "of_char (char_of (48 + nat k) :: char) = (of_char (CHR 0x2D) :: nat)" by simp
  then show False using k by simp
qed

lemma digits_value_append: "digits_value a (xs @ ys) = digits_value (digits_value a xs) ys"
  by (induction xs arbitrary: a) auto

lemma itoa_loop_stop [simp]: "n \<le> 0 \<Longrightarrow> itoa_loop n b = b"
  by (simp add: itoa_loop.simps [of n b])

text \<open>The loop prepends the decimal digits of its argument.\<close>

lemma itoa_loop_value:
  "0 \<le> n \<Longrightarrow> digits_value 0 (itoa_loop n b) = digits_value n b"
proof (induction n b rule: itoa_loop.induct)
  case (1 n b)
  show ?case
  proof (cases "n > 0")
    case True
    have "0 \<le> n mod 10" "n mod 10 < 10" by auto
    from digit_char [OF this] have "digits_value (n div 10) (char_of (48 + nat (n mod 10)) # b) = digits_value n b"
      by simp
    with 1 True show ?thesis by (simp add: itoa_loop.simps [of n b])
  qed (use 1 in \<open>simp add: itoa_loop.simps [of n b]\<close>)
qed

lemma itoa_loop_length:
  "n < 10 ^ k \<Longrightarrow> length (itoa_loop n b) \<le> k + length b"
proof (induction n b arbitrary: k rule: itoa_loop.induct)
  case (1 n b)
  show ?case
  proof (cases "n > 0")
    case True
    then obtain j where k: "k = Suc j" using 1(2) by (cases k) auto
    then have "n div 10 < 10 ^ j" using 1(2) by auto
    from 1(1) [OF True this] show ?thesis using True k by (simp add: itoa_loop.simps [of n b])
  qed (simp add: itoa_loop.simps [of n b])
qed

lemma itoa_loop_head:
  "0 < n \<Longrightarrow> \<exists>c cs. itoa_loop n b = c # cs \<and> c \<noteq> CHR 0x2D"
proof (induction n b rule: itoa_loop.induct)
  case (1 n b)
  show ?case
  proof (cases "n div 10 > 0")
    case True
    with 1 show ?thesis by (simp add: itoa_loop.simps [of n b])
  next
    case False
    have "0 \<le> n mod 10" "n mod 10 < 10" by auto
    then have "char_of (48 + nat (n mod 10)) \<noteq> CHR 0x2D" by (rule digit_char_not_minus)
    then show ?thesis using 1(2) False
      by (simp add: itoa_loop.simps [of n b])
  qed
qed

lemma wrap64_id: "- (2 ^ 63) \<le> x \<Longrightarrow> x < 2 ^ 63 \<Longrightarrow> wrap64 x = x"
  by (simp add: wrap64_def)

section \<open>Properties\<close>

text \<open>
  C38. The rendering of line numbers is exact: for every 64-bit integer other than the least one,
  the text \<^verbatim>\<open>itoa\<close> produces reads back as the integer, and it fits the 20-byte buffer of the Go
  code, so the descending index never leaves it.
\<close>

theorem itoa_roundtrip:
  assumes "- (2 ^ 63) < n" and "n < 2 ^ 63"
  shows "decimal_value (itoa n) = n \<and> length (itoa n) \<le> 20"
proof -
  consider (zero) "n = 0" | (pos) "n > 0" | (neg) "n < 0" by linarith
  then show ?thesis
  proof cases
    case zero
    then show ?thesis by (simp add: itoa_def decimal_value_def digit_value_def)
  next
    case pos
    have "n < 10 ^ 19" using assms by simp
    from itoa_loop_length [OF this, of "[]"] show ?thesis
      using pos itoa_loop_head [OF pos, of "[]"] itoa_loop_value [of n "[]"]
      by (auto simp: itoa_def decimal_value_def split: list.splits)
  next
    case neg
    then have w: "wrap64 (- n) = - n" using assms by (intro wrap64_id) auto
    have "- n < 10 ^ 19" using assms by simp
    from itoa_loop_length [OF this, of "[]"] show ?thesis
      using neg itoa_loop_value [of "- n" "[]"] by (simp add: itoa_def decimal_value_def w)
  qed
qed

theorem itoa_roundtrip_witness: "decimal_value (itoa (- 4096)) = - 4096 \<and> length (itoa (- 4096)) \<le> 20"
  by (rule itoa_roundtrip) simp_all

end
