(* ===== verification/IRTypes.thy ===== *)
theory IRTypes
  imports ConfigTypes "HOL-Library.AList"
begin

text \<open>
  The compiled form of a pipeline (\<^verbatim>\<open>src/internal/ir/ir.go\<close>, types \<^verbatim>\<open>Edge\<close>, \<^verbatim>\<open>Node\<close>,
  \<^verbatim>\<open>Pipeline\<close>) and the plugin interfaces the engine calls (\<^verbatim>\<open>src/internal/registry/registry.go\<close>).
  A plugin instance is the record of its methods. Compiled conditions and order keys are functions
  of the decoded payload and the metadata that may fail; the node map is an association list, so a
  pipeline has finitely many nodes by construction.
\<close>

section \<open>Plugin interfaces\<close>

record codec =
  co_Decode :: "bytes \<Rightarrow> go_error + any"
  co_Encode :: "any \<Rightarrow> go_error + bytes"

text \<open>The failure kinds of \<^verbatim>\<open>registry.FailureKind\<close>.\<close>

definition FailureSteps :: string where "FailureSteps = ''steps''"
definition FailureTimeout :: string where "FailureTimeout = ''timeout''"
definition FailureOther :: string where "FailureOther = ''other''"

text \<open>An error of a transform: a plain error, or a \<^verbatim>\<open>*registry.TransformError\<close> found in its chain.\<close>

record transformError =
  te_Err :: string
  te_Backtrace :: string
  te_Kind :: string
  te_DiagCode :: string
  te_Hint :: string

datatype apply_error = PlainError string | TypedError string transformError

fun apply_error_text :: "apply_error \<Rightarrow> string" where
  "apply_error_text (PlainError s) = s"
| "apply_error_text (TypedError s te) = s"

record whenPredicate =
  wp_Lang :: string
  wp_Eval :: "any \<Rightarrow> meta \<Rightarrow> go_error + bool"

section \<open>Edges, nodes and pipelines\<close>

record edge =
  eg_From :: node_name
  eg_To :: node_name
  eg_Line :: int
  eg_When :: "whenPredicate option"
  eg_WhenSource :: string
  eg_RouteName :: string
  eg_Required :: bool
  eg_Retries :: int
  eg_Backoff :: string
  eg_TimeoutMs :: int
  eg_BufferMax :: int

record node =
  nd_Name :: node_name
  nd_Section :: node_section
  nd_Config :: cfg_node
  nd_Out :: "edge list"
  nd_In :: "edge list"
  nd_Retained :: bool   \<comment> \<open>whether \<^verbatim>\<open>Transform\<close> holds an open instance\<close>
  nd_ExplainSafe :: bool
  nd_OrderKey :: "(any \<Rightarrow> meta \<Rightarrow> go_error + string) option"

record pipeline_ir =
  p_Config :: cfg_pipeline
  p_Nodes :: "(node_name \<times> node) list"
  p_Order :: "node_name list"
  p_Parameters :: "(string \<times> any) list"
  p_Codecs :: "(string \<times> codec) list"
  p_resolvedCodecs :: "(string \<times> codec) list"

abbreviation the_node :: "pipeline_ir \<Rightarrow> node_name \<rightharpoonup> node" where
  "the_node p \<equiv> map_of (p_Nodes p)"

definition node_out :: "pipeline_ir \<Rightarrow> node_name \<Rightarrow> edge list" where
  "node_out p n = (case the_node p n of None \<Rightarrow> [] | Some nd \<Rightarrow> nd_Out nd)"

definition node_in :: "pipeline_ir \<Rightarrow> node_name \<Rightarrow> edge list" where
  "node_in p n = (case the_node p n of None \<Rightarrow> [] | Some nd \<Rightarrow> nd_In nd)"

text \<open>\<^verbatim>\<open>Pipeline.Codec\<close>: a declared name first, then a bare name the build resolved.\<close>

definition p_Codec :: "pipeline_ir \<Rightarrow> string \<Rightarrow> codec option" where
  "p_Codec p name =
     (case map_of (p_Codecs p) name of Some c \<Rightarrow> Some c | None \<Rightarrow> map_of (p_resolvedCodecs p) name)"

definition hasCap :: "string list \<Rightarrow> string \<Rightarrow> bool" where
  "hasCap caps want \<longleftrightarrow> (\<exists>c\<in>set caps. c = want)"

fun cfg_map :: "any \<Rightarrow> (string \<times> any) list" where
  "cfg_map (AMap m) = m"
| "cfg_map _ = []"

text \<open>\<^verbatim>\<open>pluginCfgMap\<close>: the plugin block as a mapping, empty when it is none.\<close>

definition pluginCfgMap :: "cfg_node \<Rightarrow> (string \<times> any) list" where
  "pluginCfgMap n = cfg_map (cn_PluginConfig n)"

definition scriptText :: "cfg_node \<Rightarrow> string" where
  "scriptText n =
     (if cn_Section n = SectionTransform \<and> cn_Plugin n = ''script''
      then (case cn_PluginConfig n of AStr s \<Rightarrow> s | _ \<Rightarrow> '''') else '''')"

end
