(* ===== verification/Graphs.thy ===== *)
theory Graphs
  imports Main
begin

text \<open>
  The depth-first searches of \<^verbatim>\<open>src/internal/ir/ir.go\<close> over a finite graph given as an adjacency
  list. Each Go closure \<^verbatim>\<open>visit\<close>/\<^verbatim>\<open>mark\<close>/\<^verbatim>\<open>walk\<close> calls itself in a loop over a node's neighbours; the
  definitions below are that loop, with the recursive call in its body. A node outside the
  adjacency list has no neighbours. They terminate because a nested call either marks one more
  node of the graph or has nothing to visit.
\<close>

type_synonym 'n adj = "('n \<times> 'n list) list"

definition neighbours :: "'n adj \<Rightarrow> 'n \<Rightarrow> 'n list" where
  "neighbours g x = (case map_of g x of None \<Rightarrow> [] | Some ys \<Rightarrow> ys)"

definition unseen :: "('n \<times> 'b) list \<Rightarrow> 'n set \<Rightarrow> nat" where
  "unseen g seen = card (set (map fst g) - seen)"

lemma unseen_mono: "seen \<subseteq> seen' \<Longrightarrow> unseen g seen' \<le> unseen g seen"
  unfolding unseen_def by (rule card_mono) auto

lemma unseen_insert: "x \<in> set (map fst g) \<Longrightarrow> x \<notin> seen \<Longrightarrow> unseen g (insert x seen) < unseen g seen"
  unfolding unseen_def by (rule psubset_card_mono) auto

lemma map_of_empty_unless: "map_of g x \<noteq> None \<Longrightarrow> x \<in> set (map fst g)"
  by (metis map_of_eq_None_iff set_map)

section \<open>Search with a post-order action\<close>

function (domintros) dfs :: "'n adj \<Rightarrow> ('n \<Rightarrow> 'a \<Rightarrow> 'a) \<Rightarrow> 'n list \<Rightarrow> 'n set \<Rightarrow> 'a \<Rightarrow> 'n set \<times> 'a" where
  "dfs g post [] seen acc = (seen, acc)"
| "dfs g post (x # xs) seen acc =
     (if x \<in> seen then dfs g post xs seen acc
      else case dfs g post (neighbours g x) (insert x seen) acc of
             (seen1, acc1) \<Rightarrow> dfs g post xs seen1 (post x acc1))"
  by pat_completeness auto

lemma dfs_dom_mono: "dfs_dom (g, post, xs, seen, acc) \<Longrightarrow> seen \<subseteq> fst (dfs g post xs seen acc)"
  by (induction rule: dfs.pinduct) (force simp: dfs.psimps split: prod.splits)+

termination dfs
proof (relation "measures [\<lambda>(g, post, xs, seen, acc). unseen g seen, \<lambda>(g, post, xs, seen, acc). length xs]",
    goal_cases)
  case (3 g post x xs seen acc)
  show ?case
  proof (cases "map_of g x")
    case None
    have "unseen g (insert x seen) \<le> unseen g seen" by (rule unseen_mono) auto
    with None show ?thesis by (auto simp: neighbours_def)
  next
    case (Some ys)
    with 3 show ?thesis using unseen_insert [of x g seen] map_of_empty_unless [of g x] by simp
  qed
next
  case (4 g post x xs seen acc seen1 acc1)
  have "insert x seen \<subseteq> seen1"
    using dfs_dom_mono [OF 4(3)] arg_cong [OF 4(2), of fst] by simp
  then have "unseen g seen1 \<le> unseen g seen" by (intro unseen_mono) auto
  then show ?case by auto
qed auto

section \<open>Search for a target that stops at barriers\<close>

function (domintros) dfs_find ::
    "'n adj \<Rightarrow> ('n \<Rightarrow> bool) \<Rightarrow> ('n \<Rightarrow> bool) \<Rightarrow> 'n list \<Rightarrow> 'n set \<Rightarrow> 'n set \<times> bool" where
  "dfs_find g barrier target [] seen = (seen, False)"
| "dfs_find g barrier target (x # xs) seen =
     (if x \<in> seen then dfs_find g barrier target xs seen
      else if target x then (insert x seen, True)
      else if barrier x then dfs_find g barrier target xs (insert x seen)
      else case dfs_find g barrier target (neighbours g x) (insert x seen) of
             (seen1, found) \<Rightarrow> if found then (seen1, True) else dfs_find g barrier target xs seen1)"
  by pat_completeness auto

lemma dfs_find_dom_mono:
  "dfs_find_dom (g, b, t, xs, seen) \<Longrightarrow> seen \<subseteq> fst (dfs_find g b t xs seen)"
  by (induction rule: dfs_find.pinduct) (force simp: dfs_find.psimps split: prod.splits)+

termination dfs_find
proof (relation "measures [\<lambda>(g, b, t, xs, seen). unseen g seen, \<lambda>(g, b, t, xs, seen). length xs]",
    goal_cases)
  case (3 g b t x xs seen)
  have "unseen g (insert x seen) \<le> unseen g seen" by (rule unseen_mono) auto
  then show ?case by auto
next
  case (4 g b t x xs seen)
  show ?case
  proof (cases "map_of g x")
    case None
    have "unseen g (insert x seen) \<le> unseen g seen" by (rule unseen_mono) auto
    with None show ?thesis by (auto simp: neighbours_def)
  next
    case (Some ys)
    with 4 show ?thesis using unseen_insert [of x g seen] map_of_empty_unless [of g x] by simp
  qed
next
  case (5 g b t x xs seen seen1 found)
  have "insert x seen \<subseteq> seen1"
    using dfs_find_dom_mono [OF 5(6)] arg_cong [OF 5(4), of fst] by simp
  then have "unseen g seen1 \<le> unseen g seen" by (intro unseen_mono) auto
  then show ?case by auto
qed auto

section \<open>Search for a cycle with three colours\<close>

datatype color = White | Grey | Black

text \<open>
  \<open>E\<close> lists the labelled out-edges of a node (\<open>tgt\<close> is the target of one). The result is the
  colouring and, when a grey node was hit, the edge that hit it with the stack of node names.
\<close>

definition edges_of :: "('n \<times> 'e list) list \<Rightarrow> 'n \<Rightarrow> 'e list" where
  "edges_of g x = (case map_of g x of None \<Rightarrow> [] | Some es \<Rightarrow> es)"

definition colored :: "('n \<Rightarrow> color) \<Rightarrow> 'n set" where
  "colored col = {x. col x \<noteq> White}"

lemma colored_upd [simp]: "c \<noteq> White \<Longrightarrow> colored (col(x := c)) = insert x (colored col)"
  by (auto simp: colored_def)

lemma colored_if [simp]: "c \<noteq> White \<Longrightarrow> colored (\<lambda>a. if a = x then c else col a) = insert x (colored col)"
  by (auto simp: colored_def)

function (domintros) dfs_cycle :: "('e \<Rightarrow> 'n) \<Rightarrow> ('n \<times> 'e list) list \<Rightarrow> 'n list \<Rightarrow> 'e list \<Rightarrow> ('n \<Rightarrow> color)
    \<Rightarrow> ('n \<Rightarrow> color) \<times> ('n list \<times> 'e) option" where
  "dfs_cycle tgt g stack [] col = (col, None)"
| "dfs_cycle tgt g stack (e # es) col =
     (case col (tgt e) of
        Grey \<Rightarrow> (col, Some (stack, e))
      | White \<Rightarrow>
          (case dfs_cycle tgt g (stack @ [tgt e]) (edges_of g (tgt e)) (col(tgt e := Grey)) of
             (col1, Some hit) \<Rightarrow> (col1, Some hit)
           | (col1, None) \<Rightarrow> dfs_cycle tgt g stack es (col1(tgt e := Black)))
      | Black \<Rightarrow> dfs_cycle tgt g stack es col)"
  by pat_completeness auto

lemma dfs_cycle_dom_mono:
  "dfs_cycle_dom (tgt, g, stack, es, col) \<Longrightarrow> colored col \<subseteq> colored (fst (dfs_cycle tgt g stack es col))"
proof (induction rule: dfs_cycle.pinduct)
  case (2 tgt g stack e es col)
  show ?case
  proof (cases "col (tgt e)")
    case White
    obtain col1 r where c: "dfs_cycle tgt g (stack @ [tgt e]) (edges_of g (tgt e)) (col(tgt e := Grey)) = (col1, r)"
      by fastforce
    have a: "colored col \<subseteq> colored col1" using "2.IH"(1) [OF White] unfolding c by simp
    show ?thesis
    proof (cases r)
      case None
      have "colored (col1(tgt e := Black)) \<subseteq> colored (fst (dfs_cycle tgt g stack es (col1(tgt e := Black))))"
        using "2.IH"(2) [OF White c [symmetric] None] by (simp add: fun_upd_def)
      then show ?thesis using a White c None "2.hyps" by (simp add: dfs_cycle.psimps) blast
    qed (use a White c "2.hyps" in \<open>simp add: dfs_cycle.psimps\<close>)
  qed (use 2 in \<open>auto simp: dfs_cycle.psimps\<close>)
qed (simp add: dfs_cycle.psimps)

termination dfs_cycle
proof (relation "measures [\<lambda>(tgt, g, stack, es, col). unseen g (colored col),
    \<lambda>(tgt, g, stack, es, col). length es]", goal_cases)
  case (2 tgt g stack e es col)
  have col: "colored (col(tgt e := Grey)) = insert (tgt e) (colored col)" "tgt e \<notin> colored col"
    using 2 by (auto simp: colored_def)
  show ?case
  proof (cases "map_of g (tgt e)")
    case None
    have "unseen g (insert (tgt e) (colored col)) \<le> unseen g (colored col)" by (rule unseen_mono) auto
    with None col show ?thesis by (auto simp: edges_of_def)
  next
    case (Some ys)
    with col show ?thesis
      using unseen_insert [of "tgt e" g "colored col"] map_of_empty_unless [of g "tgt e"] by simp
  qed
next
  case (3 tgt g stack e es col col1 r)
  have "colored (col(tgt e := Grey)) \<subseteq> colored col1" using dfs_cycle_dom_mono [OF 3(4)] by (metis 3(2) fst_conv)
  then have "unseen g (colored (col1(tgt e := Black))) \<le> unseen g (colored col)"
    by (intro unseen_mono) auto
  then show ?case by auto
qed auto

section \<open>What the searches visit\<close>

definition arcs :: "'n adj \<Rightarrow> 'n rel" where
  "arcs g = {(x, y). y \<in> set (neighbours g x)}"

text \<open>From \<open>seen\<close> to \<open>R\<close> every new node is no target, and its neighbours are marked unless it is a
  barrier.\<close>

definition explored :: "'n adj \<Rightarrow> ('n \<Rightarrow> bool) \<Rightarrow> ('n \<Rightarrow> bool) \<Rightarrow> 'n set \<Rightarrow> 'n set \<Rightarrow> bool" where
  "explored g b t seen R \<longleftrightarrow> seen \<subseteq> R
     \<and> (\<forall>x. x \<in> R \<longrightarrow> x \<notin> seen \<longrightarrow> \<not> t x \<and> (\<not> b x \<longrightarrow> set (neighbours g x) \<subseteq> R))"

lemma explored_refl [simp]: "explored g b t seen seen"
  by (simp add: explored_def)

lemma explored_sub: "explored g b t seen R \<Longrightarrow> seen \<subseteq> R"
  by (simp add: explored_def)

lemma explored_trans:
  assumes "explored g b t R0 R1" and "explored g b t R1 R2"
  shows "explored g b t R0 R2"
  unfolding explored_def
proof (intro conjI allI impI)
  show "R0 \<subseteq> R2" using assms by (auto simp: explored_def)
  fix x
  assume x: "x \<in> R2" "x \<notin> R0"
  show "\<not> t x" using assms x by (cases "x \<in> R1") (auto simp: explored_def)
  assume "\<not> b x"
  then show "set (neighbours g x) \<subseteq> R2"
    using assms x unfolding explored_def by (cases "x \<in> R1") (meson order.trans)+
qed

lemma explored_insert:
  assumes "explored g b t (insert x seen) R" and "\<not> t x" and "\<not> b x \<Longrightarrow> set (neighbours g x) \<subseteq> R"
  shows "explored g b t seen R"
  unfolding explored_def
proof (intro conjI allI impI)
  fix y
  assume y: "y \<in> R" "y \<notin> seen"
  show "\<not> t y" using assms y by (cases "y = x") (auto simp: explored_def)
  assume "\<not> b y"
  then show "set (neighbours g y) \<subseteq> R"
    using assms y unfolding explored_def by (cases "y = x") (metis insertE)+
qed (use assms in \<open>auto simp: explored_def\<close>)

lemma explored_reach:
  assumes "explored g b t {} R" and "x \<in> R" and "(x, y) \<in> (arcs g \<inter> {x. \<not> b x} \<times> UNIV)\<^sup>*"
  shows "y \<in> R \<and> \<not> t y"
proof -
  have "y \<in> R" using assms(3)
  proof (induction rule: rtrancl_induct)
    case (step y z)
    then have "set (neighbours g y) \<subseteq> R" using assms(1) by (auto simp: explored_def)
    then show ?case using step by (auto simp: arcs_def)
  qed (rule assms(2))
  then show ?thesis using assms(1) by (auto simp: explored_def)
qed

lemma dfs_explored:
  "explored g (\<lambda>_. False) (\<lambda>_. False) seen (fst (dfs g post xs seen acc))
   \<and> set xs \<subseteq> fst (dfs g post xs seen acc)"
proof (induction g post xs seen acc rule: dfs.induct)
  case (2 g post x xs seen acc)
  let ?none = "\<lambda>_ :: 'a. False"
  show ?case
  proof (cases "x \<in> seen")
    case True
    with 2(1) show ?thesis using explored_sub [of g ?none ?none seen] by auto
  next
    case False
    obtain seen1 acc1 where d: "dfs g post (neighbours g x) (insert x seen) acc = (seen1, acc1)" by fastforce
    have 1: "explored g ?none ?none (insert x seen) seen1" "set (neighbours g x) \<subseteq> seen1"
      using 2(2) [OF False] d by simp_all
    from explored_insert [OF 1(1)] 1(2) have 3: "explored g ?none ?none seen seen1" by simp
    have 4: "explored g ?none ?none seen1 (fst (dfs g post xs seen1 (post x acc1)))"
      "set xs \<subseteq> fst (dfs g post xs seen1 (post x acc1))"
      using 2(3) [OF False d [symmetric]] by simp_all
    have "x \<in> fst (dfs g post xs seen1 (post x acc1))"
      using explored_sub [OF 1(1)] explored_sub [OF 4(1)] by blast
    then show ?thesis using explored_trans [OF 3 4(1)] 4(2) False d by simp
  qed
qed simp

lemma dfs_within: "fst (dfs g post xs seen acc) \<subseteq> seen \<union> (arcs g)\<^sup>* `` set xs"
proof (induction g post xs seen acc rule: dfs.induct)
  case (2 g post x xs seen acc)
  show ?case
  proof (cases "x \<in> seen")
    case False
    obtain seen1 acc1 where d: "dfs g post (neighbours g x) (insert x seen) acc = (seen1, acc1)" by fastforce
    have "(arcs g)\<^sup>* `` set (neighbours g x) \<subseteq> (arcs g)\<^sup>* `` {x}"
      by (auto simp: arcs_def intro: converse_rtrancl_into_rtrancl)
    with 2(2) [OF False] 2(3) [OF False d [symmetric]] show ?thesis using False d by simp blast
  qed (use 2 in auto)
qed simp

lemma dfs_reaches: "fst (dfs g post xs {} acc) = (arcs g)\<^sup>* `` set xs"
proof
  show "(arcs g)\<^sup>* `` set xs \<subseteq> fst (dfs g post xs {} acc)"
    using explored_reach [of g "\<lambda>_. False" "\<lambda>_. False" "fst (dfs g post xs {} acc)"]
      dfs_explored [of g "{}" post xs acc] by auto
qed (use dfs_within [of g post xs "{}" acc] in simp)

lemma dfs_find_sound:
  "snd (dfs_find g barrier target xs seen) \<Longrightarrow>
     \<exists>x\<in>set xs. \<exists>t. (x, t) \<in> (arcs g \<inter> {x. \<not> barrier x} \<times> UNIV)\<^sup>* \<and> target t"
proof (induction g barrier target xs seen rule: dfs_find.induct)
  case (2 g barrier target x xs seen)
  show ?case
  proof (cases "x \<in> seen \<or> target x \<or> barrier x")
    case False
    obtain seen1 found where d: "dfs_find g barrier target (neighbours g x) (insert x seen) = (seen1, found)"
      by fastforce
    show ?thesis
    proof (cases found)
      case True
      then obtain y t where "y \<in> set (neighbours g x)" "(y, t) \<in> (arcs g \<inter> {x. \<not> barrier x} \<times> UNIV)\<^sup>*" "target t"
        using "2.IH"(3) False d by auto
      moreover have "(x, y) \<in> arcs g \<inter> {x. \<not> barrier x} \<times> UNIV" using calculation(1) False by (simp add: arcs_def)
      ultimately show ?thesis by (auto intro: converse_rtrancl_into_rtrancl)
    qed (use 2 False d in auto)
  qed (use 2 in \<open>auto split: if_splits\<close>)
qed simp

lemma dfs_find_explored:
  "\<not> snd (dfs_find g barrier target xs seen) \<Longrightarrow>
     explored g barrier target seen (fst (dfs_find g barrier target xs seen))
     \<and> set xs \<subseteq> fst (dfs_find g barrier target xs seen)"
proof (induction g barrier target xs seen rule: dfs_find.induct)
  case (2 g barrier target x xs seen)
  consider (seen) "x \<in> seen" | (target) "x \<notin> seen" "target x" | (barrier) "x \<notin> seen" "\<not> target x" "barrier x"
    | (walk) "x \<notin> seen" "\<not> target x" "\<not> barrier x" by blast
  then show ?case
  proof cases
    case seen
    with 2(1,5) have "explored g barrier target seen (fst (dfs_find g barrier target xs seen))"
      "set xs \<subseteq> fst (dfs_find g barrier target xs seen)" by simp_all
    then show ?thesis using seen explored_sub by (simp, blast)
  next
    case barrier
    with 2(2,5) have i: "explored g barrier target (insert x seen) (fst (dfs_find g barrier target xs (insert x seen)))"
      "set xs \<subseteq> fst (dfs_find g barrier target xs (insert x seen))" by simp_all
    with barrier show ?thesis using explored_insert [OF i(1)] explored_sub [OF i(1)] by simp
  next
    case walk
    obtain seen1 found where d: "dfs_find g barrier target (neighbours g x) (insert x seen) = (seen1, found)"
      by fastforce
    with walk 2(5) have nf: "\<not> found" "\<not> snd (dfs_find g barrier target xs seen1)" by (cases found; simp)+
    have 1: "explored g barrier target (insert x seen) seen1" "set (neighbours g x) \<subseteq> seen1"
      using 2(3) [OF walk] d nf by simp_all
    have 2: "explored g barrier target seen1 (fst (dfs_find g barrier target xs seen1))"
      "set xs \<subseteq> fst (dfs_find g barrier target xs seen1)"
      using 2(4) [OF walk d [symmetric] nf] by simp_all
    from explored_insert [OF 1(1) walk(2) 1(2)] have "explored g barrier target seen seen1" .
    then have "explored g barrier target seen (fst (dfs_find g barrier target xs seen1))"
      using 2(1) by (rule explored_trans)
    moreover have "x \<in> fst (dfs_find g barrier target xs seen1)"
      using explored_sub [OF 1(1)] explored_sub [OF 2(1)] by blast
    ultimately show ?thesis using walk nf d 2(2) by simp
  qed (use 2 in simp)
qed simp

lemma dfs_find_iff:
  "snd (dfs_find g barrier target [x] {}) \<longleftrightarrow>
     (\<exists>t. (x, t) \<in> (arcs g \<inter> {x. \<not> barrier x} \<times> UNIV)\<^sup>* \<and> target t)"
proof
  assume "\<exists>t. (x, t) \<in> (arcs g \<inter> {x. \<not> barrier x} \<times> UNIV)\<^sup>* \<and> target t"
  then obtain t where t: "(x, t) \<in> (arcs g \<inter> {x. \<not> barrier x} \<times> UNIV)\<^sup>*" "target t" by blast
  show "snd (dfs_find g barrier target [x] {})"
  proof (rule ccontr)
    assume "\<not> snd (dfs_find g barrier target [x] {})"
    note e = dfs_find_explored [OF this]
    from explored_reach [OF conjunct1 [OF e] _ t(1)] conjunct2 [OF e] t(2) show False
      by (simp del: dfs_find.simps)
  qed
qed (use dfs_find_sound [of g barrier target "[x]" "{}"] in \<open>simp del: dfs_find.simps\<close>)

section \<open>Post-order is a topological order\<close>

definition post_append :: "'n \<Rightarrow> 'n list \<Rightarrow> 'n list" where
  "post_append x out = out @ [x]"

definition deps_first :: "'n adj \<Rightarrow> 'n list \<Rightarrow> bool" where
  "deps_first g out \<longleftrightarrow> (\<forall>i < length out. set (neighbours g (out ! i)) \<subseteq> set (take i out))"

lemma deps_first_snoc:
  "deps_first g (out @ [x]) \<longleftrightarrow> deps_first g out \<and> set (neighbours g x) \<subseteq> set out"
  by (auto simp: deps_first_def less_Suc_eq nth_append)

lemma dfs_topological:
  fixes post :: "'n \<Rightarrow> 'n list \<Rightarrow> 'n list"
  shows "dfs g post xs seen out = (seen', out') \<Longrightarrow> post = post_append \<Longrightarrow> acyclic (arcs g) \<Longrightarrow>
    set out \<subseteq> seen \<Longrightarrow> distinct out \<Longrightarrow> deps_first g out \<Longrightarrow>
    (\<forall>a\<in>seen - set out. \<forall>x\<in>set xs. (a, x) \<in> (arcs g)\<^sup>+) \<Longrightarrow>
    set out' \<subseteq> seen' \<and> distinct out' \<and> deps_first g out' \<and> seen' - set out' = seen - set out
    \<and> set xs \<subseteq> set out' \<and> set out \<subseteq> set out'"
proof (induction g post xs seen out arbitrary: seen' out' rule: dfs.induct)
  case (2 g post x xs seen out)
  show ?case
  proof (cases "x \<in> seen")
    case True
    then have "x \<in> set out" using 2(6,10) by (auto simp: acyclic_def)
    with 2(1) [OF True, of seen' out'] 2(4-10) True show ?thesis by auto
  next
    case False
    obtain seen1 out1 where d: "dfs g post (neighbours g x) (insert x seen) out = (seen1, out1)" by fastforce
    with False 2(4,5) have d2: "dfs g post xs seen1 (post x out1) = (seen', out')" by simp
    have "(a, y) \<in> (arcs g)\<^sup>+" if "a \<in> insert x seen - set out" "y \<in> set (neighbours g x)" for a y
      using that 2(10) by (auto simp: arcs_def intro: trancl_into_trancl)
    then have 1: "set out1 \<subseteq> seen1" "distinct out1" "deps_first g out1"
      "seen1 - set out1 = insert x seen - set out" "set (neighbours g x) \<subseteq> set out1" "set out \<subseteq> set out1"
      using 2(2) [OF False d] 2(5-9) by auto
    have x: "x \<in> seen1" "x \<notin> set out1" using 1(4) False 2(7) by auto
    have rest: "seen1 - set (out1 @ [x]) = seen - set out" using 1(4) False by auto
    have "set out' \<subseteq> seen' \<and> distinct out' \<and> deps_first g out' \<and> seen' - set out' = seen1 - set (out1 @ [x])
        \<and> set xs \<subseteq> set out' \<and> set (out1 @ [x]) \<subseteq> set out'"
      unfolding post_append_def [symmetric] 2(5) [symmetric]
      by (rule 2(3) [OF False d [symmetric], of seen' out'])
        (use d2 1 x rest 2(5,6,10) in \<open>auto simp: post_append_def deps_first_snoc\<close>)
    then show ?thesis using rest 1(6) by auto
  qed
qed auto

lemma dfs_topological_order:
  assumes "acyclic (arcs g)" and "dfs g post_append xs {} [] = (seen, out)"
  shows "distinct out" and "deps_first g out" and "set out = (arcs g)\<^sup>* `` set xs"
proof -
  have t: "set out \<subseteq> seen \<and> distinct out \<and> deps_first g out \<and> seen - set out = {} - set []
      \<and> set xs \<subseteq> set out \<and> set [] \<subseteq> set out"
    by (rule dfs_topological [OF assms(2) refl assms(1)]) (auto simp: deps_first_def)
  then show "distinct out" "deps_first g out" by simp_all
  have "seen = (arcs g)\<^sup>* `` set xs" using dfs_reaches [of g post_append xs "[]"] assms(2) by simp
  with t show "set out = (arcs g)\<^sup>* `` set xs" by auto
qed

section \<open>The colour search finds a cycle exactly when there is one\<close>

definition labelled_arcs :: "('e \<Rightarrow> 'n) \<Rightarrow> ('n \<times> 'e list) list \<Rightarrow> 'n rel" where
  "labelled_arcs tgt g = {(x, y). \<exists>e\<in>set (edges_of g x). y = tgt e}"

definition settled_black :: "('e \<Rightarrow> 'n) \<Rightarrow> ('n \<times> 'e list) list \<Rightarrow> ('n \<Rightarrow> color) \<Rightarrow> bool" where
  "settled_black tgt g col \<longleftrightarrow>
     (\<forall>x y. col x = Black \<longrightarrow> (x, y) \<in> labelled_arcs tgt g \<longrightarrow> col y = Black)
     \<and> acyclic (labelled_arcs tgt g \<inter> {x. col x = Black} \<times> UNIV)"

lemma acyclic_add_source:
  assumes "acyclic (E \<inter> B \<times> UNIV)" and "E `` B \<subseteq> B" and "x \<notin> B" and "E `` {x} \<subseteq> B"
  shows "acyclic (E \<inter> insert x B \<times> UNIV)"
proof -
  have "(a, b) \<in> (E \<inter> insert x B \<times> UNIV)\<^sup>+ \<Longrightarrow> b \<in> B \<and> (a \<in> B \<longrightarrow> (a, b) \<in> (E \<inter> B \<times> UNIV)\<^sup>+)" for a b
  proof (induction rule: trancl_induct)
    case (base b)
    then show ?case using assms by auto
  next
    case (step b c)
    then have "(b, c) \<in> E \<inter> B \<times> UNIV" by auto
    then show ?case using step assms(2) by (auto intro: trancl_into_trancl)
  qed
  then show ?thesis using assms(1) unfolding acyclic_def by blast
qed

text \<open>A node whose out-edges all lead to settled nodes can be settled.\<close>

lemma settled_black_paint:
  assumes set: "settled_black tgt g col" and x: "col x \<noteq> Black"
    and out: "\<And>e. e \<in> set (edges_of g x) \<Longrightarrow> col (tgt e) = Black"
  shows "settled_black tgt g (col(x := Black))"
proof -
  let ?E = "labelled_arcs tgt g" and ?B = "{y. col y = Black}"
  have closed: "?E `` ?B \<subseteq> ?B" using set unfolding settled_black_def by blast
  have new: "?E `` {x} \<subseteq> ?B" using out by (auto simp: labelled_arcs_def)
  have B2: "{y. (col(x := Black)) y = Black} = insert x ?B" by auto
  have "acyclic (?E \<inter> insert x ?B \<times> UNIV)"
    by (rule acyclic_add_source [OF _ closed _ new]) (use set x in \<open>auto simp: settled_black_def\<close>)
  moreover have "?E `` insert x ?B \<subseteq> insert x ?B" using closed new by auto
  ultimately show ?thesis unfolding settled_black_def B2 using B2 by blast
qed

lemma successively_rtrancl_last:
  "successively (\<lambda>x y. (x, y) \<in> E) xs \<Longrightarrow> x \<in> set xs \<Longrightarrow> (x, List.last xs) \<in> E\<^sup>*"
proof (induction xs arbitrary: x)
  case (Cons a xs)
  show ?case
  proof (cases xs)
    case (Cons b ys)
    have step: "(a, b) \<in> E" "successively (\<lambda>x y. (x, y) \<in> E) xs"
      using Cons.prems(1) Cons by (auto simp: successively_Cons)
    have "(b, List.last xs) \<in> E\<^sup>*" by (rule Cons.IH [OF step(2)]) (simp add: Cons)
    with step(1) have "(a, List.last xs) \<in> E\<^sup>*" by (rule converse_rtrancl_into_rtrancl)
    then show ?thesis using Cons.IH [OF step(2), of x] Cons.prems(2) Cons by auto
  qed (use Cons.prems in simp)
qed simp

lemma dfs_cycle_spec:
  assumes "dfs_cycle tgt g stack es col = (col', r)"
    and "stack \<noteq> []" and "set es \<subseteq> set (edges_of g (List.last stack))"
    and "successively (\<lambda>x y. (x, y) \<in> labelled_arcs tgt g) stack"
    and "{x. col x = Grey} = set stack" and "settled_black tgt g col"
  shows "case r of
      Some hit \<Rightarrow> \<not> acyclic (labelled_arcs tgt g)
    | None \<Rightarrow> {x. col' x = Grey} = set stack \<and> settled_black tgt g col' \<and> (\<forall>e\<in>set es. col' (tgt e) = Black)
        \<and> (\<forall>x. col x = Black \<longrightarrow> col' x = Black)"
  using assms
proof (induction tgt g stack es col arbitrary: col' r rule: dfs_cycle.induct)
  case (2 tgt g stack e es col)
  let ?E = "labelled_arcs tgt g"
  have e: "(List.last stack, tgt e) \<in> ?E" using 2(6) by (auto simp: labelled_arcs_def)
  show ?case
  proof (cases "col (tgt e)")
    case Grey
    then have "tgt e \<in> set stack" using 2(8) by auto
    from successively_rtrancl_last [OF 2(7) this] e have "(tgt e, tgt e) \<in> ?E\<^sup>+"
      by (rule rtrancl_into_trancl1)
    then show ?thesis using Grey 2(4) by (auto simp: acyclic_def)
  next
    case Black
    from 2(3) [OF Black, of col' r] show ?thesis using 2(4-9) Black by (auto split: option.splits)
  next
    case White
    obtain col1 r1 where d: "dfs_cycle tgt g (stack @ [tgt e]) (edges_of g (tgt e)) (col(tgt e := Grey)) = (col1, r1)"
      by fastforce
    have sub: "case r1 of
        Some hit \<Rightarrow> \<not> acyclic ?E
      | None \<Rightarrow> {x. col1 x = Grey} = set (stack @ [tgt e]) \<and> settled_black tgt g col1
          \<and> (\<forall>e'\<in>set (edges_of g (tgt e)). col1 (tgt e') = Black)
          \<and> (\<forall>x. (col(tgt e := Grey)) x = Black \<longrightarrow> col1 x = Black)"
    proof (rule 2(1) [OF White d])
      show "successively (\<lambda>x y. (x, y) \<in> ?E) (stack @ [tgt e])"
        using 2(7) e by (simp add: successively_append_iff 2(5))
      show "{x. (col(tgt e := Grey)) x = Grey} = set (stack @ [tgt e])" using 2(8) by auto
      show "settled_black tgt g (col(tgt e := Grey))"
        using 2(9) White unfolding settled_black_def
        by (auto simp: fun_upd_def elim!: acyclic_subset)
    qed simp_all
    show ?thesis
    proof (cases r1)
      case (Some hit)
      then show ?thesis using 2(4) White d sub by auto
    next
      case None
      let ?B = "{x. col1 x = Black}" and ?col2 = "col1(tgt e := Black)"
      have s: "{x. col1 x = Grey} = set (stack @ [tgt e])" "settled_black tgt g col1"
        "\<And>e'. e' \<in> set (edges_of g (tgt e)) \<Longrightarrow> col1 (tgt e') = Black"
        "\<And>x. x \<noteq> tgt e \<Longrightarrow> col x = Black \<Longrightarrow> col1 x = Black" using sub None by auto
      have notin: "tgt e \<notin> set stack" using White unfolding 2(8) [symmetric] by simp
      have "tgt e \<in> {x. col1 x = Grey}" unfolding s(1) by simp
      then have nb: "tgt e \<notin> ?B" by simp
      have "settled_black tgt g ?col2" by (rule settled_black_paint [OF s(2) _ s(3)]) (use nb in auto)
      moreover have "{x. ?col2 x = Grey} = set stack" using s(1) notin by auto
      moreover have "dfs_cycle tgt g stack es ?col2 = (col', r)" using 2(4) White d None by simp
      ultimately have "case r of
          Some hit \<Rightarrow> \<not> acyclic ?E
        | None \<Rightarrow> {x. col' x = Grey} = set stack \<and> settled_black tgt g col' \<and> (\<forall>e\<in>set es. col' (tgt e) = Black)
            \<and> (\<forall>x. ?col2 x = Black \<longrightarrow> col' x = Black)"
        using 2(2) [OF White d [symmetric] None, of col' r] 2(5-7) by (simp add: fun_upd_def)
      then show ?thesis using s(4) White by (auto split: option.splits)
    qed
  qed
qed auto

text \<open>The outer loop over the declared nodes: \<^verbatim>\<open>visit(name, nil)\<close> for each white one, stopping at
  the first hit.\<close>

fun cycle_scan :: "('e \<Rightarrow> 'n) \<Rightarrow> ('n \<times> 'e list) list \<Rightarrow> 'n list \<Rightarrow> ('n \<Rightarrow> color) \<Rightarrow> ('n list \<times> 'e) option" where
  "cycle_scan tgt g [] col = None"
| "cycle_scan tgt g (x # xs) col =
     (if col x = White
      then (case dfs_cycle tgt g [x] (edges_of g x) (col(x := Grey)) of
              (col1, Some hit) \<Rightarrow> Some hit
            | (col1, None) \<Rightarrow> cycle_scan tgt g xs (col1(x := Black)))
      else cycle_scan tgt g xs col)"

lemma cycle_scan_spec:
  assumes "{x. col x = Grey} = {}" and "settled_black tgt g col"
  shows "case cycle_scan tgt g xs col of
      Some hit \<Rightarrow> \<not> acyclic (labelled_arcs tgt g)
    | None \<Rightarrow> acyclic (labelled_arcs tgt g \<inter> ({x. col x = Black} \<union> set xs) \<times> UNIV)"
  using assms
proof (induction tgt g xs col rule: cycle_scan.induct)
  case (2 tgt g x xs col)
  let ?E = "labelled_arcs tgt g"
  show ?case
  proof (cases "col x = White")
    case False
    then have "col x = Black" using 2(3) by (cases "col x") auto
    then have "{y. col y = Black} \<union> set (x # xs) = {y. col y = Black} \<union> set xs" by auto
    with 2(2) [OF False 2(3,4)] False show ?thesis by (simp split: option.splits)
  next
    case True
    obtain col1 r where d: "dfs_cycle tgt g [x] (edges_of g x) (col(x := Grey)) = (col1, r)" by fastforce
    have spec: "case r of
        Some hit \<Rightarrow> \<not> acyclic ?E
      | None \<Rightarrow> {y. col1 y = Grey} = set [x] \<and> settled_black tgt g col1
          \<and> (\<forall>e\<in>set (edges_of g x). col1 (tgt e) = Black) \<and> (\<forall>y. (col(x := Grey)) y = Black \<longrightarrow> col1 y = Black)"
    proof (rule dfs_cycle_spec [OF d])
      have "{y. (col(x := Grey)) y = Black} = {y. col y = Black}" using True by auto
      with 2(4) show "settled_black tgt g (col(x := Grey))"
        unfolding settled_black_def using True by (auto simp: fun_upd_def)
    qed (use 2(3) in auto)
    show ?thesis
    proof (cases r)
      case (Some hit)
      with spec True d show ?thesis by simp
    next
      case None
      let ?col2 = "col1(x := Black)"
      have s: "{y. col1 y = Grey} = {x}" "settled_black tgt g col1"
        "\<And>e. e \<in> set (edges_of g x) \<Longrightarrow> col1 (tgt e) = Black" "\<And>y. col y = Black \<Longrightarrow> col1 y = Black"
        using spec None True by (auto split: if_splits)
      have x: "col1 x = Grey" using s(1) by auto
      have "settled_black tgt g ?col2" by (rule settled_black_paint [OF s(2) _ s(3)]) (use x in auto)
      moreover have "{y. ?col2 y = Grey} = {}" using s(1) by auto
      ultimately have "case cycle_scan tgt g xs ?col2 of
          Some hit \<Rightarrow> \<not> acyclic ?E
        | None \<Rightarrow> acyclic (?E \<inter> ({y. ?col2 y = Black} \<union> set xs) \<times> UNIV)"
        using 2(1) [OF True d [symmetric] None] by blast
      moreover have "?E \<inter> ({y. col y = Black} \<union> set (x # xs)) \<times> UNIV \<subseteq> ?E \<inter> ({y. ?col2 y = Black} \<union> set xs) \<times> UNIV"
        using s(4) by auto
      ultimately show ?thesis using True d None
        by (auto split: option.splits elim: acyclic_subset)
    qed
  qed
qed (auto simp: settled_black_def)

lemma cycle_scan_iff:
  assumes "set (map fst g) \<subseteq> set xs"
  shows "cycle_scan tgt g xs (\<lambda>_. White) = None \<longleftrightarrow> acyclic (labelled_arcs tgt g)"
proof -
  have "labelled_arcs tgt g \<subseteq> set xs \<times> UNIV"
  proof
    fix p
    assume "p \<in> labelled_arcs tgt g"
    then obtain x e where "p = (x, tgt e)" "e \<in> set (edges_of g x)" by (auto simp: labelled_arcs_def)
    then show "p \<in> set xs \<times> UNIV"
      using assms map_of_empty_unless [of g x] by (cases "map_of g x") (auto simp: edges_of_def)
  qed
  then have all: "labelled_arcs tgt g \<inter> ({x. White = Black} \<union> set xs) \<times> UNIV = labelled_arcs tgt g" by auto
  have "case cycle_scan tgt g xs (\<lambda>_. White) of
      Some hit \<Rightarrow> \<not> acyclic (labelled_arcs tgt g) | None \<Rightarrow> acyclic (labelled_arcs tgt g)"
    using cycle_scan_spec [of "\<lambda>_. White" tgt g xs] unfolding all
    by (simp add: settled_black_def acyclic_def)
  then show ?thesis by (simp split: option.splits)
qed

lemma acyclic_no_edges: "acyclic (labelled_arcs tgt [])"
  by (simp add: labelled_arcs_def edges_of_def acyclic_def)

end
