(* ===== verification/Topology.thy ===== *)
theory Topology
  imports IRTypes Graphs GoText
begin

text \<open>
  The graph part of \<^verbatim>\<open>src/internal/ir/ir.go\<close>: materializing the nodes, resolving the declared
  edges with their defaults and conditions, the route and reference checks, \<^verbatim>\<open>checkTopology\<close>, the
  topological sort and the two reachability questions of the lints. The compilers of the two
  condition languages are parameters. A diagnostic carries its severity, code, file and line; in
  place of the formatted text its message holds the name the text is about.
\<close>

definition error_at :: "string \<Rightarrow> string \<Rightarrow> int \<Rightarrow> string \<Rightarrow> diagnostic" where
  "error_at code file line what = \<lparr>dg_Severity = ''error'', dg_Code = code, dg_File = file,
     dg_Line = line, dg_Message = what, dg_Hint = ''''\<rparr>"

definition warning_at :: "string \<Rightarrow> string \<Rightarrow> int \<Rightarrow> string \<Rightarrow> diagnostic" where
  "warning_at code file line what = \<lparr>dg_Severity = ''warning'', dg_Code = code, dg_File = file,
     dg_Line = line, dg_Message = what, dg_Hint = ''''\<rparr>"

type_synonym nodes = "(node_name \<times> node) list"

section \<open>Nodes and edges\<close>

definition sectionOf :: "cfg_pipeline \<Rightarrow> node_name \<Rightarrow> node_section" where
  "sectionOf cfg name =
     (if cp_Sources cfg name \<noteq> None then SectionSource
      else if cp_Transforms cfg name \<noteq> None then SectionTransform
      else SectionSink)"

text \<open>The node loop; \<open>None\<close> is the nil dereference of a name that no section declares.\<close>

fun materialize_nodes :: "cfg_pipeline \<Rightarrow> node_name list \<Rightarrow> nodes \<Rightarrow> nodes option" where
  "materialize_nodes cfg [] ns = Some ns"
| "materialize_nodes cfg (name # names) ns =
     (case (case sectionOf cfg name of
              SectionSource \<Rightarrow> cp_Sources cfg name
            | SectionTransform \<Rightarrow> cp_Transforms cfg name
            | SectionSink \<Rightarrow> cp_Sinks cfg name) of
        None \<Rightarrow> None
      | Some cn \<Rightarrow> materialize_nodes cfg names
          (AList.update name \<lparr>nd_Name = name, nd_Section = cn_Section cn, nd_Config = cn, nd_Out = [],
             nd_In = [], nd_Retained = False, nd_ExplainSafe = False, nd_OrderKey = None\<rparr> ns))"

text \<open>One declared edge: the defaults, the condition (explicit, or written out from the route
  sugar), and the per-edge overrides.\<close>

definition resolve_edge ::
    "(string \<Rightarrow> go_error + whenPredicate) \<Rightarrow> (string \<Rightarrow> go_error + whenPredicate) \<Rightarrow> string
     \<Rightarrow> delivery \<Rightarrow> bool \<Rightarrow> bufferConfig \<Rightarrow> node_name \<Rightarrow> cfg_edge \<Rightarrow> edge \<times> diagnostic list" where
  "resolve_edge cel cesql file dv rq bf name ce =
     (let e0 = \<lparr>eg_From = ce_From ce, eg_To = name, eg_Line = ce_Line ce, eg_When = None,
                eg_WhenSource = '''', eg_RouteName = '''', eg_Required = rq, eg_Retries = dv_Retries dv,
                eg_Backoff = dv_Backoff dv, eg_TimeoutMs = dv_TimeoutMs dv, eg_BufferMax = bf_MaxEvents bf\<rparr>;
          routed = (ce_Route ce \<noteq> '''');
          whenText = (if routed then ''meta.route == '' @ go_quote (ce_Route ce) else ce_When ce);
          e1 = (if routed then e0\<lparr>eg_RouteName := ce_Route ce\<rparr> else e0);
          (e2, ds) =
            (if whenText = '''' then (e1, [])
             else let e = e1\<lparr>eg_WhenSource := whenText\<rparr> in
               if ce_WhenLang ce = ''cesql'' \<and> \<not> routed
               then (case cesql whenText of
                       Inl err \<Rightarrow> (e, [error_at ''expr_cesql_compile'' file (ce_Line ce) err])
                     | Inr p \<Rightarrow> (e\<lparr>eg_When := Some p\<rparr>, []))
               else (case cel whenText of
                       Inl err \<Rightarrow>
                         let code = (if contains_str err ''route'' \<and> eg_RouteName e \<noteq> ''''
                                     then ''expr_route_compile'' else ''expr_cel_compile'')
                         in (e, [error_at code file (ce_Line ce) err])
                     | Inr p \<Rightarrow> (e\<lparr>eg_When := Some p\<rparr>, [])));
          e3 = (case ce_Delivery ce of
                  None \<Rightarrow> e2
                | Some d \<Rightarrow> e2\<lparr>eg_Retries := dv_Retries d, eg_Backoff := dv_Backoff d, eg_TimeoutMs := dv_TimeoutMs d\<rparr>);
          e4 = (case ce_Required ce of None \<Rightarrow> e3 | Some b \<Rightarrow> e3\<lparr>eg_Required := b\<rparr>);
          e5 = (case ce_Buffer ce of None \<Rightarrow> e4 | Some b \<Rightarrow> e4\<lparr>eg_BufferMax := bf_MaxEvents b\<rparr>)
      in (e5, ds))"

fun resolve_node ::
    "(node_name \<Rightarrow> cfg_edge \<Rightarrow> edge \<times> diagnostic list) \<Rightarrow> node_name \<Rightarrow> cfg_edge list
     \<Rightarrow> nodes \<times> diagnostic list \<Rightarrow> nodes \<times> diagnostic list" where
  "resolve_node res name [] st = st"
| "resolve_node res name (ce # ces) (ns, ds) =
     (case res name ce of (e, ds1) \<Rightarrow>
        resolve_node res name ces (AList.map_entry name (\<lambda>n. n\<lparr>nd_In := nd_In n @ [e]\<rparr>) ns, ds @ ds1))"

fun resolve_edges ::
    "(node_name \<Rightarrow> cfg_edge \<Rightarrow> edge \<times> diagnostic list) \<Rightarrow> node_name list
     \<Rightarrow> nodes \<times> diagnostic list \<Rightarrow> nodes \<times> diagnostic list" where
  "resolve_edges res [] st = st"
| "resolve_edges res (name # names) (ns, ds) =
     (case map_of ns name of
        None \<Rightarrow> resolve_edges res names (ns, ds)
      | Some n \<Rightarrow> resolve_edges res names (resolve_node res name (cn_DependsOn (nd_Config n)) (ns, ds)))"

section \<open>Reference checks\<close>

text \<open>
  The dangling-route check. \<open>None\<close> is the nil dereference the code performs when the upstream of a
  routed edge does not exist: this loop runs before the references are validated.
\<close>

definition route_finding :: "(string \<Rightarrow> bool) \<Rightarrow> nodes \<Rightarrow> string \<Rightarrow> edge \<Rightarrow> diagnostic list option" where
  "route_finding assignsMetaRoute ns file e =
     (if eg_RouteName e = '''' then Some []
      else case map_of ns (eg_From e) of
             None \<Rightarrow> None
           | Some up \<Rightarrow>
               Some (if nd_Section up \<noteq> SectionTransform \<or> \<not> assignsMetaRoute (scriptText (nd_Config up))
                     then [error_at ''expr_route_dangling'' file (eg_Line e) (eg_From e)] else []))"

fun dangling_routes :: "(string \<Rightarrow> bool) \<Rightarrow> nodes \<Rightarrow> string \<Rightarrow> edge list \<Rightarrow> diagnostic list option" where
  "dangling_routes amr ns file [] = Some []"
| "dangling_routes amr ns file (e # es) =
     (case route_finding amr ns file e of
        None \<Rightarrow> None
      | Some ds \<Rightarrow> map_option (\<lambda>ds'. ds @ ds') (dangling_routes amr ns file es))"

fun dup_names :: "nodes \<Rightarrow> string \<Rightarrow> node_name list \<Rightarrow> node_name set \<Rightarrow> diagnostic list" where
  "dup_names ns file [] seen = []"
| "dup_names ns file (name # names) seen =
     (if name \<in> seen
      then error_at ''topo_dup_name'' file
             (case map_of ns name of None \<Rightarrow> 0 | Some n \<Rightarrow> cn_Line (nd_Config n)) name # dup_names ns file names seen
      else dup_names ns file names (insert name seen))"

fun link_node :: "string \<Rightarrow> edge list \<Rightarrow> nodes \<times> diagnostic list \<Rightarrow> nodes \<times> diagnostic list" where
  "link_node file [] st = st"
| "link_node file (e # es) (ns, ds) =
     (case map_of ns (eg_From e) of
        None \<Rightarrow> link_node file es (ns, ds @ [error_at ''topo_missing_ref'' file (eg_Line e) (eg_From e)])
      | Some up \<Rightarrow>
          if nd_Section up = SectionSink
          then link_node file es (ns, ds @ [error_at ''topo_sink_as_upstream'' file (eg_Line e) (eg_From e)])
          else link_node file es (AList.map_entry (eg_From e) (\<lambda>n. n\<lparr>nd_Out := nd_Out n @ [e]\<rparr>) ns, ds))"

definition in_edges :: "nodes \<Rightarrow> node_name \<Rightarrow> edge list" where
  "in_edges ns name = (case map_of ns name of None \<Rightarrow> [] | Some n \<Rightarrow> nd_In n)"

fun link_edges :: "string \<Rightarrow> node_name list \<Rightarrow> nodes \<times> diagnostic list \<Rightarrow> nodes \<times> diagnostic list" where
  "link_edges file [] st = st"
| "link_edges file (name # names) (ns, ds) =
     link_edges file names (link_node file (in_edges ns name) (ns, ds))"

section \<open>Topology\<close>

definition out_graph :: "nodes \<Rightarrow> (node_name \<times> edge list) list" where
  "out_graph ns = map (\<lambda>(n, nd). (n, nd_Out nd)) ns"

definition down_adj :: "nodes \<Rightarrow> node_name adj" where
  "down_adj ns = map (\<lambda>(n, nd). (n, map eg_To (nd_Out nd))) ns"

definition up_adj :: "nodes \<Rightarrow> node_name adj" where
  "up_adj ns = map (\<lambda>(n, nd). (n, filter (\<lambda>f. map_of ns f \<noteq> None) (map eg_From (nd_In nd)))) ns"

definition section_of :: "nodes \<Rightarrow> node_name \<Rightarrow> node_section option" where
  "section_of ns name = map_option nd_Section (map_of ns name)"

definition orphan_findings :: "string \<Rightarrow> nodes \<Rightarrow> node_name \<Rightarrow> diagnostic list" where
  "orphan_findings file ns name =
     (case map_of ns name of
        None \<Rightarrow> []
      | Some n \<Rightarrow>
          (case nd_Section n of
             SectionSource \<Rightarrow>
               if nd_Out n = [] then [error_at ''topo_orphan'' file (cn_Line (nd_Config n)) name] else []
           | _ \<Rightarrow> if nd_In n = [] then [error_at ''topo_orphan'' file (cn_Line (nd_Config n)) name] else []))"

definition checkTopology :: "pipeline_ir \<Rightarrow> string \<Rightarrow> diagnostic list" where
  "checkTopology p file =
     (let ns = p_Nodes p;
          cycle = (case cycle_scan eg_To (out_graph ns) (p_Order p) (\<lambda>_. White) of
                     None \<Rightarrow> []
                   | Some (stack, e) \<Rightarrow> [error_at ''topo_cycle'' file (eg_Line e) (eg_To e)]);
          reachable = fst (dfs (down_adj ns) (\<lambda>_ u. u)
                             (filter (\<lambda>n. section_of ns n = Some SectionSource) (p_Order p)) {} ());
          no_path = (if \<exists>n\<in>set (p_Order p). section_of ns n = Some SectionSink \<and> n \<in> reachable
                     then [] else [error_at ''topo_no_path'' file 0 ''''])
      in cycle @ no_path @ concat (map (orphan_findings file ns) (p_Order p)))"

definition topoSort :: "pipeline_ir \<Rightarrow> node_name list" where
  "topoSort p = snd (dfs (up_adj (p_Nodes p)) post_append (p_Order p) {} [])"

text \<open>The reachability questions the lints ask.\<close>

definition upstreamNodes :: "pipeline_ir \<Rightarrow> node_name \<Rightarrow> node_name set" where
  "upstreamNodes p start =
     (if the_node p start \<noteq> None then fst (dfs (up_adj (p_Nodes p)) (\<lambda>_ u. u) [start] {} ()) else {})"

definition downstreamReaches :: "pipeline_ir \<Rightarrow> node_name \<Rightarrow> node_name set \<Rightarrow> node_name set \<Rightarrow> bool" where
  "downstreamReaches p from barriers targets =
     snd (dfs_find (down_adj (p_Nodes p)) (\<lambda>n. n \<in> barriers) (\<lambda>n. n \<in> targets) [from] {})"

section \<open>What linking does\<close>

text \<open>Linking keeps the names, the sections and the in-edges of every node, and appends to the
  out-edges of a non-sink exactly the declared edges that name it as their upstream.\<close>

lemma keys_map_entry [simp]: "map fst (AList.map_entry k f xs) = map fst xs"
  by (induction xs) auto

lemma link_node_spec:
  "link_node f es (ns, ds) = (ns', ds') \<Longrightarrow>
    map_of ns' m = map_option (\<lambda>nd. nd\<lparr>nd_Out := nd_Out nd @
      (if nd_Section nd = SectionSink then [] else filter (\<lambda>e. eg_From e = m) es)\<rparr>) (map_of ns m)
    \<and> map fst ns' = map fst ns
    \<and> (ds' = ds \<longrightarrow> (\<forall>e\<in>set es. \<exists>up. map_of ns (eg_From e) = Some up \<and> nd_Section up \<noteq> SectionSink))
    \<and> (\<exists>xs. ds' = ds @ xs)"
proof (induction es arbitrary: ns ds)
  case (Cons e es)
  show ?case
  proof (cases "map_of ns (eg_From e)")
    case None
    let ?d = "error_at ''topo_missing_ref'' f (eg_Line e) (eg_From e)"
    have "link_node f es (ns, ds @ [?d]) = (ns', ds')" using Cons.prems None by simp
    from Cons.IH [OF this] None show ?thesis by (cases "map_of ns m") auto
  next
    case (Some up)
    show ?thesis
    proof (cases "nd_Section up = SectionSink")
      case True
      let ?d = "error_at ''topo_sink_as_upstream'' f (eg_Line e) (eg_From e)"
      have "link_node f es (ns, ds @ [?d]) = (ns', ds')" using Cons.prems Some True by simp
      from Cons.IH [OF this] Some True show ?thesis by (cases "map_of ns m") auto
    next
      case False
      let ?ns = "AList.map_entry (eg_From e) (\<lambda>n. n\<lparr>nd_Out := nd_Out n @ [e]\<rparr>) ns"
      have keep: "(\<exists>u. map_of ?ns (eg_From x) = Some u \<and> nd_Section u \<noteq> SectionSink)
         = (\<exists>u. map_of ns (eg_From x) = Some u \<and> nd_Section u \<noteq> SectionSink)" for x
        using Some False by (auto simp: map_of_map_entry split: option.splits)
      have "link_node f es (?ns, ds) = (ns', ds')" using Cons.prems Some False by simp
      from Cons.IH [OF this] Some False show ?thesis unfolding keep
        by (cases "map_of ns m") (auto simp: map_of_map_entry)
    qed
  qed
next
  case Nil
  then show ?case by (cases "map_of ns m") auto
qed

definition all_in_edges :: "nodes \<Rightarrow> node_name list \<Rightarrow> edge list" where
  "all_in_edges ns names = concat (map (in_edges ns) names)"

lemma link_edges_spec:
  "link_edges f names (ns, ds) = (ns', ds') \<Longrightarrow>
    map_of ns' m = map_option (\<lambda>nd. nd\<lparr>nd_Out := nd_Out nd @
      (if nd_Section nd = SectionSink then [] else filter (\<lambda>e. eg_From e = m) (all_in_edges ns names))\<rparr>) (map_of ns m)
    \<and> map fst ns' = map fst ns
    \<and> (ds' = ds \<longrightarrow> (\<forall>e\<in>set (all_in_edges ns names).
          \<exists>up. map_of ns (eg_From e) = Some up \<and> nd_Section up \<noteq> SectionSink))
    \<and> (\<exists>xs. ds' = ds @ xs)"
proof (induction names arbitrary: ns ds)
  case (Cons name names)
  obtain ns1 ds1 where l: "link_node f (in_edges ns name) (ns, ds) = (ns1, ds1)" by fastforce
  with Cons.prems have "link_edges f names (ns1, ds1) = (ns', ds')" by simp
  note IH = Cons.IH [OF this]
  have m1: "map_of ns1 x = map_option (\<lambda>nd. nd\<lparr>nd_Out := nd_Out nd @
      (if nd_Section nd = SectionSink then [] else filter (\<lambda>e. eg_From e = x) (in_edges ns name))\<rparr>) (map_of ns x)" for x
    using link_node_spec [OF l, of x] by simp
  have "in_edges ns1 = in_edges ns" by (auto simp: in_edges_def m1 fun_eq_iff split: option.splits)
  then have rest: "all_in_edges ns1 names = all_in_edges ns names"
    "all_in_edges ns (name # names) = in_edges ns name @ all_in_edges ns names"
    by (simp_all add: all_in_edges_def)
  have up: "(\<exists>u. map_of ns1 x = Some u \<and> nd_Section u \<noteq> SectionSink)
      = (\<exists>u. map_of ns x = Some u \<and> nd_Section u \<noteq> SectionSink)" for x
    by (auto simp: m1)
  obtain xs ys where "ds1 = ds @ xs" "ds' = ds1 @ ys" using link_node_spec [OF l, of m] IH by blast
  then have eq: "ds' = ds \<Longrightarrow> ds' = ds1 \<and> ds1 = ds" "\<exists>xs. ds' = ds @ xs" by auto
  have map: "map_of ns' m = map_option (\<lambda>nd. nd\<lparr>nd_Out := nd_Out nd @
      (if nd_Section nd = SectionSink then []
       else filter (\<lambda>e. eg_From e = m) (all_in_edges ns (name # names)))\<rparr>) (map_of ns m)"
    using conjunct1 [OF IH] unfolding m1 rest by (cases "map_of ns m") simp_all
  have keys: "map fst ns' = map fst ns" using IH link_node_spec [OF l, of m] by simp
  have refs: "\<forall>e\<in>set (all_in_edges ns (name # names)).
      \<exists>u. map_of ns (eg_From e) = Some u \<and> nd_Section u \<noteq> SectionSink" if "ds' = ds"
  proof -
    have "\<forall>e\<in>set (in_edges ns name). \<exists>u. map_of ns (eg_From e) = Some u \<and> nd_Section u \<noteq> SectionSink"
      using link_node_spec [OF l, of m] eq(1) [OF that] by blast
    moreover have "\<forall>e\<in>set (all_in_edges ns names). \<exists>u. map_of ns (eg_From e) = Some u \<and> nd_Section u \<noteq> SectionSink"
      using IH eq(1) [OF that] unfolding up rest(1) by blast
    ultimately show ?thesis unfolding rest(2) by auto
  qed
  show ?case using map keys refs eq(2) by blast
next
  case Nil
  then show ?case by (cases "map_of ns m") (auto simp: all_in_edges_def)
qed

section \<open>The graph of a built pipeline\<close>

text \<open>
  The graph part of \<^verbatim>\<open>buildPipeline\<close> in the order of the code: nodes, edges with the
  materialized defaults, dangling routes, duplicate names, linking, \<^verbatim>\<open>checkTopology\<close>, and the sort.
  \<open>None\<close> is one of the two nil dereferences above.
\<close>

definition build_graph ::
    "(string \<Rightarrow> go_error + whenPredicate) \<Rightarrow> (string \<Rightarrow> go_error + whenPredicate) \<Rightarrow> (string \<Rightarrow> bool)
     \<Rightarrow> cfg_pipeline \<Rightarrow> (pipeline_ir \<times> diagnostic list) option" where
  "build_graph cel cesql amr cfg0 =
     (case materialize_nodes cfg0 (cp_Order cfg0) [] of
        None \<Rightarrow> None
      | Some ns0 \<Rightarrow>
          let cfg = MaterializeEdgeDefaults cfg0;
              d = cp_EdgeDefaults cfg;
              file = cp_File cfg;
              order = cp_Order cfg;
              (ns1, ds1) = resolve_edges (resolve_edge cel cesql file (the (ea_Delivery d)) (the (ea_Required d))
                             (the (ea_Buffer d))) order (ns0, [])
          in case dangling_routes amr ns1 file (all_in_edges ns1 order) of
               None \<Rightarrow> None
             | Some ds2 \<Rightarrow>
                 let ds3 = dup_names ns1 file order {};
                     (ns2, ds4) = link_edges file order (ns1, ds1 @ ds2 @ ds3);
                     p = \<lparr>p_Config = cfg, p_Nodes = ns2, p_Order = order, p_Parameters = [],
                          p_Codecs = [], p_resolvedCodecs = []\<rparr>
                 in Some (p\<lparr>p_Order := topoSort p\<rparr>, ds4 @ checkTopology p file))"

definition resolved_nodes :: "nodes \<Rightarrow> bool" where
  "resolved_nodes ns \<longleftrightarrow> (\<forall>n nd. map_of ns n = Some nd \<longrightarrow> nd_Out nd = [] \<and> (\<forall>e\<in>set (nd_In nd). eg_To e = n))"

lemma materialize_nodes_spec:
  "materialize_nodes cfg names ns = Some ns' \<Longrightarrow> resolved_nodes ns \<Longrightarrow>
    resolved_nodes ns' \<and> set (map fst ns') = set (map fst ns) \<union> set names"
proof (induction names arbitrary: ns)
  case (Cons name names)
  then obtain n where n: "materialize_nodes cfg names (AList.update name n ns) = Some ns'" "nd_Out n = []" "nd_In n = []"
    by (auto split: option.splits)
  have "resolved_nodes (AList.update name n ns)"
    using Cons.prems(2) n(2,3) by (simp add: resolved_nodes_def update_conv')
  from Cons.IH [OF n(1) this] show ?case by (simp add: dom_update)
qed auto

lemma resolve_edge_To [simp]: "resolve_edge cel cesql f dv rq bf name ce = (e, ds) \<Longrightarrow> eg_To e = name"
  by (auto simp: resolve_edge_def Let_def split: if_splits sum.splits option.splits)

lemma resolve_node_spec:
  assumes "\<And>ce e ds. res name ce = (e, ds) \<Longrightarrow> eg_To e = name"
  shows "resolve_node res name ces (ns, ds) = (ns', ds') \<Longrightarrow> resolved_nodes ns \<Longrightarrow>
    resolved_nodes ns' \<and> map fst ns' = map fst ns"
proof (induction ces arbitrary: ns ds)
  case (Cons ce ces)
  obtain e ds1 where r: "res name ce = (e, ds1)" by fastforce
  let ?ns = "AList.map_entry name (\<lambda>n. n\<lparr>nd_In := nd_In n @ [e]\<rparr>) ns"
  have "resolved_nodes ?ns" using Cons.prems(2) assms [OF r]
    by (auto simp: resolved_nodes_def map_of_map_entry split: option.splits if_splits)
  with Cons.IH [of ?ns "ds @ ds1"] Cons.prems(1) r show ?case by simp
qed auto

lemma resolve_edges_spec:
  assumes "\<And>name ce e ds. res name ce = (e, ds) \<Longrightarrow> eg_To e = name"
  shows "resolve_edges res names (ns, ds) = (ns', ds') \<Longrightarrow> resolved_nodes ns \<Longrightarrow>
    resolved_nodes ns' \<and> map fst ns' = map fst ns"
proof (induction names arbitrary: ns ds)
  case (Cons name names)
  show ?case
  proof (cases "map_of ns name")
    case (Some n)
    obtain ns1 ds1 where r: "resolve_node res name (cn_DependsOn (nd_Config n)) (ns, ds) = (ns1, ds1)" by fastforce
    from resolve_node_spec [OF assms r Cons.prems(2)] Cons.IH [of ns1 ds1] Cons.prems(1) Some r
    show ?thesis by simp
  qed (use Cons in auto)
qed auto

lemma map_of_graph: "map_of (map (\<lambda>(n, nd). (n, f n nd)) ns) x = map_option (f x) (map_of ns x)"
  by (induction ns) auto

lemma keys_graph: "map fst (map (\<lambda>(n, nd). (n, f n nd)) ns) = map fst ns"
  by (induction ns) auto

text \<open>After linking without findings, the dependency arcs are the out-edges reversed.\<close>

lemma linked_arcs:
  assumes "resolved_nodes ns1" and "set (map fst ns1) = set names"
    and link: "link_edges f names (ns1, ds) = (ns2, ds)"
  shows "arcs (up_adj ns2) = (labelled_arcs eg_To (out_graph ns2))\<inverse>"
    and "map fst ns2 = map fst ns1"
    and "map_of ns2 n = Some nd \<Longrightarrow> e \<in> set (nd_In nd) \<Longrightarrow> map_of ns2 (eg_From e) \<noteq> None"
proof -
  have m: "map_of ns2 x = map_option (\<lambda>nd. nd\<lparr>nd_Out := nd_Out nd @
      (if nd_Section nd = SectionSink then [] else filter (\<lambda>e. eg_From e = x) (all_in_edges ns1 names))\<rparr>)
      (map_of ns1 x)" for x
    using link_edges_spec [OF link] by simp
  have refs: "e \<in> set (all_in_edges ns1 names) \<Longrightarrow>
      \<exists>up. map_of ns1 (eg_From e) = Some up \<and> nd_Section up \<noteq> SectionSink" for e
    using link_edges_spec [OF link] by simp
  show keys: "map fst ns2 = map fst ns1" using link_edges_spec [OF link] by simp
  have ins: "e \<in> set (all_in_edges ns1 names) \<longleftrightarrow> (\<exists>nd. map_of ns1 (eg_To e) = Some nd \<and> e \<in> set (nd_In nd))" for e
  proof
    assume "e \<in> set (all_in_edges ns1 names)"
    then obtain n where "e \<in> set (in_edges ns1 n)" by (auto simp: all_in_edges_def)
    then obtain nd where nd: "map_of ns1 n = Some nd" "e \<in> set (nd_In nd)"
      by (cases "map_of ns1 n") (auto simp: in_edges_def)
    with assms(1) have "eg_To e = n" unfolding resolved_nodes_def by blast
    with nd show "\<exists>nd. map_of ns1 (eg_To e) = Some nd \<and> e \<in> set (nd_In nd)" by blast
  next
    assume "\<exists>nd. map_of ns1 (eg_To e) = Some nd \<and> e \<in> set (nd_In nd)"
    then obtain nd where nd: "map_of ns1 (eg_To e) = Some nd" "e \<in> set (nd_In nd)" by blast
    then have "eg_To e \<in> set names" using assms(2) map_of_empty_unless [of ns1 "eg_To e"] by simp
    with nd show "e \<in> set (all_in_edges ns1 names)"
      by (auto simp: all_in_edges_def in_edges_def intro!: bexI [of _ "eg_To e"])
  qed
  have up: "(x, y) \<in> arcs (up_adj ns2) \<longleftrightarrow>
      (\<exists>e\<in>set (all_in_edges ns1 names). eg_To e = x \<and> eg_From e = y)" for x y
  proof
    assume "(x, y) \<in> arcs (up_adj ns2)"
    then obtain nd e where nd: "map_of ns1 x = Some nd" "e \<in> set (nd_In nd)" "eg_From e = y"
      by (cases "map_of ns1 x") (auto simp: arcs_def neighbours_def up_adj_def map_of_graph m)
    moreover have "eg_To e = x" using assms(1) nd by (auto simp: resolved_nodes_def)
    ultimately show "\<exists>e\<in>set (all_in_edges ns1 names). eg_To e = x \<and> eg_From e = y" using ins by blast
  next
    assume "\<exists>e\<in>set (all_in_edges ns1 names). eg_To e = x \<and> eg_From e = y"
    then obtain e where e: "e \<in> set (all_in_edges ns1 names)" "eg_To e = x" "eg_From e = y" by blast
    then show "(x, y) \<in> arcs (up_adj ns2)" using ins [of e] refs [OF e(1)]
      by (auto simp: arcs_def neighbours_def up_adj_def map_of_graph m)
  qed
  have down: "(y, x) \<in> labelled_arcs eg_To (out_graph ns2) \<longleftrightarrow>
      (\<exists>e\<in>set (all_in_edges ns1 names). eg_To e = x \<and> eg_From e = y)" for x y
  proof
    assume "(y, x) \<in> labelled_arcs eg_To (out_graph ns2)"
    then obtain nd e where "map_of ns1 y = Some nd" "eg_To e = x" and "e \<in> set (nd_Out nd) \<or>
        (nd_Section nd \<noteq> SectionSink \<and> eg_From e = y \<and> e \<in> set (all_in_edges ns1 names))"
      by (cases "map_of ns1 y") (auto simp: labelled_arcs_def edges_of_def out_graph_def map_of_graph m split: if_splits)
    moreover have "nd_Out nd = []" using assms(1) calculation(1) unfolding resolved_nodes_def by blast
    ultimately show "\<exists>e\<in>set (all_in_edges ns1 names). eg_To e = x \<and> eg_From e = y" by auto
  next
    assume "\<exists>e\<in>set (all_in_edges ns1 names). eg_To e = x \<and> eg_From e = y"
    then obtain e where e: "e \<in> set (all_in_edges ns1 names)" "eg_To e = x" "eg_From e = y" by blast
    from refs [OF e(1)] obtain up where "map_of ns1 y = Some up" "nd_Section up \<noteq> SectionSink" using e(3) by blast
    then have "e \<in> set (edges_of (out_graph ns2) y)"
      using e by (simp add: edges_of_def out_graph_def map_of_graph m)
    with e(2) show "(y, x) \<in> labelled_arcs eg_To (out_graph ns2)" by (auto simp: labelled_arcs_def)
  qed
  show "arcs (up_adj ns2) = (labelled_arcs eg_To (out_graph ns2))\<inverse>"
    using up down by auto
  show "map_of ns2 (eg_From e) \<noteq> None" if nd: "map_of ns2 n = Some nd" "e \<in> set (nd_In nd)"
  proof -
    obtain nd1 where nd1: "map_of ns1 n = Some nd1" "nd_In nd1 = nd_In nd" using nd(1) by (auto simp: m)
    with nd(2) assms(1) have "eg_To e = n" unfolding resolved_nodes_def by metis
    with nd1 nd(2) have "e \<in> set (all_in_edges ns1 names)" using ins by auto
    from refs [OF this] show ?thesis by (auto simp: m)
  qed
qed

lemma error_at_error [simp]: "dg_Severity (error_at code file line what) = ''error''"
  by (simp add: error_at_def)

lemma orphan_findings_code:
  "d \<in> set (orphan_findings file ns n) \<Longrightarrow> dg_Code d = ''topo_orphan'' \<and> dg_Severity d = ''error''"
  by (cases "map_of ns n"; cases "nd_Section (the (map_of ns n))")
    (auto simp: orphan_findings_def error_at_def split: if_splits)

lemma checkTopology_errors: "d \<in> set (checkTopology p file) \<Longrightarrow> dg_Severity d = ''error''"
  by (auto simp: checkTopology_def Let_def orphan_findings_code split: option.splits if_splits)

lemma checkTopology_codes:
  "(\<exists>d\<in>set (checkTopology p file). dg_Code d = ''topo_cycle'')
     \<longleftrightarrow> cycle_scan eg_To (out_graph (p_Nodes p)) (p_Order p) (\<lambda>_. White) \<noteq> None"
proof (cases "cycle_scan eg_To (out_graph (p_Nodes p)) (p_Order p) (\<lambda>_. White)")
  case None
  then show ?thesis by (auto simp: checkTopology_def Let_def error_at_def dest: orphan_findings_code)
next
  case (Some hit)
  then show ?thesis by (cases hit) (auto simp: checkTopology_def Let_def error_at_def)
qed

lemma link_edges_quiet:
  assumes "link_edges f names (ns, ds) = (ns', ds')" and "\<not> HasErrors ds'"
  shows "ds' = ds"
proof -
  have link_node_quiet: "link_node f es (ns, ds) = (ns', ds') \<Longrightarrow> \<exists>xs. ds' = ds @ xs \<and> (\<forall>d\<in>set xs. dg_Severity d = ''error'')"
    for es ns ns' ds ds'
  proof (induction es arbitrary: ns ds)
    case (Cons e es)
    then show ?case by (fastforce split: option.splits if_splits)
  qed auto
  have "\<exists>xs. ds' = ds @ xs \<and> (\<forall>d\<in>set xs. dg_Severity d = ''error'')"
    using assms(1)
  proof (induction names arbitrary: ns ds)
    case (Cons name names)
    obtain ns1 ds1 where l: "link_node f (in_edges ns name) (ns, ds) = (ns1, ds1)" by fastforce
    obtain xs where "ds1 = ds @ xs" "\<forall>d\<in>set xs. dg_Severity d = ''error''"
      using link_node_quiet [OF l] by blast
    moreover obtain ys where "ds' = ds1 @ ys" "\<forall>d\<in>set ys. dg_Severity d = ''error''"
      using Cons.IH [of ns1 ds1] Cons.prems l by auto
    ultimately show ?case by (intro exI [of _ "xs @ ys"]) auto
  qed auto
  with assms(2) show ?thesis by (auto simp: HasErrors_def)
qed

text \<open>A configuration whose declaration order lists the sink before its source.\<close>

definition tiny_node :: "node_name \<Rightarrow> node_section \<Rightarrow> cfg_edge list \<Rightarrow> cfg_node" where
  "tiny_node name sec deps = \<lparr>cn_Name = name, cn_Section = sec, cn_Line = 1, cn_DependsOn = deps,
     cn_Decoder = ''json'', cn_Encoder = ''json'', cn_Workers = 1, cn_OrderKey = '''', cn_Batch = None,
     cn_Plugin = ''p'', cn_PluginConfig = ANil, cn_PluginLine = 1, cn_Grpc = None, cn_Manifest = None,
     cn_Version = 0\<rparr>"

definition tiny_edge :: "node_name \<Rightarrow> cfg_edge" where
  "tiny_edge from = \<lparr>ce_From = from, ce_Line = 2, ce_When = '''', ce_WhenLang = '''', ce_Route = '''',
     ce_Delivery = None, ce_Required = None, ce_Buffer = None\<rparr>"

definition tiny_config :: cfg_pipeline where
  "tiny_config = \<lparr>cp_File = ''f'', cp_BaseDir = '''', cp_Name = ''p'', cp_Constants = [], cp_ConstantsUsed = [],
     cp_EdgeDefaults = \<lparr>ea_Delivery = None, ea_Required = None, ea_Buffer = None\<rparr>, cp_Limits = None,
     cp_Telemetry = None, cp_Run = None, cp_DLQRetention = None, cp_Parameters = [], cp_Hooks = None,
     cp_Codecs = [], cp_Sources = [''a'' \<mapsto> tiny_node ''a'' SectionSource []], cp_Transforms = Map.empty,
     cp_Sinks = [''b'' \<mapsto> tiny_node ''b'' SectionSink [tiny_edge ''a'']], cp_Order = [''b'', ''a'']\<rparr>"

section \<open>Properties\<close>

text \<open>
  C10. The execution order of a pipeline that passes verification is a topological order: when the
  graph part of the build ends without an error finding, the order lists exactly the declared nodes,
  each once, and every upstream of a node's in-edges stands before the node.
\<close>

theorem build_order_topological:
  assumes "build_graph cel cesql amr cfg = Some (p, ds)" and "\<not> HasErrors ds"
  shows "distinct (p_Order p) \<and> set (p_Order p) = set (cp_Order cfg)
    \<and> (\<forall>i < length (p_Order p). \<forall>e \<in> set (node_in p (p_Order p ! i)). eg_From e \<in> set (take i (p_Order p)))"
proof -
  obtain ns0 where mat: "materialize_nodes cfg (cp_Order cfg) [] = Some ns0"
    using assms(1) by (auto simp: build_graph_def split: option.splits)
  let ?cfg = "MaterializeEdgeDefaults cfg" and ?names = "cp_Order cfg"
  let ?d = "cp_EdgeDefaults ?cfg"
  let ?res = "resolve_edge cel cesql (cp_File ?cfg) (the (ea_Delivery ?d)) (the (ea_Required ?d)) (the (ea_Buffer ?d))"
  have cfg_order: "cp_Order ?cfg = ?names" by (simp add: MaterializeEdgeDefaults_def Let_def)
  obtain ns1 ds1 where res: "resolve_edges ?res ?names (ns0, []) = (ns1, ds1)" by fastforce
  obtain ds2 where dr: "dangling_routes amr ns1 (cp_File ?cfg) (all_in_edges ns1 ?names) = Some ds2"
    using assms(1) mat res by (auto simp: build_graph_def Let_def cfg_order split: option.splits)
  obtain ns2 ds4 where link: "link_edges (cp_File ?cfg) ?names
      (ns1, ds1 @ ds2 @ dup_names ns1 (cp_File ?cfg) ?names {}) = (ns2, ds4)" by fastforce
  define q where "q = \<lparr>p_Config = ?cfg, p_Nodes = ns2, p_Order = ?names, p_Parameters = [],
      p_Codecs = [], p_resolvedCodecs = []\<rparr>"
  have p: "p = q\<lparr>p_Order := topoSort q\<rparr>" "ds = ds4 @ checkTopology q (cp_File ?cfg)"
    using assms(1) mat res dr link by (auto simp: build_graph_def Let_def cfg_order q_def)
  have "\<not> HasErrors ds4" and noerr: "\<not> HasErrors (checkTopology q (cp_File ?cfg))"
    using assms(2) by (auto simp: p HasErrors_def)
  with link_edges_quiet [OF link]
  have link': "link_edges (cp_File ?cfg) ?names (ns1, ds4) = (ns2, ds4)" using link by simp
  have r0: "resolved_nodes ns0" "set (map fst ns0) = set ?names"
    using materialize_nodes_spec [OF mat] by (auto simp: resolved_nodes_def)
  have r1: "resolved_nodes ns1" "set (map fst ns1) = set ?names"
    using resolve_edges_spec [OF _ res r0(1)] r0(2) by auto
  note arcs = linked_arcs [OF r1 link']
  have keys: "set (map fst (out_graph ns2)) \<subseteq> set (p_Order q)"
    using arcs(2) r1(2) unfolding out_graph_def keys_graph by (simp add: q_def)
  have "\<not> (\<exists>d\<in>set (checkTopology q (cp_File ?cfg)). dg_Code d = ''topo_cycle'')"
    using noerr checkTopology_errors unfolding HasErrors_def by blast
  then have "cycle_scan eg_To (out_graph ns2) (p_Order q) (\<lambda>_. White) = None"
    unfolding checkTopology_codes not_not by (simp add: q_def)
  then have "acyclic (labelled_arcs eg_To (out_graph ns2))"
    using cycle_scan_iff [OF keys, of eg_To] by simp
  then have acyc: "acyclic (arcs (up_adj ns2))" using arcs(1) by (simp add: acyclic_converse)
  obtain seen out where dfs: "dfs (up_adj ns2) post_append ?names {} [] = (seen, out)" by fastforce
  note ord = dfs_topological_order [OF acyc dfs]
  have out: "p_Order p = out" by (simp add: p topoSort_def q_def dfs)
  have "y \<in> set ?names" if "(x, y) \<in> (arcs (up_adj ns2))\<^sup>*" "x \<in> set ?names" for x y
    using that
  proof (induction rule: rtrancl_induct)
    case (step y z)
    then have "map_of ns2 z \<noteq> None"
      by (auto simp: arcs_def neighbours_def up_adj_def map_of_graph split: option.splits)
    then show ?case using map_of_empty_unless [of ns2 z] arcs(2) r1(2) by simp
  qed simp
  then have "set out = set ?names" using ord(3) by auto
  moreover have "eg_From e \<in> set (take i out)" if i: "i < length out" and e: "e \<in> set (node_in p (out ! i))" for i e
  proof -
    obtain nd where nd: "map_of ns2 (out ! i) = Some nd" "e \<in> set (nd_In nd)"
      using e by (cases "map_of ns2 (out ! i)") (auto simp: node_in_def p q_def)
    have "map_of ns2 (eg_From e) \<noteq> None" by (rule arcs(3) [OF nd])
    then have "eg_From e \<in> set (neighbours (up_adj ns2) (out ! i))"
      using nd by (auto simp: neighbours_def up_adj_def map_of_graph)
    then show ?thesis using ord(2) i by (auto simp: deps_first_def)
  qed
  ultimately show ?thesis using ord(1) by (simp add: out)
qed

lemmas build_defs = build_graph_def resolve_edge_def tiny_config_def tiny_node_def tiny_edge_def
  MaterializeEdgeDefaults_def sectionOf_def all_in_edges_def in_edges_def route_finding_def checkTopology_def
  topoSort_def out_graph_def down_adj_def up_adj_def edges_of_def neighbours_def section_of_def
  orphan_findings_def post_append_def Let_def HasErrors_def node_in_def

theorem build_order_topological_witness:
  "\<exists>p. build_graph (\<lambda>s. Inl s) (\<lambda>s. Inl s) (\<lambda>s. False) tiny_config = Some (p, [])
     \<and> distinct (p_Order p) \<and> p_Order p = [''a'', ''b'']"
proof -
  let ?b = "build_graph (\<lambda>s. Inl s) (\<lambda>s. Inl s) (\<lambda>s. False) tiny_config"
  have b: "map_option (\<lambda>(p, ds). (p_Order p, ds)) ?b = Some ([''a'', ''b''], [])"
    by (simp add: build_defs)
  then obtain p where p: "?b = Some (p, [])" "p_Order p = [''a'', ''b'']" by auto
  from build_order_topological [OF p(1)] p(2) have "distinct (p_Order p)" by (simp add: HasErrors_def)
  with p show ?thesis by blast
qed

definition out_rel :: "pipeline_ir \<Rightarrow> node_name rel" where
  "out_rel p = {(x, y). \<exists>e\<in>set (node_out p x). eg_To e = y}"

lemma out_rel_labelled: "labelled_arcs eg_To (out_graph (p_Nodes p)) = out_rel p"
  unfolding labelled_arcs_def out_rel_def edges_of_def out_graph_def node_out_def map_of_graph
  by (auto split: option.splits)

text \<open>
  C11. Cycle detection is sound and complete: the topology check reports \<^verbatim>\<open>topo_cycle\<close> exactly when
  some node reaches itself along out-edges.
\<close>

theorem cycle_reported_iff:
  assumes "set (map fst (p_Nodes p)) \<subseteq> set (p_Order p)"
  shows "(\<exists>d\<in>set (checkTopology p file). dg_Code d = ''topo_cycle'') \<longleftrightarrow> (\<exists>x. (x, x) \<in> (out_rel p)\<^sup>+)"
proof -
  have "set (map fst (out_graph (p_Nodes p))) \<subseteq> set (p_Order p)"
    using assms unfolding out_graph_def keys_graph .
  from cycle_scan_iff [OF this, of eg_To] show ?thesis
    unfolding checkTopology_codes by (simp add: out_rel_labelled acyclic_def)
qed

definition loop_pipeline :: pipeline_ir where
  "loop_pipeline =
     (let e = (\<lambda>a b. fst (resolve_edge (\<lambda>s. Inl s) (\<lambda>s. Inl s) '''' \<lparr>dv_Retries = 3, dv_Backoff = '''', dv_TimeoutMs = 0\<rparr>
                 True \<lparr>bf_Type = '''', bf_MaxEvents = 1\<rparr> b (tiny_edge a)));
          nd = (\<lambda>n es. \<lparr>nd_Name = n, nd_Section = SectionTransform, nd_Config = tiny_node n SectionTransform [],
                 nd_Out = es, nd_In = [], nd_Retained = False, nd_ExplainSafe = False, nd_OrderKey = None\<rparr>)
      in \<lparr>p_Config = tiny_config, p_Nodes = [(''a'', nd ''a'' [e ''a'' ''b'']), (''b'', nd ''b'' [e ''b'' ''a''])],
          p_Order = [''a'', ''b''], p_Parameters = [], p_Codecs = [], p_resolvedCodecs = []\<rparr>)"

theorem cycle_reported_iff_witness:
  "\<exists>d\<in>set (checkTopology loop_pipeline ''f''). dg_Code d = ''topo_cycle''"
proof -
  have e: "(''a'', ''b'') \<in> out_rel loop_pipeline" "(''b'', ''a'') \<in> out_rel loop_pipeline"
    by (simp_all add: out_rel_def node_out_def loop_pipeline_def Let_def resolve_edge_def tiny_edge_def)
  have "set (map fst (p_Nodes loop_pipeline)) \<subseteq> set (p_Order loop_pipeline)"
    by (simp add: loop_pipeline_def Let_def)
  from cycle_reported_iff [OF this] e show ?thesis by (meson trancl.r_into_trancl trancl_into_trancl)
qed

definition up_rel :: "pipeline_ir \<Rightarrow> node_name rel" where
  "up_rel p = {(x, y). the_node p y \<noteq> None \<and> (\<exists>e\<in>set (node_in p x). eg_From e = y)}"

lemma arcs_down: "arcs (down_adj (p_Nodes p)) = out_rel p"
  unfolding arcs_def out_rel_def neighbours_def down_adj_def node_out_def map_of_graph
  by (auto split: option.splits)

lemma arcs_up: "arcs (up_adj (p_Nodes p)) = up_rel p"
  unfolding arcs_def up_rel_def neighbours_def up_adj_def node_in_def map_of_graph
  by (auto split: option.splits)

text \<open>
  C35. The reachability answers are path answers: no source-to-sink path is reported exactly when no
  declared sink is reachable from a declared source, \<^verbatim>\<open>downstreamReaches\<close> holds exactly when a path
  leads to a target without leaving a barrier, and \<^verbatim>\<open>upstreamNodes\<close> lists exactly the nodes the start
  depends on.
\<close>

theorem reachability_answers:
  "((\<exists>d\<in>set (checkTopology p file). dg_Code d = ''topo_no_path'') \<longleftrightarrow>
      \<not> (\<exists>s\<in>set (p_Order p). \<exists>t\<in>set (p_Order p). section_of (p_Nodes p) s = Some SectionSource
           \<and> section_of (p_Nodes p) t = Some SectionSink \<and> (s, t) \<in> (out_rel p)\<^sup>*))
   \<and> (downstreamReaches p from barriers targets \<longleftrightarrow>
      (\<exists>t\<in>targets. (from, t) \<in> {(x, y) \<in> out_rel p. x \<notin> barriers}\<^sup>*))
   \<and> upstreamNodes p start = (if the_node p start = None then {} else {m. (start, m) \<in> (up_rel p)\<^sup>*})"
proof (intro conjI)
  let ?ns = "p_Nodes p"
  let ?srcs = "filter (\<lambda>n. section_of ?ns n = Some SectionSource) (p_Order p)"
  have "(\<exists>d\<in>set (checkTopology p file). dg_Code d = ''topo_no_path'') \<longleftrightarrow>
      \<not> (\<exists>n\<in>set (p_Order p). section_of ?ns n = Some SectionSink \<and> n \<in> fst (dfs (down_adj ?ns) (\<lambda>_ u. u) ?srcs {} ()))"
    by (auto simp: checkTopology_def Let_def error_at_def dest: orphan_findings_code split: option.splits if_splits)
  then show "(\<exists>d\<in>set (checkTopology p file). dg_Code d = ''topo_no_path'') \<longleftrightarrow>
      \<not> (\<exists>s\<in>set (p_Order p). \<exists>t\<in>set (p_Order p). section_of ?ns s = Some SectionSource
           \<and> section_of ?ns t = Some SectionSink \<and> (s, t) \<in> (out_rel p)\<^sup>*)"
    unfolding dfs_reaches arcs_down by auto
  have "out_rel p \<inter> {x. x \<notin> barriers} \<times> UNIV = {(x, y) \<in> out_rel p. x \<notin> barriers}" by auto
  then show "downstreamReaches p from barriers targets \<longleftrightarrow>
      (\<exists>t\<in>targets. (from, t) \<in> {(x, y) \<in> out_rel p. x \<notin> barriers}\<^sup>*)"
    unfolding downstreamReaches_def dfs_find_iff arcs_down by auto
  show "upstreamNodes p start = (if the_node p start = None then {} else {m. (start, m) \<in> (up_rel p)\<^sup>*})"
    unfolding upstreamNodes_def dfs_reaches arcs_up by auto
qed

section \<open>The crash of the route check\<close>

definition declared :: "cfg_pipeline \<Rightarrow> node_name \<Rightarrow> cfg_node option" where
  "declared cfg name =
     (case sectionOf cfg name of
        SectionSource \<Rightarrow> cp_Sources cfg name
      | SectionTransform \<Rightarrow> cp_Transforms cfg name
      | SectionSink \<Rightarrow> cp_Sinks cfg name)"

lemma resolve_node_in:
  "resolve_node res name ces (ns, ds) = (ns', ds') \<Longrightarrow>
    map_of ns' n = (if n = name then map_option (\<lambda>nd. nd\<lparr>nd_In := nd_In nd @ map (\<lambda>ce. fst (res name ce)) ces\<rparr>)
                      (map_of ns n) else map_of ns n)"
proof (induction ces arbitrary: ns ds)
  case (Cons ce ces)
  obtain e ds1 where r: "res name ce = (e, ds1)" by fastforce
  let ?ns = "AList.map_entry name (\<lambda>nd. nd\<lparr>nd_In := nd_In nd @ [e]\<rparr>) ns"
  from Cons.IH [of ?ns "ds @ ds1"] Cons.prems r show ?case
    by (cases "map_of ns n") (auto simp: map_of_map_entry)
next
  case Nil
  then show ?case by (cases "map_of ns n") auto
qed

lemma resolve_edges_in:
  "resolve_edges res names (ns, ds) = (ns', ds') \<Longrightarrow> map_of ns n = Some nd \<Longrightarrow>
    \<exists>nd'. map_of ns' n = Some nd' \<and> nd_Config nd' = nd_Config nd \<and>
      set (nd_In nd') = set (nd_In nd) \<union>
        (if n \<in> set names then (\<lambda>ce. fst (res n ce)) ` set (cn_DependsOn (nd_Config nd)) else {})"
proof (induction names arbitrary: ns ds nd)
  case (Cons name names)
  show ?case
  proof (cases "map_of ns name")
    case None
    with Cons.prems have "resolve_edges res names (ns, ds) = (ns', ds')" "n \<noteq> name" by auto
    with Cons.IH Cons.prems(2) show ?thesis by simp
  next
    case (Some m)
    obtain ns1 ds1 where r: "resolve_node res name (cn_DependsOn (nd_Config m)) (ns, ds) = (ns1, ds1)" by fastforce
    let ?nd1 = "if n = name then nd\<lparr>nd_In := nd_In nd @ map (\<lambda>ce. fst (res name ce)) (cn_DependsOn (nd_Config m))\<rparr> else nd"
    have "map_of ns1 n = Some ?nd1" using resolve_node_in [OF r, of n] Cons.prems(2) by auto
    from Cons.IH [OF _ this, of ds1] Cons.prems Some r obtain nd' where
      "map_of ns' n = Some nd'" "nd_Config nd' = nd_Config ?nd1"
      "set (nd_In nd') = set (nd_In ?nd1) \<union>
        (if n \<in> set names then (\<lambda>ce. fst (res n ce)) ` set (cn_DependsOn (nd_Config ?nd1)) else {})" by auto
    with Cons.prems(2) Some show ?thesis by (cases "n = name"; cases "n \<in> set names") auto
  qed
qed auto

lemma materialize_nodes_config:
  "materialize_nodes cfg names ns = Some ns' \<Longrightarrow>
    \<forall>n nd. map_of ns n = Some nd \<longrightarrow> declared cfg n = Some (nd_Config nd) \<and> nd_In nd = [] \<Longrightarrow>
    \<forall>n nd. map_of ns' n = Some nd \<longrightarrow> declared cfg n = Some (nd_Config nd) \<and> nd_In nd = []"
proof (induction names arbitrary: ns)
  case (Cons name names)
  from Cons.prems(1) obtain n where n: "materialize_nodes cfg names (AList.update name n ns) = Some ns'"
    "declared cfg name = Some (nd_Config n)" "nd_In n = []"
    by (auto simp: declared_def split: option.splits)
  show ?case by (rule Cons.IH [OF n(1)]) (use Cons.prems(2) n in \<open>simp add: update_conv'\<close>)
qed auto

lemma materialize_nodes_defined:
  "(materialize_nodes cfg names ns = None) = (\<exists>n\<in>set names. declared cfg n = None)"
  by (induction names arbitrary: ns) (auto simp: declared_def split: option.splits)

lemma dangling_routes_None:
  "dangling_routes amr ns file es = None \<longleftrightarrow> (\<exists>e\<in>set es. eg_RouteName e \<noteq> '''' \<and> map_of ns (eg_From e) = None)"
  by (induction es) (auto simp: route_finding_def split: option.splits)

lemma resolve_edge_names:
  "eg_From (fst (resolve_edge cel cesql f dv rq bf name ce)) = ce_From ce"
  "eg_RouteName (fst (resolve_edge cel cesql f dv rq bf name ce)) = ce_Route ce"
  by (auto simp: resolve_edge_def Let_def split: sum.splits option.splits)

text \<open>
  C36. The build crashes on a mistyped route: the route check dereferences the upstream of every
  routed edge before references are validated, so for a configuration whose declaration order names
  declared nodes only, the build panics exactly when some edge with route sugar names an upstream
  that does not exist (instead of reporting \<^verbatim>\<open>topo_missing_ref\<close>).
\<close>

theorem routed_typo_crashes_build:
  assumes "\<And>n. n \<in> set (cp_Order cfg) \<Longrightarrow> declared cfg n \<noteq> None"
  shows "build_graph cel cesql amr cfg = None \<longleftrightarrow>
    (\<exists>n cn ce. n \<in> set (cp_Order cfg) \<and> declared cfg n = Some cn \<and> ce \<in> set (cn_DependsOn cn)
       \<and> ce_Route ce \<noteq> '''' \<and> ce_From ce \<notin> set (cp_Order cfg))"
proof -
  let ?cfg = "MaterializeEdgeDefaults cfg" and ?names = "cp_Order cfg"
  let ?d = "cp_EdgeDefaults ?cfg"
  let ?res = "resolve_edge cel cesql (cp_File ?cfg) (the (ea_Delivery ?d)) (the (ea_Required ?d)) (the (ea_Buffer ?d))"
  have cfg_order: "cp_Order ?cfg = ?names" by (simp add: MaterializeEdgeDefaults_def Let_def)
  have "materialize_nodes cfg ?names [] \<noteq> None"
    using assms unfolding materialize_nodes_defined by blast
  then obtain ns0 where mat: "materialize_nodes cfg ?names [] = Some ns0" by blast
  obtain ns1 ds1 where res: "resolve_edges ?res ?names (ns0, []) = (ns1, ds1)" by fastforce
  have build: "build_graph cel cesql amr cfg = None \<longleftrightarrow>
      (\<exists>e\<in>set (all_in_edges ns1 ?names). eg_RouteName e \<noteq> '''' \<and> map_of ns1 (eg_From e) = None)"
    unfolding dangling_routes_None [of amr _ "cp_File ?cfg", symmetric] using mat res
    by (simp add: build_graph_def Let_def cfg_order split: option.splits prod.splits)
  have keys0: "set (map fst ns0) = set ?names" "resolved_nodes ns0"
    using materialize_nodes_spec [OF mat] by (auto simp: resolved_nodes_def)
  have "map fst ns1 = map fst ns0" using resolve_edges_spec [OF _ res keys0(2)] by simp
  then have known: "map_of ns1 x = None \<longleftrightarrow> x \<notin> set ?names" for x
    using keys0(1) by (metis map_of_eq_None_iff list.set_map)
  have ins: "set (in_edges ns1 n) = (\<lambda>ce. fst (?res n ce)) ` set (cn_DependsOn (the (declared cfg n)))"
    if n: "n \<in> set ?names" for n
  proof -
    obtain nd where nd: "map_of ns0 n = Some nd"
      using n keys0(1) by (metis map_of_eq_None_iff list.set_map not_None_eq)
    then have "declared cfg n = Some (nd_Config nd)" "nd_In nd = []"
      using materialize_nodes_config [OF mat] by auto
    with resolve_edges_in [OF res nd] n show ?thesis by (auto simp: in_edges_def)
  qed
  show ?thesis unfolding build known
  proof
    assume "\<exists>e\<in>set (all_in_edges ns1 ?names). eg_RouteName e \<noteq> '''' \<and> eg_From e \<notin> set ?names"
    then obtain n e where ne: "n \<in> set ?names" "e \<in> set (in_edges ns1 n)" "eg_RouteName e \<noteq> ''''" "eg_From e \<notin> set ?names"
      by (auto simp: all_in_edges_def)
    obtain cn where cn: "declared cfg n = Some cn" using assms [OF ne(1)] by blast
    with ins [OF ne(1)] ne(2) obtain ce where "ce \<in> set (cn_DependsOn cn)" "e = fst (?res n ce)" by auto
    with cn ne show "\<exists>n cn ce. n \<in> set ?names \<and> declared cfg n = Some cn \<and> ce \<in> set (cn_DependsOn cn)
       \<and> ce_Route ce \<noteq> '''' \<and> ce_From ce \<notin> set ?names" by (auto simp: resolve_edge_names)
  next
    assume "\<exists>n cn ce. n \<in> set ?names \<and> declared cfg n = Some cn \<and> ce \<in> set (cn_DependsOn cn)
       \<and> ce_Route ce \<noteq> '''' \<and> ce_From ce \<notin> set ?names"
    then obtain n cn ce where x: "n \<in> set ?names" "declared cfg n = Some cn" "ce \<in> set (cn_DependsOn cn)"
       "ce_Route ce \<noteq> ''''" "ce_From ce \<notin> set ?names" by blast
    then have "fst (?res n ce) \<in> set (all_in_edges ns1 ?names)"
      using ins [OF x(1)] by (auto simp: all_in_edges_def)
    with x show "\<exists>e\<in>set (all_in_edges ns1 ?names). eg_RouteName e \<noteq> '''' \<and> eg_From e \<notin> set ?names"
      by (intro bexI [of _ "fst (?res n ce)"]) (auto simp: resolve_edge_names)
  qed
qed

theorem routed_typo_crashes_build_witness:
  "build_graph (\<lambda>s. Inl s) (\<lambda>s. Inl s) (\<lambda>s. False)
     (tiny_config\<lparr>cp_Sinks := [''b'' \<mapsto> tiny_node ''b'' SectionSink [(tiny_edge ''aa'')\<lparr>ce_Route := ''r''\<rparr>]]\<rparr>) = None"
  by (subst routed_typo_crashes_build) (auto simp: declared_def sectionOf_def tiny_config_def tiny_node_def tiny_edge_def)

end
