(* ===== verification/Delivery.thy ===== *)
theory Delivery
  imports IRTypes GoText
begin

text \<open>
  The stateless half of the engine (\<^verbatim>\<open>src/internal/engine/engine.go\<close>, \<^verbatim>\<open>nodes.go\<close>): the options
  and their one normalization path, run outcomes, channel sizing, the delivery policy of an edge
  with its backoff, the retry loop transforms and sinks share, and the record a dead letter is
  written from. Durations are nanoseconds; the backoff shifts a 64-bit value, so it is computed on
  \<open>64 word\<close> read as a signed integer.
\<close>

section \<open>Options\<close>

text \<open>The numeric knobs of \<^verbatim>\<open>Options\<close> and the stamps; the hooks (clock, identifiers, telemetry, sink
  wrapper, logger) are inputs of the handlers that use them.\<close>

record options =
  o_BackoffBase :: duration
  o_DLBackoff :: duration
  o_HighWatermark :: int
  o_ChannelSize :: int
  o_BatchFlush :: duration
  o_DefaultTimeout :: duration
  o_DrainTimeout :: duration
  o_SpoolRetention :: int
  o_DLQRetention :: duration
  o_SourceCounterInterval :: duration
  o_MetaStamps :: "(string \<times> any) list"
  o_DisableSources :: bool
  o_WasmSlowCallWarnMs :: int
  o_StarMaxSteps :: int

definition millisecond :: duration where "millisecond = 1000000"
definition second :: duration where "second = 1000 * millisecond"

definition DefaultHighWatermark :: int where "DefaultHighWatermark = 10000"
definition DefaultSpoolRetention :: int where "DefaultSpoolRetention = 10000"
definition DefaultSourceCounterInterval :: duration where "DefaultSourceCounterInterval = second"

definition withDefaults :: "int \<Rightarrow> options \<Rightarrow> options" where
  "withDefaults starDefaultSteps opts =
     (let pos = (\<lambda>v d. if v \<le> 0 then d else v) in
      opts\<lparr>o_BackoffBase := pos (o_BackoffBase opts) (100 * millisecond),
        o_DLBackoff := pos (o_DLBackoff opts) (500 * millisecond),
        o_HighWatermark := pos (o_HighWatermark opts) DefaultHighWatermark,
        o_ChannelSize := pos (o_ChannelSize opts) 128,
        o_BatchFlush := pos (o_BatchFlush opts) second,
        o_DefaultTimeout := pos (o_DefaultTimeout opts) (30 * second),
        o_DrainTimeout := pos (o_DrainTimeout opts) (10 * second),
        o_SpoolRetention := pos (o_SpoolRetention opts) DefaultSpoolRetention,
        o_SourceCounterInterval := pos (o_SourceCounterInterval opts) DefaultSourceCounterInterval,
        o_WasmSlowCallWarnMs := (if o_WasmSlowCallWarnMs opts = 0 then 5000 else o_WasmSlowCallWarnMs opts),
        o_StarMaxSteps := (if o_StarMaxSteps opts = 0 then starDefaultSteps else o_StarMaxSteps opts)\<rparr>)"

definition WithLimits :: "limits option \<Rightarrow> options \<Rightarrow> options" where
  "WithLimits l opts =
     (case l of
        None \<Rightarrow> opts
      | Some l \<Rightarrow>
          let o1 = (if lm_MaxInFlight l > 0 then opts\<lparr>o_HighWatermark := lm_MaxInFlight l\<rparr> else opts)
          in if lm_DrainTimeout l > 0 then o1\<lparr>o_DrainTimeout := lm_DrainTimeout l\<rparr> else o1)"

section \<open>Run outcomes\<close>

definition RunCompleted :: string where "RunCompleted = ''completed''"
definition RunPartial :: string where "RunPartial = ''partial''"
definition RunFailed :: string where "RunFailed = ''failed''"
definition RunInterrupted :: string where "RunInterrupted = ''interrupted''"

text \<open>The \<^verbatim>\<open>SourceErrors\<close> map is an association list from node to error text.\<close>

record outcome =
  oc_Status :: string
  oc_RowsRead :: int
  oc_Committed :: int
  oc_DeadLettered :: int
  oc_SourceErrors :: "(node_name \<times> go_error) list"
  oc_WorkerFatal :: "go_error option"
  oc_Abandoned :: int
  oc_AbandonError :: "go_error option"

definition classifyOutcome :: "go_error option \<Rightarrow> (node_name \<times> go_error) list \<Rightarrow> bool \<Rightarrow> int \<Rightarrow> string" where
  "classifyOutcome workerFatal sourceErrors callerCanceled deadLettered =
     (if workerFatal \<noteq> None then RunFailed
      else if sourceErrors \<noteq> [] then RunFailed
      else if callerCanceled then RunInterrupted
      else if deadLettered > 0 then RunPartial
      else RunCompleted)"

definition FailureText :: "outcome \<Rightarrow> string" where
  "FailureText oc =
     (case oc_WorkerFatal oc of
        Some err \<Rightarrow> err
      | None \<Rightarrow>
          (if oc_SourceErrors oc = [] then ''''
           else let node = hd (sort_slice (<) (map fst (oc_SourceErrors oc)))
                in ''source '' @ go_quote node @ '' failed: ''
                   @ the (map_of (oc_SourceErrors oc) node)))"

definition abandonReason :: "string \<Rightarrow> string" where
  "abandonReason reason = (if reason = '''' then ''run canceled'' else reason)"

definition firstNonEmpty :: "string \<Rightarrow> string \<Rightarrow> string" where
  "firstNonEmpty a b = (if a \<noteq> '''' then a else b)"

section \<open>Channels and delivery policies\<close>

fun channelCapacity :: "int \<Rightarrow> edge list \<Rightarrow> int" where
  "channelCapacity capacity [] = capacity"
| "channelCapacity capacity (e # es) =
     channelCapacity
       (if eg_BufferMax e > 0 \<and> eg_BufferMax e < capacity * 4
        then (if capacity > eg_BufferMax e then capacity else eg_BufferMax e) else capacity) es"

definition deliveryOf :: "edge option \<Rightarrow> int \<times> string" where
  "deliveryOf e = (case e of None \<Rightarrow> (0, ''exponential'') | Some e \<Rightarrow> (eg_Retries e, eg_Backoff e))"

definition edgeLabel :: "edge option \<Rightarrow> string" where
  "edgeLabel e = (case e of None \<Rightarrow> '''' | Some e \<Rightarrow> eg_From e @ '' -> '' @ eg_To e)"

definition min_int :: "int \<Rightarrow> int \<Rightarrow> int" where
  "min_int a b = (if a < b then a else b)"

text \<open>The pause before attempt number \<open>attempt\<close> (from 1 on). A shift count is never negative there.\<close>

definition backoffDelay :: "64 word \<Rightarrow> string \<Rightarrow> int \<Rightarrow> 64 word" where
  "backoffDelay base backoff attempt =
     (if backoff = ''constant'' then base
      else let d = push_bit (nat (min_int (attempt - 1) 16)) base
           in if sint (30 * 1000000000 :: 64 word) < sint d then 30 * 1000000000 else d)"

text \<open>
  The retry loop of \<^verbatim>\<open>processTransform\<close> and \<^verbatim>\<open>writeBatch\<close>: attempts \<open>0\<close> to \<open>retries\<close>, the
  outcome of each given by \<open>act\<close>; before every attempt but the first the loop sleeps, and \<open>halt k\<close>
  says whether the engine stopped during the pause before attempt \<open>k\<close>. The second component counts
  the retries.
\<close>

datatype ('e, 'a) retry_result = Succeeded 'a | GaveUp "'e option" | Stopped

function retry_from :: "int \<Rightarrow> (int \<Rightarrow> 'e + 'a) \<Rightarrow> (int \<Rightarrow> bool) \<Rightarrow> int \<Rightarrow> 'e option \<Rightarrow> int
    \<Rightarrow> ('e, 'a) retry_result \<times> int" where
  "retry_from attempt act halt retries lastErr n =
     (if attempt \<le> retries
      then let n = (if attempt > 0 then n + 1 else n) in
           if attempt > 0 \<and> halt attempt then (Stopped, n)
           else (case act attempt of
                   Inr v \<Rightarrow> (Succeeded v, n)
                 | Inl err \<Rightarrow> retry_from (attempt + 1) act halt retries (Some err) n)
      else (GaveUp lastErr, n))"
  by pat_completeness auto
termination
  by (relation "measure (\<lambda>(attempt, act, halt, retries, lastErr, n). nat (retries + 1 - attempt))") auto

declare retry_from.simps [simp del]

definition retry_loop :: "(int \<Rightarrow> 'e + 'a) \<Rightarrow> (int \<Rightarrow> bool) \<Rightarrow> int \<Rightarrow> ('e, 'a) retry_result \<times> int" where
  "retry_loop act halt retries = retry_from 0 act halt retries None 0"

section \<open>Failure classes and dead-letter records\<close>

definition failureKind :: "apply_error \<Rightarrow> string \<times> string" where
  "failureKind err =
     (case err of
        TypedError _ te \<Rightarrow>
          if te_Kind te \<noteq> '''' then (te_Kind te, te_Backtrace te) else (FailureOther, te_Backtrace te)
      | PlainError _ \<Rightarrow> (FailureOther, ''''))"

definition classLabel :: "string \<Rightarrow> string" where
  "classLabel class = (if class = '''' then FailureOther else class)"

definition deadLetterRecord ::
    "string \<Rightarrow> (string \<times> any) list \<Rightarrow> message \<Rightarrow> node_name \<Rightarrow> string \<Rightarrow> string \<Rightarrow> string \<Rightarrow> string \<Rightarrow> deadLetter" where
  "deadLetterRecord pipeline stamps msg node edg class reason backtrace =
     (let stamped = as_string (map_of stamps ''job_run_id'');
          runID = (if stamped = '''' then as_string (msg_Meta msg ''job_run_id'') else stamped)
      in \<lparr>dl_ID = 0, dl_Pipeline = pipeline, dl_MessageID = msg_ID msg, dl_RunID = runID, dl_Node = node,
          dl_Edge = edg, dl_Reason = reason, dl_Class = class, dl_Backtrace = backtrace,
          dl_Raw = msg_Raw msg, dl_Codec = msg_Codec msg, dl_Meta = msg_Meta msg, dl_Cursor = msg_Cursor msg,
          dl_SrcName = msg_SrcName msg, dl_SrcSeq = msg_SrcSeq msg, dl_CreatedAt = 0\<rparr>)"

section \<open>What the policies guarantee\<close>

lemma retry_from_spec:
  assumes "retry_from a act halt retries err n = (r, m)" and "0 \<le> a"
  shows "case r of
      Succeeded v \<Rightarrow> \<exists>k. a \<le> k \<and> k \<le> retries \<and> act k = Inr v \<and> m = n + k - a + (if a > 0 then 1 else 0)
        \<and> (\<forall>b. a \<le> b \<and> b < k \<longrightarrow> isl (act b)) \<and> (\<forall>b. a \<le> b \<and> 0 < b \<and> b \<le> k \<longrightarrow> \<not> halt b)
    | Stopped \<Rightarrow> \<exists>k. a \<le> k \<and> 0 < k \<and> k \<le> retries \<and> halt k \<and> m = n + k - a + (if a > 0 then 1 else 0)
        \<and> (\<forall>b. a \<le> b \<and> b < k \<longrightarrow> isl (act b)) \<and> (\<forall>b. a \<le> b \<and> 0 < b \<and> b < k \<longrightarrow> \<not> halt b)
    | GaveUp e \<Rightarrow> e = (if a \<le> retries then Some (projl (act retries)) else err)
        \<and> m = (if a \<le> retries then n + retries - a + (if a > 0 then 1 else 0) else n)
        \<and> (\<forall>b. a \<le> b \<and> b \<le> retries \<longrightarrow> isl (act b)) \<and> (\<forall>b. a \<le> b \<and> 0 < b \<and> b \<le> retries \<longrightarrow> \<not> halt b)"
  using assms
proof (induction a act halt retries err n arbitrary: r m rule: retry_from.induct)
  case (1 a act halt retries err n)
  let ?n = "if a > 0 then n + 1 else n"
  consider (over) "\<not> a \<le> retries" | (stop) "a \<le> retries" "a > 0" "halt a"
    | (ok) v where "a \<le> retries" "\<not> (a > 0 \<and> halt a)" "act a = Inr v"
    | (again) e where "a \<le> retries" "\<not> (a > 0 \<and> halt a)" "act a = Inl e"
    by (cases "act a") auto
  then show ?case
  proof cases
    case over
    then show ?thesis using 1(2) by (auto simp: retry_from.simps [of a])
  next
    case stop
    then have "r = Stopped" "m = n + 1" using 1(2) by (auto simp: retry_from.simps [of a])
    then show ?thesis using stop by (auto intro!: exI [of _ a])
  next
    case ok
    then have "r = Succeeded v" "m = ?n" using 1(2) by (auto simp: retry_from.simps [of a] Let_def split: if_splits)
    then show ?thesis using ok 1(3) by (auto intro!: exI [of _ a])
  next
    case again
    then have next_attempt: "retry_from (a + 1) act halt retries (Some e) ?n = (r, m)"
      using 1(2) by (auto simp: retry_from.simps [of a] Let_def split: if_splits)
    have here: "isl (act a)" "0 < a \<Longrightarrow> \<not> halt a" using again by auto
    have ge: "a \<le> b \<longleftrightarrow> b = a \<or> a + 1 \<le> b" for b by auto
    note IH = 1(1) [OF again(1) refl again(2,3) next_attempt]
    show ?thesis
    proof (cases r)
      case (Succeeded v)
      with IH 1(3) obtain k where "a + 1 \<le> k" "k \<le> retries" "act k = Inr v" "m = ?n + k - (a + 1) + 1"
        "\<forall>b. a + 1 \<le> b \<and> b < k \<longrightarrow> isl (act b)" "\<forall>b. a + 1 \<le> b \<and> 0 < b \<and> b \<le> k \<longrightarrow> \<not> halt b" by auto
      then show ?thesis using here Succeeded by (auto simp: ge intro!: exI [of _ k])
    next
      case Stopped
      with IH 1(3) obtain k where "a + 1 \<le> k" "k \<le> retries" "halt k" "m = ?n + k - (a + 1) + 1"
        "\<forall>b. a + 1 \<le> b \<and> b < k \<longrightarrow> isl (act b)" "\<forall>b. a + 1 \<le> b \<and> 0 < b \<and> b < k \<longrightarrow> \<not> halt b" by auto
      then show ?thesis using here Stopped 1(3) by (auto simp: ge intro!: exI [of _ k])
    next
      case (GaveUp e')
      have "a + 1 \<le> retries \<or> a = retries" using again(1) by auto
      then show ?thesis using IH 1(3) GaveUp here again by (auto simp: ge split: if_splits)
    qed
  qed
qed

lemma sint_of_int_in_range: "- (2 ^ 63) \<le> x \<Longrightarrow> x < 2 ^ 63 \<Longrightarrow> sint (of_int x :: 64 word) = x"
  by (simp add: sint_sbintrunc' signed_take_bit_int_eq_self)

lemma push_bit_of_int_word: "push_bit k (of_int x :: 64 word) = of_int (x * 2 ^ k)"
  by (simp add: push_bit_eq_mult)

lemma channelCapacity_ge: "capacity \<le> channelCapacity capacity es"
  by (induction capacity es rule: channelCapacity.induct) (auto split: if_splits)

section \<open>Properties\<close>

text \<open>
  C13. The retry loop makes at most \<open>retries + 1\<close> attempts and ends for one of three reasons: an
  attempt succeeded after every earlier one failed, the engine stopped during a pause, or all
  \<open>retries + 1\<close> attempts failed and the last error is reported. The retry counter is the number of
  attempts that followed a failure.
\<close>

theorem retry_loop_outcomes:
  assumes "retry_loop act halt retries = (r, n)" and "0 \<le> retries"
  shows "0 \<le> n \<and> n \<le> retries \<and>
    (case r of
       Succeeded v \<Rightarrow> act n = Inr v \<and> (\<forall>b. 0 \<le> b \<and> b < n \<longrightarrow> isl (act b)) \<and> (\<forall>b. 0 < b \<and> b \<le> n \<longrightarrow> \<not> halt b)
     | Stopped \<Rightarrow> 0 < n \<and> halt n \<and> (\<forall>b. 0 \<le> b \<and> b < n \<longrightarrow> isl (act b)) \<and> (\<forall>b. 0 < b \<and> b < n \<longrightarrow> \<not> halt b)
     | GaveUp e \<Rightarrow> n = retries \<and> e = Some (projl (act retries)) \<and> (\<forall>b. 0 \<le> b \<and> b \<le> retries \<longrightarrow> isl (act b)))"
  using retry_from_spec [of 0 act halt retries None 0 r n] assms unfolding retry_loop_def
  by (cases r) auto

theorem retry_loop_outcomes_witness:
  "retry_loop (\<lambda>k. if k < 2 then Inl k else Inr ''ok'') (\<lambda>_. False) 3 = (Succeeded ''ok'', 2)
   \<and> retry_loop (\<lambda>k. Inl k :: int + string) (\<lambda>_. False) 2 = (GaveUp (Some 2), 2)"
proof -
  let ?act = "\<lambda>k. Inl k :: int + string"
  have r: "retry_loop (\<lambda>k. if k < 2 then Inl k else Inr ''ok'') (\<lambda>_. False) 3 = (Succeeded ''ok'', 2)"
    by (simp add: retry_loop_def retry_from.simps)
  obtain res n where o: "retry_loop ?act (\<lambda>_. False) 2 = (res, n)" by fastforce
  from retry_loop_outcomes [OF o] have "res = GaveUp (Some 2) \<and> n = 2" by (cases res) auto
  with o r show ?thesis by simp
qed

text \<open>
  C37. The delivery backoff is bounded: for a base below \<open>2 ^ 47\<close> nanoseconds the exponential pause
  before an attempt is the base doubled once per earlier retry (sixteen doublings at most), capped
  at thirty seconds, so it is positive and never longer than the cap. The bound on the base is
  needed: the shift wraps around for a larger one and the cap, a signed comparison, is missed.
\<close>

theorem backoff_bounded:
  assumes "0 < b" and "b < 2 ^ 47" and "1 \<le> attempt" and "backoff \<noteq> ''constant''"
  shows "sint (backoffDelay (of_int b) backoff attempt)
       = min (b * 2 ^ nat (min (attempt - 1) 16)) (30 * 1000000000)
     \<and> 0 < sint (backoffDelay (of_int b) backoff attempt)
     \<and> sint (backoffDelay (of_int (2 ^ 47)) backoff 17) < 0"
proof -
  define k where "k = nat (min (attempt - 1) 16)"
  have k: "nat (min_int (attempt - 1) 16) = k" by (simp add: k_def min_int_def min_def)
  have "(2::int) ^ k \<le> 2 ^ 16" by (rule power_increasing) (auto simp: k_def)
  then have "b * 2 ^ k \<le> (2 ^ 47 - 1) * 2 ^ 16" using assms(1,2) by (intro mult_mono) auto
  moreover have pos: "0 < b * 2 ^ k" using assms(1) by simp
  ultimately have s: "sint (of_int (b * 2 ^ k) :: 64 word) = b * 2 ^ k"
    by (intro sint_of_int_in_range) auto
  have cap: "sint (30 * 1000000000 :: 64 word) = 30 * 1000000000"
    using sint_of_int_in_range [of "30 * 1000000000"] by simp
  have 1: "sint (backoffDelay (of_int b) backoff attempt) = min (b * 2 ^ k) (30 * 1000000000)"
    unfolding backoffDelay_def k push_bit_of_int_word using s cap assms(4) by (simp add: Let_def)
  have "sint (backoffDelay (of_int (2 ^ 47)) backoff 17) < 0"
    unfolding backoffDelay_def push_bit_of_int_word using assms(4) by (simp add: min_int_def Let_def)
  with 1 pos show ?thesis by (simp add: k_def)
qed

theorem backoff_bounded_witness:
  "sint (backoffDelay (of_int 100000000) ''exponential'' 4) = 800000000"
  using backoff_bounded [of 100000000 4 "''exponential''"] by simp

end
