(* ===== verification/Engine.thy ===== *)
theory Engine
  imports Delivery CommitSpec MemStore SourceCommit
begin

text \<open>
  The engine of \<^verbatim>\<open>src/internal/engine\<close> (\<^verbatim>\<open>admission.go\<close>, \<^verbatim>\<open>nodes.go\<close>, \<^verbatim>\<open>engine.go\<close>): the admission
  path, the dispatch, the transform and sink workers, the dead-letter path, the commit hooks, crash
  replay, abandonment and the completion tests. A goroutine is a list of the actions it has left
  to do (\<open>task\<close>); an action is what the goroutine does up to the next point where another goroutine
  can observe it: a channel or semaphore operation, a store call, a call of the commit tracker. A
  blocking operation that cannot proceed leaves its goroutine where it is. What the outside world
  answers (the clock, the store's failures, the plugins, which ready branch a \<^verbatim>\<open>select\<close> takes) is
  the argument \<open>answers\<close> of a step. Telemetry and spans are not part of the state.
\<close>

section \<open>State\<close>

datatype admitMode = AdmitLive | AdmitReplay | AdmitInject

record admitRequest =
  ar_mode :: admitMode
  ar_node :: node_name
  ar_msg :: message
  ar_seq :: seq
  ar_ingest :: gotime
  ar_intoNode :: bool

record inst =
  in_seq :: seq
  in_msg :: message
  in_via :: "edge option"
  in_node :: node_name

record metrics =
  mt_MessagesIn :: int
  mt_CommittedCount :: int
  mt_CheckpointPtr :: seq
  mt_DeadLettered :: int
  mt_CelEvalErrors :: int
  mt_NoMatch :: int
  mt_Retries :: int
  mt_DlqFailures :: int
  mt_OptionalDrops :: int
  mt_DecodeErrors :: int
  mt_TransformRuns :: int
  mt_Backpressured :: int
  mt_SpoolFailures :: int

text \<open>Why a branch of a message ended; recorded in the history variable \<open>e_log\<close> only.\<close>

datatype branch_end =
    Delivered node_name | Filtered node_name | DeadLettered node_name
  | OptionalDropped node_name | Unroutable | Abandoned

datatype task =
    TGate admitRequest                        \<comment> \<open>waiting for an admission slot\<close>
  | TAppend admitRequest                      \<comment> \<open>stamp and append to the spool\<close>
  | TRegister admitRequest seq message gotime \<comment> \<open>acquire, register with the tracker\<close>
  | TDispatch bool node_name seq message      \<comment> \<open>decode; into the node, or out of it\<close>
  | TAdmitEnd                                 \<comment> \<open>the deferred decrement of \<^verbatim>\<open>admitting\<close>\<close>
  | TFanOut node_name seq message
  | TDeliver edge seq message
  | TApply node_name inst
  | TWrite node_name "inst list"              \<comment> \<open>the encoded batch, its sink write\<close>
  | TDeadLetter seq deadLetter
  | TDone seq branch_end                      \<comment> \<open>\<^verbatim>\<open>commit.done\<close>\<close>
  | TOnCommit seq
  | TPersist seq "node_name \<rightharpoonup> seq"
  | TReplay "memRow list"                     \<comment> \<open>rows the crash replay has left\<close>
  | TReplayDone
  | TAbandonScan seq string
  | TAbandonNext seq seq bool string
  | TAbandonOne seq message string
  | TAbandonWrite seq deadLetter
  | TAbandonClear seq
  | TRelease seq

datatype gid = EntryG | ReplayG | WorkerG node_name nat | SinkG node_name | AbandonG

record engine =
  e_store :: memStore
  e_commit :: commitTracker
  e_metrics :: metrics
  e_codecs :: "string \<rightharpoonup> codec"
  e_gate :: int                       \<comment> \<open>slots of the admission semaphore in use\<close>
  e_admitting :: int
  e_acquired :: "seq set"
  e_acceptedAt :: "seq \<rightharpoonup> gotime"
  e_gos :: "(gid \<times> task list) list"
  e_queued :: "inst list"             \<comment> \<open>the node channels, flattened; the node is in the instance\<close>
  e_batched :: "inst list"            \<comment> \<open>the sinks' pending batches, flattened\<close>
  e_dropped :: "seq list"             \<comment> \<open>branches given up at shutdown, uncommitted\<close>
  e_persistedThrough :: seq
  e_flushAttempted :: seq
  e_retentionDue :: seq
  e_committers :: "node_name \<rightharpoonup> sourceCommitter"
  e_runCalled :: bool
  e_started :: bool
  e_scanned :: bool                   \<comment> \<open>the crash replay has read its rows\<close>
  e_replayDone :: bool
  e_ctxDone :: bool
  e_exited :: "gid list"
  e_srcErr :: "(node_name \<times> go_error) list"
  e_srcDone :: "node_name list"
  e_srcTotal :: int
  e_srcStart :: bool
  e_fatalErr :: "go_error option"
  e_runErr :: "go_error option"
  e_restored :: "(node_name \<times> bytes) list"  \<comment> \<open>source states handed to \<^verbatim>\<open>Init\<close>\<close>
  e_abandoned :: int
  e_log :: "(seq \<times> branch_end) list"

text \<open>What an engine is built from: the compiled pipeline, the options, the codec registry and the
  standard library's time format.\<close>

record engine_env =
  ev_ir :: pipeline_ir
  ev_opts :: options
  ev_NewCodec :: "string \<Rightarrow> go_error + codec"
  ev_fmtTime :: "gotime \<Rightarrow> string"

record answers =
  or_now :: gotime
  or_id :: string
  or_err :: "go_error option"      \<comment> \<open>the answer of the step's store call\<close>
  or_trimErr :: "go_error option"
  or_dlqErr :: "go_error option"
  or_stop :: bool                  \<comment> \<open>a \<^verbatim>\<open>select\<close> takes its \<^verbatim>\<open>Done\<close> branch\<close>
  or_apply :: "int \<Rightarrow> apply_error + message list"
  or_write :: "duration \<Rightarrow> message list \<Rightarrow> int \<Rightarrow> go_error + unit"
  or_halt :: "int \<Rightarrow> bool"

text \<open>A step of a goroutine: blocked; the new state and what to do before the rest; or a return
  from the surrounding call, which forgets the rest.\<close>

datatype exec_result = Blocked | Next engine "task list" | Return engine "task list"

abbreviation ev_name :: "engine_env \<Rightarrow> string" where "ev_name v \<equiv> cp_Name (p_Config (ev_ir v))"

definition bump :: "((int \<Rightarrow> int) \<Rightarrow> metrics \<Rightarrow> metrics) \<Rightarrow> int \<Rightarrow> engine \<Rightarrow> engine" where
  "bump upd k e = e\<lparr>e_metrics := upd (\<lambda>n. n + k) (e_metrics e)\<rparr>"

section \<open>The commit tracker's callbacks\<close>

definition hooks :: "callbacks \<Rightarrow> task list" where
  "hooks cb = map TOnCommit (cb_commits cb)
     @ (case cb_advance cb of None \<Rightarrow> [] | Some (thru, fr) \<Rightarrow> [TPersist thru fr])"

definition commit_add :: "seq \<Rightarrow> int \<Rightarrow> engine \<Rightarrow> engine \<times> task list" where
  "commit_add q d e = (case add_delta q d (e_commit e) of (t, cb) \<Rightarrow> (e\<lparr>e_commit := t\<rparr>, hooks cb))"

definition commit_done :: "seq \<Rightarrow> branch_end \<Rightarrow> engine \<Rightarrow> exec_result" where
  "commit_done q why e =
     (case done_branch q (e_commit e) of
        (t, cb) \<Rightarrow> Next (e\<lparr>e_commit := t, e_log := (q, why) # e_log e\<rparr>) (hooks cb))"

definition release :: "seq \<Rightarrow> engine \<Rightarrow> engine" where
  "release q e =
     (if q \<notin> e_acquired e then e
      else e\<lparr>e_acquired := e_acquired e - {q}, e_gate := e_gate e - 1\<rparr>)"

definition takeAccepted :: "seq \<Rightarrow> engine \<Rightarrow> engine \<times> gotime" where
  "takeAccepted q e =
     (e\<lparr>e_acceptedAt := (e_acceptedAt e)(q := None)\<rparr>,
      case e_acceptedAt e q of None \<Rightarrow> 0 | Some t \<Rightarrow> t)"

definition onCommit :: "seq \<Rightarrow> engine \<Rightarrow> engine" where
  "onCommit q e = release q (fst (takeAccepted q (bump mt_CommittedCount_update 1 e)))"

definition trimDeadLetters :: "engine_env \<Rightarrow> answers \<Rightarrow> engine \<Rightarrow> engine" where
  "trimDeadLetters v orc e =
     (if o_DLQRetention (ev_opts v) \<le> 0 then e
      else if or_dlqErr orc \<noteq> None then e
      else e\<lparr>e_store := fst (DeleteDeadLettersBefore (ev_name v)
                               (or_now orc - o_DLQRetention (ev_opts v)) (e_store e))\<rparr>)"

text \<open>The part of \<^verbatim>\<open>persistCheckpoint\<close> after the checkpoint write: one trim per retention window.\<close>

definition persist_retention :: "engine_env \<Rightarrow> answers \<Rightarrow> engine \<Rightarrow> engine" where
  "persist_retention v orc e =
     (let pt = e_persistedThrough e; span = o_SpoolRetention (ev_opts v) in
      if pt \<ge> e_retentionDue e
      then let cutoff = pt - span;
               e1 = (if cutoff > 0 \<and> or_trimErr orc = None
                     then e\<lparr>e_store := fst (DeleteSpoolThrough (ev_name v) cutoff (e_store e))\<rparr> else e);
               e2 = trimDeadLetters v orc e1
           in e2\<lparr>e_retentionDue := (pt div span + 1) * span\<rparr>
      else e)"

definition post_frontiers :: "(node_name \<rightharpoonup> seq) \<Rightarrow> engine \<Rightarrow> engine" where
  "post_frontiers fr e =
     e\<lparr>e_committers := (\<lambda>n. case e_committers e n of
          None \<Rightarrow> None
        | Some c \<Rightarrow> Some (case fr n of None \<Rightarrow> c | Some f \<Rightarrow> post f c))\<rparr>"

definition persistCheckpoint :: "engine_env \<Rightarrow> answers \<Rightarrow> seq \<Rightarrow> (node_name \<rightharpoonup> seq) \<Rightarrow> engine \<Rightarrow> engine" where
  "persistCheckpoint v orc thru fr e =
     (if thru > e_persistedThrough e \<and> or_err orc \<noteq> None
      then e\<lparr>e_flushAttempted := thru\<rparr>
      else let e1 = (if thru > e_persistedThrough e
                     then e\<lparr>e_store := SetCheckpoint (ev_name v) thru (e_store e),
                            e_persistedThrough := thru,
                            e_metrics := (e_metrics e)\<lparr>mt_CheckpointPtr := thru\<rparr>\<rparr>
                     else e);
               e2 = (if thru > e_flushAttempted e1 then e1\<lparr>e_flushAttempted := thru\<rparr> else e1)
           in post_frontiers fr (persist_retention v orc e2))"

definition durableThrough :: "engine \<Rightarrow> seq" where
  "durableThrough e = e_flushAttempted e"

definition resumeCheckpoint :: "seq \<Rightarrow> engine \<Rightarrow> engine" where
  "resumeCheckpoint cp e =
     (if cp \<le> 0 then e
      else e\<lparr>e_commit := resumeFrom cp (e_commit e),
             e_persistedThrough := (if cp > e_persistedThrough e then cp else e_persistedThrough e),
             e_flushAttempted := (if cp > e_flushAttempted e then cp else e_flushAttempted e),
             e_metrics := (e_metrics e)\<lparr>mt_CheckpointPtr := cp\<rparr>\<rparr>)"

section \<open>Codecs and dead letters\<close>

definition engine_codec :: "engine_env \<Rightarrow> string \<Rightarrow> engine \<Rightarrow> engine \<times> (go_error + codec)" where
  "engine_codec v name e =
     (case e_codecs e name of
        Some c \<Rightarrow> (e, Inr c)
      | None \<Rightarrow>
          (case map_of (p_Codecs (ev_ir v)) name of
             Some c \<Rightarrow> (e\<lparr>e_codecs := (e_codecs e)(name \<mapsto> c)\<rparr>, Inr c)
           | None \<Rightarrow>
               (case ev_NewCodec v name of
                  Inl err \<Rightarrow> (e, Inl err)
                | Inr c \<Rightarrow> (e\<lparr>e_codecs := (e_codecs e)(name \<mapsto> c)\<rparr>, Inr c))))"

definition dead_letter_for ::
    "engine_env \<Rightarrow> message \<Rightarrow> node_name \<Rightarrow> string \<Rightarrow> string \<Rightarrow> string \<Rightarrow> string \<Rightarrow> deadLetter" where
  "dead_letter_for v msg node edg class reason backtrace =
     deadLetterRecord (ev_name v) (o_MetaStamps (ev_opts v)) msg node edg class reason backtrace"

text \<open>One turn of the loop of \<^verbatim>\<open>writeDeadLetter\<close>: written, or not, after which the select waits for
  the backoff or gives up.\<close>

definition write_dead_letter :: "answers \<Rightarrow> deadLetter \<Rightarrow> engine \<Rightarrow> engine \<times> bool" where
  "write_dead_letter orc dl e =
     (if or_err orc = None
      then (bump mt_DeadLettered_update 1 (e\<lparr>e_store := WriteDeadLetter (or_now orc) dl (e_store e)\<rparr>), True)
      else (bump mt_DlqFailures_update 1 e, False))"

definition deadLetterMsg :: "answers \<Rightarrow> seq \<Rightarrow> deadLetter \<Rightarrow> engine \<Rightarrow> exec_result" where
  "deadLetterMsg orc q dl e =
     (case write_dead_letter orc dl e of
        (e1, True) \<Rightarrow> Next e1 [TDone q (DeadLettered (dl_Node dl))]
      | (e1, False) \<Rightarrow>
          if or_stop orc \<and> e_ctxDone e1 then Next (e1\<lparr>e_dropped := q # e_dropped e1\<rparr>) []
          else Next e1 [TDeadLetter q dl])"

section \<open>Admission\<close>

definition stamp :: "engine_env \<Rightarrow> answers \<Rightarrow> admitRequest \<Rightarrow> message \<times> gotime" where
  "stamp v orc req =
     (let msg = ar_msg req;
          mid = (if msg_ID msg = '''' then or_id orc else msg_ID msg);
          ingest = (if ar_ingest req = 0 then or_now orc else ar_ingest req);
          meta1 = (msg_Meta msg)(''message_id'' \<mapsto> AStr mid,
                    ''ingest_time'' \<mapsto> AStr (ev_fmtTime v ingest), ''source'' \<mapsto> AStr (ar_node req));
          meta2 = (if ar_mode req = AdmitInject \<and> ar_intoNode req
                   then meta1(''injected_at'' \<mapsto> AStr (ar_node req)) else meta1);
          meta3 = map_of (o_MetaStamps (ev_opts v)) ++ meta2;
          decoder = (case the_node (ev_ir v) (ar_node req) of
                       None \<Rightarrow> '''' | Some nd \<Rightarrow> cn_Decoder (nd_Config nd));
          codec = (if ar_mode req = AdmitLive then (if decoder = '''' then ''json'' else decoder)
                   else if msg_Codec msg = '''' then ''json'' else msg_Codec msg)
      in (msg\<lparr>msg_ID := mid, msg_SrcName := ar_node req, msg_Meta := meta3, msg_Codec := codec\<rparr>, ingest))"

text \<open>The gate: a slot, or \<^verbatim>\<open>Done\<close>. The replay callback turns the context error into the end of the
  scan.\<close>

definition admit_gate :: "engine_env \<Rightarrow> answers \<Rightarrow> admitRequest \<Rightarrow> engine \<Rightarrow> exec_result" where
  "admit_gate v orc req e =
     (if or_stop orc \<and> e_ctxDone e
      then Return (bump mt_Backpressured_update 1 e)
             (TAdmitEnd # (if ar_mode req = AdmitReplay then [TReplayDone] else []))
      else if e_gate e < o_HighWatermark (ev_opts v)
      then Next (e\<lparr>e_gate := e_gate e + 1\<rparr>) [TAppend req]
      else Blocked)"

definition admit_append :: "engine_env \<Rightarrow> answers \<Rightarrow> admitRequest \<Rightarrow> engine \<Rightarrow> exec_result" where
  "admit_append v orc req e =
     (if ar_mode req = AdmitReplay
      then let msg = ar_msg req
           in Next e [TRegister req (ar_seq req)
                (if msg_Codec msg = '''' then msg\<lparr>msg_Codec := ''json''\<rparr> else msg) (ar_ingest req)]
      else (case stamp v orc req of (msg, ingest) \<Rightarrow>
              (case (if or_err orc \<noteq> None then (e_store e, Inl (the (or_err orc)))
                     else AppendSpool (ev_name v) msg ingest (e_store e)) of
                 (st, Inl err) \<Rightarrow>
                   Return (bump mt_SpoolFailures_update 1 (e\<lparr>e_gate := e_gate e - 1\<rparr>)) [TAdmitEnd]
               | (st, Inr q) \<Rightarrow>
                   Next ((if ar_mode req = AdmitLive then bump mt_MessagesIn_update 1 else (\<lambda>x. x))
                           (e\<lparr>e_store := st\<rparr>)) [TRegister req q msg ingest])))"

definition admit_register :: "admitRequest \<Rightarrow> seq \<Rightarrow> message \<Rightarrow> gotime \<Rightarrow> engine \<Rightarrow> exec_result" where
  "admit_register req q msg ingest e =
     (let e1 = e\<lparr>e_acquired := insert q (e_acquired e)\<rparr>;
          e2 = (if ar_mode req = AdmitLive
                then e1\<lparr>e_acceptedAt := (e_acceptedAt e1)(q \<mapsto> ingest),
                        e_commit := arrived q (ar_node req) (msg_SrcSeq (ar_msg req)) (e_commit e1)\<rparr>
                else e1\<lparr>e_commit := arrived q '''' 0 (e_commit e1)\<rparr>)
      in Next e2 [TDispatch (ar_intoNode req) (ar_node req) q msg])"

definition replayEntry :: "engine_env \<Rightarrow> message \<Rightarrow> (node_name \<times> bool) option" where
  "replayEntry v msg =
     (let injected = as_string (msg_Meta msg ''injected_at''); src = as_string (msg_Meta msg ''source'')
      in if injected \<noteq> '''' \<and> the_node (ev_ir v) injected \<noteq> None then Some (injected, True)
         else if src \<noteq> '''' \<and> the_node (ev_ir v) src \<noteq> None then Some (src, False)
         else None)"

text \<open>The callback of \<^verbatim>\<open>replaySpool\<close> for one row.\<close>

definition replay_row :: "engine_env \<Rightarrow> memRow \<Rightarrow> engine \<Rightarrow> engine \<times> task list" where
  "replay_row v r e =
     (case replayEntry v (row_msg r) of
        None \<Rightarrow> (e\<lparr>e_commit := arrived (row_seq r) '''' 0 (e_commit e)\<rparr>, [TDone (row_seq r) Unroutable])
      | Some (node, into) \<Rightarrow>
          (e\<lparr>e_admitting := e_admitting e + 1\<rparr>,
           [TGate \<lparr>ar_mode = AdmitReplay, ar_node = node, ar_msg = row_msg r, ar_seq = row_seq r,
                  ar_ingest = row_ingestTime r, ar_intoNode = into\<rparr>, TAdmitEnd]))"

section \<open>Dispatch\<close>

text \<open>\<^verbatim>\<open>dispatchFrom\<close> and \<^verbatim>\<open>dispatchInternal\<close>: the same decoding, then out of the node or, over a
  required synthetic edge, into it.\<close>

definition dispatch :: "engine_env \<Rightarrow> bool \<Rightarrow> node_name \<Rightarrow> seq \<Rightarrow> message \<Rightarrow> engine \<Rightarrow> exec_result" where
  "dispatch v into node q msg e =
     (let cont = (\<lambda>m. if into
            then [TDeliver \<lparr>eg_From = node, eg_To = node, eg_Line = 0, eg_When = None, eg_WhenSource = '''',
                            eg_RouteName = '''', eg_Required = True, eg_Retries = 0, eg_Backoff = '''',
                            eg_TimeoutMs = 0, eg_BufferMax = 0\<rparr> q m]
            else [TFanOut node q m])
      in (case engine_codec v (msg_Codec msg) e of
            (e1, Inl err) \<Rightarrow>
              Next e1 [TDeadLetter q (dead_letter_for v msg node '''' DLClassCodec (''codec: '' @ err) '''')]
          | (e1, Inr c) \<Rightarrow>
              (if msg_Decoded msg = ANil
               then (case co_Decode c (msg_Raw msg) of
                       Inl derr \<Rightarrow>
                         Next (bump mt_DecodeErrors_update 1 e1)
                           [TDeadLetter q (dead_letter_for v msg node '''' DLClassDecode (''decode: '' @ derr) '''')]
                     | Inr d \<Rightarrow> Next e1 (cont (msg\<lparr>msg_Decoded := d\<rparr>)))
               else Next e1 (cont msg))))"

text \<open>The edges of a node a message passes, and the number of conditions that failed to evaluate.\<close>

fun matched_edges :: "edge list \<Rightarrow> message \<Rightarrow> edge list \<times> int" where
  "matched_edges [] msg = ([], 0)"
| "matched_edges (e # es) msg =
     (case matched_edges es msg of (ms, errs) \<Rightarrow>
        (case eg_When e of
           None \<Rightarrow> (e # ms, errs)
         | Some w \<Rightarrow> (case wp_Eval w (msg_Decoded msg) (msg_Meta msg) of
                        Inl _ \<Rightarrow> (ms, errs + 1)
                      | Inr ok \<Rightarrow> (if ok then (e # ms, errs) else (ms, errs)))))"

definition fanOut :: "engine_env \<Rightarrow> node_name \<Rightarrow> seq \<Rightarrow> message \<Rightarrow> engine \<Rightarrow> exec_result" where
  "fanOut v node q msg e =
     (case matched_edges (node_out (ev_ir v) node) msg of (matched, errs) \<Rightarrow>
        let e1 = bump mt_CelEvalErrors_update errs e
        in if matched = []
           then Next (bump mt_NoMatch_update 1 e1) [TDone q (Filtered node)]
           else (case commit_add q (int (length matched) - 1) e1 of
                   (e2, hs) \<Rightarrow> Next e2 (hs @ map (\<lambda>g. TDeliver g q msg) matched)))"

definition channel :: "node_name \<Rightarrow> engine \<Rightarrow> inst list" where
  "channel n e = filter (\<lambda>i. in_node i = n) (e_queued e)"

definition deliver :: "engine_env \<Rightarrow> answers \<Rightarrow> edge \<Rightarrow> seq \<Rightarrow> message \<Rightarrow> engine \<Rightarrow> exec_result" where
  "deliver v orc g q msg e =
     (if or_stop orc \<and> e_ctxDone e then Next (e\<lparr>e_dropped := q # e_dropped e\<rparr>) []
      else if int (length (channel (eg_To g) e))
                < channelCapacity (o_ChannelSize (ev_opts v)) (node_in (ev_ir v) (eg_To g))
      then Next (e\<lparr>e_queued := e_queued e @
                  [\<lparr>in_seq = q, in_msg = msg, in_via = Some g, in_node = eg_To g\<rparr>]\<rparr>) []
      else Blocked)"

section \<open>Transform workers\<close>

text \<open>During a pause the engine can only be found stopped when it is.\<close>

definition halts :: "answers \<Rightarrow> engine \<Rightarrow> int \<Rightarrow> bool" where
  "halts orc e = (\<lambda>k. or_halt orc k \<and> e_ctxDone e)"

definition processTransform :: "engine_env \<Rightarrow> answers \<Rightarrow> node_name \<Rightarrow> inst \<Rightarrow> engine \<Rightarrow> exec_result" where
  "processTransform v orc node i e =
     (let q = in_seq i;
          e1 = bump mt_TransformRuns_update 1 e;
          plugin = (case the_node (ev_ir v) node of None \<Rightarrow> '''' | Some nd \<Rightarrow> cn_Plugin (nd_Config nd))
      in (case deliveryOf (in_via i) of
            (retries, backoff) \<Rightarrow>
              (case retry_loop (or_apply orc) (halts orc e1) retries of
                 (res, n) \<Rightarrow>
                   let e2 = bump mt_Retries_update n e1;
                       finish = (\<lambda>outputs.
                         if outputs = [] then Next (bump mt_NoMatch_update 1 e2) [TDone q (Filtered node)]
                         else if length outputs > 1
                         then (case commit_add q (int (length outputs) - 1) e2 of
                                 (e3, hs) \<Rightarrow> Next e3 (hs @ map (TFanOut node q) outputs))
                         else Next e2 (map (TFanOut node q) outputs))
                   in (case res of
                         Stopped \<Rightarrow> Next (e2\<lparr>e_dropped := q # e_dropped e2\<rparr>) []
                       | Succeeded outputs \<Rightarrow> finish outputs
                       | GaveUp None \<Rightarrow> finish []
                       | GaveUp (Some err) \<Rightarrow>
                           (case failureKind err of
                              (kind, backtrace) \<Rightarrow>
                                Next e2 [TDeadLetter q (dead_letter_for v (in_msg i) node (edgeLabel (in_via i)) kind
                                           (plugin @ '': '' @ apply_error_text err) backtrace)])))))"

section \<open>Sink workers\<close>

definition batch_size :: "engine_env \<Rightarrow> node_name \<Rightarrow> int" where
  "batch_size v node =
     (case the_node (ev_ir v) node of
        None \<Rightarrow> 1
      | Some nd \<Rightarrow> (case cn_Batch (nd_Config nd) of None \<Rightarrow> 1 | Some b \<Rightarrow> bt_Size b))"

text \<open>The encoding loop of \<^verbatim>\<open>writeBatch\<close>: the dead letters of the instances whose payload does not
  encode, and the batch that is ready to be written.\<close>

fun encode_batch :: "engine_env \<Rightarrow> codec \<Rightarrow> node \<Rightarrow> inst list \<Rightarrow> task list \<times> inst list" where
  "encode_batch v enc nd [] = ([], [])"
| "encode_batch v enc nd (i # is) =
     (let m = in_msg i;
          out = (if msg_Decoded m = ANil then Inr (msg_Out m) else co_Encode enc (msg_Decoded m))
      in (case encode_batch v enc nd is of
            (dls, ready) \<Rightarrow>
              (case out of
                 Inl err \<Rightarrow>
                   (TDeadLetter (in_seq i) (dead_letter_for v (in_msg i) (nd_Name nd) (edgeLabel (in_via i))
                      DLClassEncode (''encode: '' @ err) '''') # dls, ready)
               | Inr bytes \<Rightarrow>
                   let m1 = m\<lparr>msg_Out := bytes\<rparr>;
                       m2 = (case nd_OrderKey nd of
                               None \<Rightarrow> m1
                             | Some f \<Rightarrow> (case f (msg_Decoded m) (msg_Meta m) of
                                            Inl _ \<Rightarrow> m1 | Inr key \<Rightarrow> m1\<lparr>msg_Key := key\<rparr>))
                   in (dls, i\<lparr>in_msg := m2\<rparr> # ready))))"

definition writeBatch :: "engine_env \<Rightarrow> node_name \<Rightarrow> inst list \<Rightarrow> engine \<Rightarrow> engine \<times> task list" where
  "writeBatch v node insts e =
     (case the_node (ev_ir v) node of
        None \<Rightarrow> (e, [])
      | Some nd \<Rightarrow>
          (case engine_codec v (cn_Encoder (nd_Config nd)) e of
             (e1, Inl err) \<Rightarrow>
               (e1, map (\<lambda>i. TDeadLetter (in_seq i) (dead_letter_for v (in_msg i) node (edgeLabel (in_via i))
                       DLClassCodec (''codec: '' @ err) '''')) insts)
           | (e1, Inr enc) \<Rightarrow>
               (case encode_batch v enc nd insts of
                  (dls, ready) \<Rightarrow> (e1, dls @ (if ready = [] then [] else [TWrite node ready])))))"

text \<open>The strictest retry count and timeout of a mixed batch.\<close>

definition batch_retries :: "inst list \<Rightarrow> int" where
  "batch_retries is = foldl (\<lambda>r i. case in_via i of None \<Rightarrow> r | Some g \<Rightarrow> if eg_Retries g > r then eg_Retries g else r) 0 is"

definition batch_timeout :: "duration \<Rightarrow> inst list \<Rightarrow> duration" where
  "batch_timeout dflt is =
     (let t = foldl (\<lambda>t i. case in_via i of None \<Rightarrow> t | Some g \<Rightarrow> if eg_TimeoutMs g > t then eg_TimeoutMs g else t) 0 is
      in if t > 0 then t * millisecond else dflt)"

definition give_up_write :: "engine_env \<Rightarrow> node_name \<Rightarrow> go_error \<Rightarrow> inst \<Rightarrow> int \<times> task" where
  "give_up_write v node err i =
     (let dl = dead_letter_for v (in_msg i) node (edgeLabel (in_via i)) DLClassDelivery
                 (''delivery: sink write failed after retries: '' @ err) ''''
      in (case in_via i of
            Some g \<Rightarrow> if \<not> eg_Required g then (1, TDone (in_seq i) (OptionalDropped node))
                      else (0, TDeadLetter (in_seq i) dl)
          | None \<Rightarrow> (0, TDeadLetter (in_seq i) dl)))"

definition sinkWrite :: "engine_env \<Rightarrow> answers \<Rightarrow> node_name \<Rightarrow> inst list \<Rightarrow> engine \<Rightarrow> exec_result" where
  "sinkWrite v orc node ready e =
     (let timeout = batch_timeout (o_DefaultTimeout (ev_opts v)) ready in
      case retry_loop (or_write orc timeout (map in_msg ready)) (halts orc e) (batch_retries ready) of
        (res, n) \<Rightarrow>
          let e1 = bump mt_Retries_update n e
          in (case res of
                Stopped \<Rightarrow> Next (e1\<lparr>e_dropped := map in_seq ready @ e_dropped e1\<rparr>) []
              | Succeeded _ \<Rightarrow> Next e1 (map (\<lambda>i. TDone (in_seq i) (Delivered node)) ready)
              | GaveUp err \<Rightarrow>
                  let ends = map (give_up_write v node (case err of None \<Rightarrow> '''' | Some x \<Rightarrow> x)) ready
                  in Next (bump mt_OptionalDrops_update (sum_list (map fst ends)) e1) (map snd ends)))"

section \<open>Abandoning the outstanding set\<close>

type_synonym page_acc = "(seq \<times> message) list"

definition collect_outstanding :: "commitTracker \<Rightarrow> page_acc replay_fn" where
  "collect_outstanding t q msg ts acc = (if isOutstanding q t then acc @ [(q, msg)] else acc, None)"

definition abandon_scan :: "engine_env \<Rightarrow> answers \<Rightarrow> seq \<Rightarrow> string \<Rightarrow> engine \<Rightarrow> exec_result" where
  "abandon_scan v orc after reason e =
     (if or_stop orc \<or> or_err orc \<noteq> None then Return e []
      else (case ReplayPage (ev_name v) after 256 (collect_outstanding (e_commit e)) (e_store e) [] of
              (found, lst, more_rows, err) \<Rightarrow>
                Next e (map (\<lambda>(q, m). TAbandonOne q m reason) found @ [TAbandonNext after lst more_rows reason])))"

definition abandon_one :: "engine_env \<Rightarrow> answers \<Rightarrow> seq \<Rightarrow> message \<Rightarrow> string \<Rightarrow> engine \<Rightarrow> exec_result" where
  "abandon_one v orc q msg reason e =
     (if or_stop orc then Return e []
      else Next e [TAbandonWrite q (dead_letter_for v msg (firstNonEmpty (msg_SrcName msg) ''unknown'') ''''
                                      DLClassCanceled reason '''')])"

text \<open>The bounded form of \<^verbatim>\<open>writeDeadLetter\<close>, then \<^verbatim>\<open>forceTerminal\<close> and the release of the slot.\<close>

definition abandon_write :: "answers \<Rightarrow> seq \<Rightarrow> deadLetter \<Rightarrow> engine \<Rightarrow> exec_result" where
  "abandon_write orc q dl e =
     (case write_dead_letter orc dl e of
        (e1, True) \<Rightarrow> Next e1 [TAbandonClear q]
      | (e1, False) \<Rightarrow> if or_stop orc then Return e1 [] else Next e1 [TAbandonWrite q dl])"

definition abandon_clear :: "seq \<Rightarrow> engine \<Rightarrow> exec_result" where
  "abandon_clear q e =
     (case forceTerminal q (e_commit e) of
        (t, cb, cleared) \<Rightarrow>
          Next (e\<lparr>e_commit := t, e_abandoned := e_abandoned e + 1,
                 e_log := (if cleared then [(q, Abandoned)] else []) @ e_log e\<rparr>)
            (hooks cb @ (if cleared then [TRelease q] else [])))"

section \<open>Running a goroutine\<close>

fun exec :: "engine_env \<Rightarrow> answers \<Rightarrow> task \<Rightarrow> engine \<Rightarrow> exec_result" where
  "exec v orc (TGate req) e = admit_gate v orc req e"
| "exec v orc (TAppend req) e = admit_append v orc req e"
| "exec v orc (TRegister req q msg ingest) e = admit_register req q msg ingest e"
| "exec v orc (TDispatch into node q msg) e = dispatch v into node q msg e"
| "exec v orc TAdmitEnd e = Next (e\<lparr>e_admitting := e_admitting e - 1\<rparr>) []"
| "exec v orc (TFanOut node q msg) e = fanOut v node q msg e"
| "exec v orc (TDeliver g q msg) e = deliver v orc g q msg e"
| "exec v orc (TApply node i) e = processTransform v orc node i e"
| "exec v orc (TWrite node ready) e = sinkWrite v orc node ready e"
| "exec v orc (TDeadLetter q dl) e = deadLetterMsg orc q dl e"
| "exec v orc (TDone q why) e = commit_done q why e"
| "exec v orc (TOnCommit q) e = Next (onCommit q e) []"
| "exec v orc (TPersist thru fr) e = Next (persistCheckpoint v orc thru fr e) []"
| "exec v orc (TReplay []) e = Next e [TReplayDone]"
| "exec v orc (TReplay (r # rs)) e = (case replay_row v r e of (e1, ts) \<Rightarrow> Next e1 (ts @ [TReplay rs]))"
| "exec v orc TReplayDone e = Next (e\<lparr>e_replayDone := True\<rparr>) []"
| "exec v orc (TAbandonScan after reason) e = abandon_scan v orc after reason e"
| "exec v orc (TAbandonNext after lst more_rows reason) e =
     Next e (if \<not> more_rows \<or> lst = after then [] else [TAbandonScan lst reason])"
| "exec v orc (TAbandonOne q msg reason) e = abandon_one v orc q msg reason e"
| "exec v orc (TAbandonWrite q dl) e = abandon_write orc q dl e"
| "exec v orc (TAbandonClear q) e = abandon_clear q e"
| "exec v orc (TRelease q) e = Next (release q e) []"

section \<open>Building and running an engine\<close>

definition node_section_is :: "engine_env \<Rightarrow> node_section \<Rightarrow> node_name \<Rightarrow> bool" where
  "node_section_is v sct n =
     (case the_node (ev_ir v) n of None \<Rightarrow> False | Some nd \<Rightarrow> cn_Section (nd_Config nd) = sct)"

definition source_names :: "engine_env \<Rightarrow> node_name list" where
  "source_names v = filter (node_section_is v SectionSource) (p_Order (ev_ir v))"

definition zero_metrics :: metrics where
  "zero_metrics = \<lparr>mt_MessagesIn = 0, mt_CommittedCount = 0, mt_CheckpointPtr = 0, mt_DeadLettered = 0,
     mt_CelEvalErrors = 0, mt_NoMatch = 0, mt_Retries = 0, mt_DlqFailures = 0, mt_OptionalDrops = 0,
     mt_DecodeErrors = 0, mt_TransformRuns = 0, mt_Backpressured = 0, mt_SpoolFailures = 0\<rparr>"

definition fresh_engine :: "engine_env \<Rightarrow> memStore \<Rightarrow> engine" where
  "fresh_engine v st =
     \<lparr>e_store = st, e_commit = newCommitTracker (source_names v), e_metrics = zero_metrics,
      e_codecs = Map.empty, e_gate = 0, e_admitting = 0, e_acquired = {}, e_acceptedAt = Map.empty,
      e_gos = [], e_queued = [], e_batched = [], e_dropped = [], e_persistedThrough = 0,
      e_flushAttempted = 0, e_retentionDue = 0,
      e_committers = (\<lambda>n. if n \<in> set (source_names v) then Some newSourceCommitter else None),
      e_runCalled = False, e_started = False, e_scanned = False, e_replayDone = False, e_ctxDone = False,
      e_exited = [], e_srcErr = [], e_srcDone = [], e_srcTotal = 0, e_srcStart = False,
      e_fatalErr = None, e_runErr = None, e_restored = [], e_abandoned = 0, e_log = []\<rparr>"

text \<open>The node loop of \<^verbatim>\<open>New\<close>: each plugin is instantiated (\<open>mk\<close> gives the error of a plugin that
  cannot be built) and the codecs of sources and sinks are resolved.\<close>

fun new_nodes :: "engine_env \<Rightarrow> (node_name \<Rightarrow> go_error option) \<Rightarrow> node_name list \<Rightarrow> engine \<Rightarrow> go_error + engine" where
  "new_nodes v mk [] e = Inr e"
| "new_nodes v mk (n # ns) e =
     (case the_node (ev_ir v) n of
        None \<Rightarrow> new_nodes v mk ns e
      | Some nd \<Rightarrow>
          let fail = (\<lambda>kind err. Inl (kind @ '' '' @ go_quote n @ '': '' @ err));
              with_codec = (\<lambda>kind name. case engine_codec v name e of
                 (e1, Inl err) \<Rightarrow> fail kind err | (e1, Inr c) \<Rightarrow> new_nodes v mk ns e1)
          in (case cn_Section (nd_Config nd) of
                SectionSource \<Rightarrow> (case mk n of Some err \<Rightarrow> fail ''source'' err
                                  | None \<Rightarrow> with_codec ''source'' (cn_Decoder (nd_Config nd)))
              | SectionSink \<Rightarrow> (case mk n of Some err \<Rightarrow> fail ''sink'' err
                                | None \<Rightarrow> with_codec ''sink'' (cn_Encoder (nd_Config nd)))
              | SectionTransform \<Rightarrow> (case mk n of Some err \<Rightarrow> fail ''transform'' err
                                     | None \<Rightarrow> new_nodes v mk ns e)))"

definition newEngine :: "engine_env \<Rightarrow> (node_name \<Rightarrow> go_error option) \<Rightarrow> memStore \<Rightarrow> go_error + engine" where
  "newEngine v mk st = new_nodes v mk (p_Order (ev_ir v)) (fresh_engine v st)"

definition spawn :: "gid \<Rightarrow> task list \<Rightarrow> engine \<Rightarrow> engine" where
  "spawn g ts e = e\<lparr>e_gos := (g, ts) # e_gos e\<rparr>"

definition idle :: "gid \<Rightarrow> engine \<Rightarrow> bool" where
  "idle g e \<longleftrightarrow> (\<forall>(h, ts)\<in>set (e_gos e). h = g \<longrightarrow> ts = []) \<and> g \<notin> set (e_exited e)"

definition cancel :: "engine \<Rightarrow> engine" where
  "cancel e = e\<lparr>e_ctxDone := True\<rparr>"

text \<open>The start of \<^verbatim>\<open>Run\<close>: the second call is refused, the first publishes readiness.\<close>

definition run_start :: "engine \<Rightarrow> engine \<times> go_error option" where
  "run_start e =
     (if e_runCalled e then (e, Some ''engine: Run called twice'')
      else (e\<lparr>e_runCalled := True, e_started := True\<rparr>, None))"

definition replaySpool :: "engine_env \<Rightarrow> answers \<Rightarrow> engine \<Rightarrow> engine" where
  "replaySpool v orc e =
     (case or_err orc of
        Some err \<Rightarrow> cancel (e\<lparr>e_runErr := Some (''engine: read checkpoint: '' @ err)\<rparr>)
      | None \<Rightarrow>
          let cp = Checkpoint (ev_name v) (e_store e);
              rows = fst (spoolWindow (ev_name v) cp (int (length (ms_spool (e_store e)))) (e_store e))
          in spawn ReplayG [TReplay rows] ((resumeCheckpoint cp e)\<lparr>e_scanned := True\<rparr>))"

definition startSources :: "engine_env \<Rightarrow> engine \<Rightarrow> engine" where
  "startSources v e =
     (let names = source_names v;
          e1 = e\<lparr>e_srcTotal := int (length names), e_srcStart := True\<rparr>
      in if o_DisableSources (ev_opts v) then e1\<lparr>e_srcDone := names\<rparr>
         else e1\<lparr>e_restored := filter (\<lambda>(n, st). st \<noteq> '''')
                   (map (\<lambda>n. (n, fst (SourceState (ev_name v) n (e_store e)))) names)\<rparr>)"

definition markSourceDone :: "node_name \<Rightarrow> go_error option \<Rightarrow> engine \<Rightarrow> engine" where
  "markSourceDone n err e =
     e\<lparr>e_srcDone := List.insert n (e_srcDone e),
       e_srcErr := (case err of
          None \<Rightarrow> e_srcErr e
        | Some x \<Rightarrow> if map_of (e_srcErr e) n \<noteq> None then e_srcErr e else (n, x) # e_srcErr e)\<rparr>"

text \<open>The return of a source goroutine: an error under a live context stops the engine, an error
  under a cancelled one is a shutdown artifact.\<close>

definition sourceReturned :: "node_name \<Rightarrow> go_error option \<Rightarrow> engine \<Rightarrow> engine" where
  "sourceReturned n err e =
     (if err \<noteq> None \<and> \<not> e_ctxDone e then cancel (markSourceDone n err e) else markSourceDone n None e)"

definition failNode :: "node_name \<Rightarrow> go_error \<Rightarrow> engine \<Rightarrow> engine" where
  "failNode n err e =
     cancel (if e_fatalErr e = None
             then e\<lparr>e_fatalErr := Some (''node '' @ go_quote n @ '': '' @ err)\<rparr> else e)"

definition Close :: "engine \<Rightarrow> engine" where
  "Close e = (if e_started e then cancel e else e)"

definition begin_admission :: "admitRequest \<Rightarrow> engine \<Rightarrow> engine" where
  "begin_admission req e =
     spawn EntryG [TGate req, TAdmitEnd] (e\<lparr>e_admitting := e_admitting e + 1\<rparr>)"

definition accept :: "message \<Rightarrow> node_name \<Rightarrow> engine \<Rightarrow> engine" where
  "accept raw n e =
     begin_admission \<lparr>ar_mode = AdmitLive, ar_node = n, ar_msg = raw, ar_seq = 0, ar_ingest = 0,
                      ar_intoNode = False\<rparr> e"

definition injectAt :: "engine_env \<Rightarrow> node_name \<Rightarrow> message \<Rightarrow> engine \<Rightarrow> go_error + engine" where
  "injectAt v n msg e =
     (if the_node (ev_ir v) n = None then Inl (''engine: unknown node '' @ go_quote n)
      else if \<not> e_started e then Inl ''engine: not started; call Run first''
      else Inr (begin_admission \<lparr>ar_mode = AdmitInject, ar_node = n, ar_msg = msg, ar_seq = 0, ar_ingest = 0,
                  ar_intoNode = \<not> node_section_is v SectionSource n\<rparr> e))"

definition InjectReplay :: "engine_env \<Rightarrow> node_name \<Rightarrow> message \<Rightarrow> engine \<Rightarrow> go_error + engine" where
  "InjectReplay v n msg e =
     (let meta1 = (msg_Meta msg)(''is_replay'' \<mapsto> ABool True);
          meta2 = (if msg_ID msg \<noteq> '''' then meta1(''original_message_id'' \<mapsto> AStr (msg_ID msg)) else meta1)
      in injectAt v n (msg\<lparr>msg_Meta := meta2\<rparr>) e)"

definition Abandon :: "string \<Rightarrow> engine \<Rightarrow> engine" where
  "Abandon reason e = spawn AbandonG [TAbandonScan (committedThrough (e_commit e)) reason] e"

section \<open>The select loops of the workers\<close>

fun take_queued :: "node_name \<Rightarrow> inst list \<Rightarrow> (inst \<times> inst list) option" where
  "take_queued n [] = None"
| "take_queued n (i # is) =
     (if in_node i = n then Some (i, is) else map_option (\<lambda>(j, js). (j, i # js)) (take_queued n is))"

definition workers_of :: "engine_env \<Rightarrow> node_name \<Rightarrow> int" where
  "workers_of v n =
     (case the_node (ev_ir v) n of
        None \<Rightarrow> 0 | Some nd \<Rightarrow> (if cn_Workers (nd_Config nd) < 1 then 1 else cn_Workers (nd_Config nd)))"

definition transform_recv :: "node_name \<Rightarrow> nat \<Rightarrow> engine \<Rightarrow> engine option" where
  "transform_recv n k e =
     (case take_queued n (e_queued e) of
        None \<Rightarrow> None
      | Some (i, rest) \<Rightarrow> Some (spawn (WorkerG n k) [TApply n i] (e\<lparr>e_queued := rest\<rparr>)))"

definition pending_batch :: "node_name \<Rightarrow> engine \<Rightarrow> inst list" where
  "pending_batch n e = filter (\<lambda>i. in_node i = n) (e_batched e)"

definition sink_flush :: "engine_env \<Rightarrow> node_name \<Rightarrow> engine \<Rightarrow> engine" where
  "sink_flush v n e =
     (let batch = pending_batch n e;
          e1 = e\<lparr>e_batched := filter (\<lambda>i. in_node i \<noteq> n) (e_batched e)\<rparr>
      in if batch = [] then e
         else (case writeBatch v n batch e1 of (e2, ts) \<Rightarrow> spawn (SinkG n) ts e2))"

definition sink_recv :: "engine_env \<Rightarrow> node_name \<Rightarrow> engine \<Rightarrow> engine option" where
  "sink_recv v n e =
     (case take_queued n (e_queued e) of
        None \<Rightarrow> None
      | Some (i, rest) \<Rightarrow>
          let e1 = e\<lparr>e_queued := rest, e_batched := e_batched e @ [i]\<rparr>
          in Some (if int (length (pending_batch n e1)) \<ge> batch_size v n then sink_flush v n e1 else e1))"

definition exit_worker :: "gid \<Rightarrow> engine \<Rightarrow> engine" where
  "exit_worker g e = e\<lparr>e_exited := g # e_exited e\<rparr>"

section \<open>Options of a new engine\<close>

text \<open>\<^verbatim>\<open>New\<close> normalizes the options and takes the pipeline's dead-letter retention when the caller
  set none.\<close>

definition new_options :: "int \<Rightarrow> pipeline_ir \<Rightarrow> options \<Rightarrow> options" where
  "new_options starDefaultSteps p opts =
     (let o1 = withDefaults starDefaultSteps opts
      in if o_DLQRetention o1 \<le> 0
         then (case cp_DLQRetention (p_Config p) of None \<Rightarrow> o1 | Some r \<Rightarrow> o1\<lparr>o_DLQRetention := r\<rparr>)
         else o1)"

section \<open>Source health counters\<close>

text \<open>One counter value of \<^verbatim>\<open>sampleSourceCounters\<close>: the baseline moves, and the delta is reported when
  the counter was seen before and grew. A sample is taken at most once per interval.\<close>

definition sample_counter :: "string \<Rightarrow> int \<Rightarrow> (string \<rightharpoonup> int) \<Rightarrow> (string \<rightharpoonup> int) \<times> int option" where
  "sample_counter key val seen =
     (seen(key \<mapsto> val),
      case seen key of
        None \<Rightarrow> None
      | Some prev \<Rightarrow> if val < prev then None else if val - prev > 0 then Some (val - prev) else None)"

fun sample_counters :: "(string \<times> int) list \<Rightarrow> (string \<rightharpoonup> int) \<Rightarrow> (string \<rightharpoonup> int) \<times> (string \<times> int) list" where
  "sample_counters [] seen = (seen, [])"
| "sample_counters ((key, val) # cs) seen =
     (case sample_counter key val seen of
        (seen1, d) \<Rightarrow>
          (case sample_counters cs seen1 of
             (seen2, ds) \<Rightarrow> (seen2, (case d of None \<Rightarrow> ds | Some x \<Rightarrow> (key, x) # ds))))"

definition sampleSourceCounters :: "duration \<Rightarrow> gotime \<Rightarrow> (string \<times> int) list \<Rightarrow> gotime \<Rightarrow> (string \<rightharpoonup> int)
    \<Rightarrow> gotime \<times> (string \<rightharpoonup> int) \<times> (string \<times> int) list" where
  "sampleSourceCounters interval now counters lastSample seen =
     (if lastSample \<noteq> 0 \<and> now - lastSample < interval then (lastSample, seen, [])
      else (case sample_counters counters seen of (seen1, ds) \<Rightarrow> (now, seen1, ds)))"

section \<open>Completion\<close>

definition SourcesDone :: "engine \<Rightarrow> bool" where
  "SourcesDone e \<longleftrightarrow> e_srcStart e \<and> int (length (e_srcDone e)) \<ge> e_srcTotal e"

definition Quiesced :: "engine \<Rightarrow> bool" where
  "Quiesced e =
     (if \<not> SourcesDone e then False
      else if \<not> e_replayDone e \<or> e_admitting e \<noteq> 0 then False
      else (case snapshot (e_commit e) of
              (open_branches, through, _) \<Rightarrow> open_branches = 0 \<and> durableThrough e \<ge> through))"

text \<open>The test \<^verbatim>\<open>WaitCommit\<close> polls.\<close>

definition commit_complete :: "engine \<Rightarrow> bool" where
  "commit_complete e \<longleftrightarrow>
     (case snapshot (e_commit e) of
        (open_branches, through, _) \<Rightarrow>
          open_branches = 0 \<and> durableThrough e \<ge> through \<and> e_replayDone e \<and> e_admitting e = 0)"

datatype run_result = Running | RanTo "go_error option"

text \<open>One turn of the loop of \<^verbatim>\<open>waitQuiesced\<close>: \<open>None\<close> is another turn. When the context and Run's
  result are both ready the select picks either (\<open>pick_ctx\<close>).\<close>

definition waitQuiesced :: "bool \<Rightarrow> go_error option \<Rightarrow> run_result \<Rightarrow> engine
    \<Rightarrow> (go_error option \<times> go_error option \<times> bool) option" where
  "waitQuiesced pick_ctx ctx_err run e =
     (if Quiesced e then Some (None, None, False)
      else if ctx_err \<noteq> None \<and> (pick_ctx \<or> run = Running) then Some (ctx_err, None, False)
      else (case run of
              RanTo None \<Rightarrow> Some (Some ''engine stopped before quiescence'', None, True)
            | RanTo (Some err) \<Rightarrow> Some (Some err, Some err, True)
            | Running \<Rightarrow> None))"

text \<open>The end of \<^verbatim>\<open>Wait\<close>: Run's result when it returned within the bound, the published fatal error
  otherwise, and the classification.\<close>

definition wait_outcome :: "run_result \<Rightarrow> bool \<Rightarrow> int \<Rightarrow> go_error option \<Rightarrow> engine \<Rightarrow> outcome" where
  "wait_outcome run callerCanceled abandoned abandonErr e =
     (let runErr = (case run of RanTo r \<Rightarrow> r | Running \<Rightarrow> e_fatalErr e);
          dl = mt_DeadLettered (e_metrics e)
      in \<lparr>oc_Status = classifyOutcome runErr (e_srcErr e) callerCanceled dl,
          oc_RowsRead = mt_MessagesIn (e_metrics e), oc_Committed = mt_CommittedCount (e_metrics e),
          oc_DeadLettered = dl, oc_SourceErrors = e_srcErr e, oc_WorkerFatal = runErr,
          oc_Abandoned = abandoned, oc_AbandonError = abandonErr\<rparr>)"

section \<open>The step relation\<close>

text \<open>
  The engine as a transition system: any goroutine takes its next action, and the environment
  starts, injects, emits and stops. The flag \<open>early\<close> says whether messages may be injected before
  the crash replay has read its rows; the code only checks that the engine has started, so it
  allows it.
\<close>

inductive engine_step :: "engine_env \<Rightarrow> bool \<Rightarrow> engine \<Rightarrow> engine \<Rightarrow> bool"
  for v :: engine_env and early :: bool where
  es_run: "run_start e = (e', None) \<Longrightarrow> engine_step v early e e'"
| es_replay: "e_started e \<Longrightarrow> \<not> e_scanned e \<Longrightarrow> e_runErr e = None \<Longrightarrow>
    engine_step v early e (replaySpool v orc e)"
| es_sources: "e_replayDone e \<Longrightarrow> \<not> e_srcStart e \<Longrightarrow> engine_step v early e (startSources v e)"
| es_emit: "e_srcStart e \<Longrightarrow> n \<in> set (source_names v) \<Longrightarrow> n \<notin> set (e_srcDone e) \<Longrightarrow>
    engine_step v early e (accept msg n e)"
| es_inject: "injectAt v n msg e = Inr e' \<Longrightarrow> early \<or> e_scanned e \<Longrightarrow> engine_step v early e e'"
| es_transform: "node_section_is v SectionTransform n \<Longrightarrow> int k < workers_of v n \<Longrightarrow> e_started e \<Longrightarrow>
    idle (WorkerG n k) e \<Longrightarrow> transform_recv n k e = Some e' \<Longrightarrow> engine_step v early e e'"
| es_sink: "node_section_is v SectionSink n \<Longrightarrow> e_started e \<Longrightarrow> idle (SinkG n) e \<Longrightarrow>
    sink_recv v n e = Some e' \<Longrightarrow> engine_step v early e e'"
| es_tick: "node_section_is v SectionSink n \<Longrightarrow> idle (SinkG n) e \<Longrightarrow> 1 < batch_size v n \<Longrightarrow>
    engine_step v early e (sink_flush v n e)"
| es_sink_stop: "node_section_is v SectionSink n \<Longrightarrow> idle (SinkG n) e \<Longrightarrow> e_ctxDone e \<Longrightarrow>
    engine_step v early e (exit_worker (SinkG n) (sink_flush v n e))"
| es_worker_stop: "idle (WorkerG n k) e \<Longrightarrow> e_ctxDone e \<Longrightarrow>
    engine_step v early e (exit_worker (WorkerG n k) e)"
| es_source_returned: "e_srcStart e \<Longrightarrow> n \<in> set (source_names v) \<Longrightarrow> n \<notin> set (e_srcDone e) \<Longrightarrow>
    engine_step v early e (sourceReturned n err e)"
| es_fail: "node_section_is v SectionTransform n \<Longrightarrow> e_started e \<Longrightarrow>
    engine_step v early e (failNode n err e)"
| es_close: "engine_step v early e (Close e)"
| es_abandon: "e_started e \<Longrightarrow> engine_step v early e (Abandon reason e)"
| es_exec: "e_gos e = xs @ (g, t # ts) # ys \<Longrightarrow> exec v orc t e = Next e' new \<Longrightarrow>
    engine_step v early e (e'\<lparr>e_gos := xs @ (g, new @ ts) # ys\<rparr>)"
| es_return: "e_gos e = xs @ (g, t # ts) # ys \<Longrightarrow> exec v orc t e = Return e' new \<Longrightarrow>
    engine_step v early e (e'\<lparr>e_gos := xs @ (g, new) # ys\<rparr>)"

definition engine_init :: "engine_env \<Rightarrow> memStore \<Rightarrow> engine \<Rightarrow> bool" where
  "engine_init v st e \<longleftrightarrow> (\<exists>mk. newEngine v mk st = Inr e)"

abbreviation engine_reachable :: "engine_env \<Rightarrow> memStore \<Rightarrow> engine \<Rightarrow> bool" where
  "engine_reachable v st \<equiv> reachable (engine_init v st) (engine_step v False)"

end
