(* ===== verification/EngineSpec.thy ===== *)
theory EngineSpec
  imports Engine
begin

text \<open>
  The invariants of the engine. Every action keeps three books: the branches in flight (a
  multiset of spool sequences: the actions goroutines have left, the queued and batched instances,
  and the branches given up at shutdown) agree with the commit tracker's counts; every message the
  durable checkpoint does not cover still has its spool row; and the admission slots in use are
  those of admissions under way and of messages not yet released. The first part states the books
  over their components and shows that each operation of the tracker keeps them; the second part
  shows which operation each action of a goroutine performs.
\<close>

section \<open>The branch accounts\<close>

definition acc :: "commitTracker \<Rightarrow> prefix_spec \<Rightarrow> seq multiset \<Rightarrow> seq multiset \<Rightarrow> seq set \<Rightarrow> seq \<Rightarrow> bool" where
  "acc t s H P L N \<longleftrightarrow>
     tracker_wf t \<and> sim_base t s \<and>
     (\<forall>q. q \<in># H \<longrightarrow> q \<in> sp_reg s) \<and>
     (\<forall>q. q \<in> sp_reg s \<and> q \<notin> sp_forced s \<longrightarrow>
        sp_live s q = (if count H q = 0 then None else Some (int (count H q)))) \<and>
     (\<forall>q. count P q \<le> 1) \<and> (\<forall>q. q \<in># P \<longrightarrow> sp_base s < q \<and> q \<notin> sp_reg s \<and> q \<le> N) \<and>
     (\<forall>q. q \<in> sp_reg s \<longrightarrow> q \<le> N) \<and> sp_base s \<le> N \<and>
     (\<forall>q. q \<in> sp_reg s \<longrightarrow> q \<in># H \<or> q \<in> L)"

lemma accD:
  assumes "acc t s H P L N"
  shows "tracker_wf t" "sim_base t s" "q \<in># H \<Longrightarrow> q \<in> sp_reg s"
    "q \<in> sp_reg s \<Longrightarrow> q \<notin> sp_forced s \<Longrightarrow>
       sp_live s q = (if count H q = 0 then None else Some (int (count H q)))"
    "count P q \<le> 1" "q \<in># P \<Longrightarrow> sp_base s < q \<and> q \<notin> sp_reg s \<and> q \<le> N"
    "q \<in> sp_reg s \<Longrightarrow> q \<le> N" "sp_base s \<le> N" "q \<in> sp_reg s \<Longrightarrow> q \<in># H \<or> q \<in> L"
  using assms by (auto simp: acc_def)

lemma forced_not_live: "sim_base t s \<Longrightarrow> q \<in> sp_forced s \<Longrightarrow> sp_live s q = None"
  using sim_baseD(2,3) [of t s q] by auto

lemma not_registered_not_live: "sim_base t s \<Longrightarrow> q \<notin> sp_reg s \<Longrightarrow> sp_live s q = None"
  using sim_baseD(2,3) [of t s q] by (cases "outstanding t q") auto

text \<open>A sequence can be lost from the waiting set, and the log and the row range may grow.\<close>

lemma acc_mono:
  assumes "acc t s H P L N" and "P' \<subseteq># P" and "L \<subseteq> L'" and "N \<le> N'"
  shows "acc t s H P' L' N'"
proof -
  have "count P' q \<le> 1" for q
    using mset_subset_eq_count [OF assms(2), of q] accD(5) [OF assms(1), of q] by simp
  moreover have "q \<in># P" if "q \<in># P'" for q using that assms(2) by (rule mset_subset_eqD [rotated])
  ultimately show ?thesis using assms(1,3,4) unfolding acc_def by (meson order_trans subsetD)
qed

lemma acc_append:
  assumes "acc t s H P L N"
  shows "acc t s H (add_mset (N + 1) P) L (N + 1)"
proof -
  have "N + 1 \<notin># P" using accD(6) [OF assms, of "N + 1"] by auto
  moreover have "N + 1 \<notin> sp_reg s" using accD(7) [OF assms, of "N + 1"] by auto
  ultimately show ?thesis
    using assms by (fastforce simp: acc_def not_in_iff split: if_splits)
qed

lemma acc_arrived:
  assumes a: "acc t s H P L N" and "q \<in># P"
  shows "acc (arrived q node n t) (sp_step (Arrived q node n) s) (add_mset q H) (P - {#q#}) L N"
proof -
  have ok: "op_ok (Arrived q node n) s" using accD(6) [OF a assms(2)] by simp
  have wf: "tracker_wf (arrived q node n t)"
    using ct_step_wf [OF accD(1) [OF a], of "Arrived q node n"] by simp
  have q: "q \<notin># H" using accD(3) [OF a, of q] accD(6) [OF a assms(2)] by auto
  have "r \<noteq> q" if "r \<in># P - {#q#}" for r
    using that accD(5) [OF a, of q] by (auto simp: in_diff_count)
  moreover have "r \<in># P" if "r \<in># P - {#q#}" for r using that by (rule in_diffD)
  moreover have "count (P - {#q#}) r \<le> 1" for r using accD(5) [OF a, of r] by simp
  ultimately show ?thesis
    using a q wf sim_arrived(1) [OF accD(2) [OF a] ok] accD(6) [OF a assms(2)]
    by (auto simp: acc_def count_eq_zero_iff)
qed

lemma add_op_ok:
  assumes a: "acc t s H P L N" and "q \<in># H"
  shows "op_ok (Add q d) s"
  using accD(3) [OF a assms(2)] accD(4) [OF a, of q] assms(2) by (auto simp: sp_terminal_def count_eq_zero_iff)

lemma acc_add:
  assumes a: "acc t s H P L N" and q: "q \<in># H" and "0 \<le> d" and step: "add_delta q d t = (t', cb)"
  shows "acc t' (sp_step (Add q d) s) (H + replicate_mset (nat d) q) P L N"
proof -
  have st: "ct_step (Add q d) t = (t', cb)" using step by simp
  have wf: "tracker_wf t'" using ct_step_wf [OF accD(1) [OF a], of "Add q d"] st by simp
  note sim = sim_step(1) [OF accD(1,2) [OF a] add_op_ok [OF a q] st]
  have frame: "sp_reg (sp_step (Add q d) s) = sp_reg s" "sp_forced (sp_step (Add q d) s) = sp_forced s"
    "sp_base (sp_step (Add q d) s) = sp_base s" by (auto split: option.split)
  obtain n where n: "count H q = Suc n" using q by (metis count_greater_zero_iff gr0_implies_Suc)
  then have pos: "0 < count H q" by simp
  have here: "sp_live s q = (if q \<in> sp_forced s then None else Some (int (count H q)))"
    using accD(4) [OF a accD(3) [OF a q]] pos forced_not_live [OF accD(2) [OF a], of q] by simp
  have live: "sp_live (sp_step (Add q d) s) r
      = (if r = q \<and> q \<notin> sp_forced s then Some (int (count H q) + d) else sp_live s r)" for r
    using here n assms(3) by (cases "q \<in> sp_forced s") auto
  have reg: "r \<in> sp_reg s" if "r \<in># H + replicate_mset (nat d) q" for r
    using that accD(3) [OF a] q by (auto split: if_splits)
  have counts: "sp_live (sp_step (Add q d) s) r
      = (if count (H + replicate_mset (nat d) q) r = 0 then None
         else Some (int (count (H + replicate_mset (nat d) q) r)))"
    if "r \<in> sp_reg s" "r \<notin> sp_forced s" for r
    using accD(4) [OF a that] that q assms(3) unfolding live by (auto simp: count_eq_zero_iff)
  have logged: "r \<in># H + replicate_mset (nat d) q \<or> r \<in> L" if "r \<in> sp_reg s" for r
    using accD(9) [OF a that] by auto
  show ?thesis
    using accD(5-8) [OF a] wf sim reg logged counts unfolding acc_def frame by blast
qed

lemma acc_done:
  assumes a: "acc t s H P L N" and q: "q \<in># H" and step: "done_branch q t = (t', cb)"
  shows "acc t' (sp_step (Add q (- 1)) s) (H - {#q#}) P (insert q L) N"
proof -
  have st: "ct_step (Add q (- 1)) t = (t', cb)" using step by (simp add: done_branch_def)
  have wf: "tracker_wf t'" using ct_step_wf [OF accD(1) [OF a], of "Add q (- 1)"] st by simp
  note sim = sim_step(1) [OF accD(1,2) [OF a] add_op_ok [OF a q] st]
  have frame: "sp_reg (sp_step (Add q (- 1)) s) = sp_reg s" "sp_forced (sp_step (Add q (- 1)) s) = sp_forced s"
    "sp_base (sp_step (Add q (- 1)) s) = sp_base s" by (auto split: option.split)
  obtain n where n: "count H q = Suc n" using q by (metis count_greater_zero_iff gr0_implies_Suc)
  then have pos: "0 < count H q" by simp
  have here: "sp_live s q = (if q \<in> sp_forced s then None else Some (int (count H q)))"
    using accD(4) [OF a accD(3) [OF a q]] pos forced_not_live [OF accD(2) [OF a], of q] by simp
  have live: "sp_live (sp_step (Add q (- 1)) s) r
      = (if r = q \<and> q \<notin> sp_forced s then (if count H q = 1 then None else Some (int (count H q) - 1))
         else sp_live s r)" for r
    using here n by (cases "q \<in> sp_forced s") auto
  have reg: "r \<in> sp_reg s" if "r \<in># H - {#q#}" for r using accD(3) [OF a] that by (metis in_diffD)
  have logged: "r \<in># H - {#q#} \<or> r \<in> insert q L" if "r \<in> sp_reg s" for r
    using accD(9) [OF a that] by (cases "r = q") (auto simp: in_diff_count)
  have counts: "sp_live (sp_step (Add q (- 1)) s) r
      = (if count (H - {#q#}) r = 0 then None else Some (int (count (H - {#q#}) r)))"
    if "r \<in> sp_reg s" "r \<notin> sp_forced s" for r
    using accD(4) [OF a that] that n unfolding live by (cases "r = q") (auto simp: of_nat_diff count_eq_zero_iff)
  show ?thesis
    using accD(5-8) [OF a] wf sim reg logged counts unfolding acc_def frame by blast
qed

lemma acc_force:
  assumes a: "acc t s H P L N" and step: "forceTerminal q t = (t', cb, cleared)"
  shows "acc t' (sp_step (Force q) s) H P (if cleared then insert q L else L) N"
proof -
  have st: "ct_step (Force q) t = (t', cb)" using step by simp
  have wf: "tracker_wf t'" using ct_step_wf [OF accD(1) [OF a], of "Force q"] st by simp
  note sim = sim_step(1) [OF accD(1,2) [OF a] _ st]
  show ?thesis using a wf sim by (auto simp: acc_def)
qed

text \<open>The cursor never moves back.\<close>

lemma ct_step_ptr_mono: "ct_step x t = (t', cb) \<Longrightarrow> committedPtr t \<le> committedPtr t'"
proof (cases x)
  case (Arrived q node n)
  moreover assume "ct_step x t = (t', cb)"
  ultimately show ?thesis by (auto simp: arrived_fields)
next
  case (Add q d)
  moreover assume "ct_step x t = (t', cb)"
  ultimately have "add_delta q d t = (t', cb)" by simp
  then show ?thesis
  proof (cases rule: add_delta_cases)
    case (normal b js adv)
    then show ?thesis using advanceLocked_spec(1) [OF normal(2)] by (simp add: add_pre_def)
  next
    case (straggler b u js adv fr sw)
    then show ?thesis
      using advanceLocked_spec(1) [OF straggler(2)] sweepSrcRefsLocked_frame [OF straggler(5)]
      by (simp add: add_pre_def)
  qed simp
next
  case (Force q)
  moreover assume "ct_step x t = (t', cb)"
  ultimately obtain ok where "forceTerminal q t = (t', cb, ok)" by (auto split: prod.splits)
  then show ?thesis
  proof (cases rule: forceTerminal_cases)
    case (forced n js adv)
    then show ?thesis using advanceLocked_spec(1) [OF forced(2)] by (simp add: force_pre_def)
  qed simp
qed

section \<open>What an action holds\<close>

text \<open>The branches an action is responsible for, the spool sequences it is about to register, and
  the admission slots it holds that no message has acquired yet.\<close>

fun task_seqs :: "task \<Rightarrow> seq list" where
  "task_seqs (TDispatch _ _ q _) = [q]"
| "task_seqs (TFanOut _ q _) = [q]"
| "task_seqs (TDeliver _ q _) = [q]"
| "task_seqs (TApply _ i) = [in_seq i]"
| "task_seqs (TWrite _ is) = map in_seq is"
| "task_seqs (TDeadLetter q _) = [q]"
| "task_seqs (TDone q _) = [q]"
| "task_seqs _ = []"

fun pend_seqs :: "task \<Rightarrow> seq list" where
  "pend_seqs (TGate req) = (if ar_mode req = AdmitReplay then [ar_seq req] else [])"
| "pend_seqs (TAppend req) = (if ar_mode req = AdmitReplay then [ar_seq req] else [])"
| "pend_seqs (TRegister _ q _ _) = [q]"
| "pend_seqs (TReplay rows) = map row_seq rows"
| "pend_seqs _ = []"

fun task_hook :: "task \<Rightarrow> task list" where
  "task_hook (TOnCommit q) = [TOnCommit q]"
| "task_hook (TPersist thru fr) = [TPersist thru fr]"
| "task_hook (TRelease q) = [TRelease q]"
| "task_hook _ = []"

definition toks :: "task list \<Rightarrow> seq multiset" where
  "toks ts = (\<Sum>t\<leftarrow>ts. mset (task_seqs t))"

definition pend :: "task list \<Rightarrow> seq multiset" where
  "pend ts = (\<Sum>t\<leftarrow>ts. mset (pend_seqs t))"

definition hook_tasks :: "task list \<Rightarrow> task list" where
  "hook_tasks ts = concat (map task_hook ts)"

lemma toks_simps [simp]: "toks [] = {#}" "toks (t # ts) = mset (task_seqs t) + toks ts"
  "toks (ts @ us) = toks ts + toks us"
  by (simp_all add: toks_def)

lemma pend_simps [simp]: "pend [] = {#}" "pend (t # ts) = mset (pend_seqs t) + pend ts"
  "pend (ts @ us) = pend ts + pend us"
  by (simp_all add: pend_def)

lemma hook_tasks_simps [simp]: "hook_tasks [] = []" "hook_tasks (t # ts) = task_hook t @ hook_tasks ts"
  "hook_tasks (ts @ us) = hook_tasks ts @ hook_tasks us"
  by (simp_all add: hook_tasks_def)

definition env_toks :: "engine \<Rightarrow> seq multiset" where
  "env_toks e = mset (map in_seq (e_queued e)) + mset (map in_seq (e_batched e)) + mset (e_dropped e)"

definition go_tasks :: "engine \<Rightarrow> task list" where
  "go_tasks e = concat (map snd (e_gos e))"

definition holders :: "engine \<Rightarrow> seq multiset" where
  "holders e = toks (go_tasks e) + env_toks e"

definition logged :: "engine \<Rightarrow> seq set" where
  "logged e = fst ` set (e_log e)"

lemma hooks_no_toks [simp]: "toks (hooks cb) = {#}" "pend (hooks cb) = {#}" "hook_tasks (hooks cb) = hooks cb"
proof -
  have m: "toks (map TOnCommit xs) = {#}" "pend (map TOnCommit xs) = {#}"
    "hook_tasks (map TOnCommit xs) = map TOnCommit xs" for xs
    by (induction xs) auto
  show "toks (hooks cb) = {#}" "pend (hooks cb) = {#}" "hook_tasks (hooks cb) = hooks cb"
    by (auto simp: hooks_def m split: option.split)
qed

lemma toks_map_fanout [simp]: "toks (map (TFanOut n q) ms) = replicate_mset (length ms) q"
  "pend (map (TFanOut n q) ms) = {#}" "hook_tasks (map (TFanOut n q) ms) = []"
  by (induction ms) auto

lemma toks_map_deliver [simp]: "toks (map (\<lambda>g. TDeliver g q m) gs) = replicate_mset (length gs) q"
  "pend (map (\<lambda>g. TDeliver g q m) gs) = {#}" "hook_tasks (map (\<lambda>g. TDeliver g q m) gs) = []"
  by (induction gs) auto

lemma toks_map_done [simp]: "toks (map (\<lambda>i. TDone (in_seq i) w) is) = mset (map in_seq is)"
  "pend (map (\<lambda>i. TDone (in_seq i) w) is) = {#}" "hook_tasks (map (\<lambda>i. TDone (in_seq i) w) is) = []"
  by (induction "is") auto

lemma toks_give_up [simp]: "toks (map snd (map (give_up_write v n err) is)) = mset (map in_seq is)"
  "pend (map snd (map (give_up_write v n err) is)) = {#}"
  "hook_tasks (map snd (map (give_up_write v n err) is)) = []"
  by (induction "is") (auto simp: give_up_write_def Let_def split: option.splits)

lemma toks_dead_letters [simp]: "toks (map (\<lambda>i. TDeadLetter (in_seq i) (f i)) is) = mset (map in_seq is)"
  "pend (map (\<lambda>i. TDeadLetter (in_seq i) (f i)) is) = {#}"
  "hook_tasks (map (\<lambda>i. TDeadLetter (in_seq i) (f i)) is) = []"
  by (induction "is") auto

lemma toks_abandon [simp]: "toks (map (\<lambda>(q, m). TAbandonOne q m r) found) = {#}"
  "pend (map (\<lambda>(q, m). TAbandonOne q m r) found) = {#}"
  "hook_tasks (map (\<lambda>(q, m). TAbandonOne q m r) found) = []"
  by (induction found) auto

lemma encode_batch_toks:
  assumes "encode_batch v enc nd is = (dls, ready)"
  shows "toks dls + mset (map in_seq ready) = mset (map in_seq is) \<and> pend dls = {#} \<and> hook_tasks dls = []"
  using assms
proof (induction "is" arbitrary: dls ready)
  case (Cons i js)
  obtain d1 r1 where rec: "encode_batch v enc nd js = (d1, r1)" by fastforce
  from Cons.IH [OF rec] Cons.prems show ?case
    by (auto simp: rec Let_def split: sum.splits option.splits if_splits)
qed simp

lemma writeBatch_toks:
  assumes "writeBatch v n is e = (e', ts)" and "node_section_is v sct n"
  shows "toks ts = mset (map in_seq is)" "pend ts = {#}" "hook_tasks ts = []"
    "e' = e\<lparr>e_codecs := e_codecs e'\<rparr>"
proof -
  from assms(2) obtain nd where nd: "the_node (ev_ir v) n = Some nd"
    by (auto simp: node_section_is_def split: option.splits)
  obtain e1 r where c: "engine_codec v (cn_Encoder (nd_Config nd)) e = (e1, r)" by fastforce
  have e1: "e1 = e\<lparr>e_codecs := e_codecs e1\<rparr>"
    using c by (auto simp: engine_codec_def split: option.splits sum.splits)
  have "toks ts = mset (map in_seq is) \<and> pend ts = {#} \<and> hook_tasks ts = [] \<and> e' = e1"
  proof (cases r)
    case (Inl err)
    then show ?thesis using assms(1) nd c by (auto simp: writeBatch_def)
  next
    case (Inr enc)
    obtain dls ready where b: "encode_batch v enc nd is = (dls, ready)" by fastforce
    from encode_batch_toks [OF b] show ?thesis
      using assms(1) nd c Inr b by (auto simp: writeBatch_def)
  qed
  then show "toks ts = mset (map in_seq is)" "pend ts = {#}" "hook_tasks ts = []"
    "e' = e\<lparr>e_codecs := e_codecs e'\<rparr>" using e1 by auto
qed

section \<open>What an action does to the accounts\<close>

datatype effect =
    Quiet | Appended | Registered seq node_name seq | Opened seq int | Ended seq | Forced seq

definition contract :: "effect \<Rightarrow> task \<Rightarrow> engine \<Rightarrow> engine \<Rightarrow> task list \<Rightarrow> bool" where
  "contract x t e e' new \<longleftrightarrow>
     (let H = env_toks e + toks [t]; H' = env_toks e' + toks new; P = pend [t]; P' = pend new;
          N = ms_nextSeq (e_store e); N' = ms_nextSeq (e_store e') in
      case x of
        Quiet \<Rightarrow> e_commit e' = e_commit e \<and> hook_tasks new = [] \<and> H' = H \<and> P' = P
          \<and> e_log e' = e_log e \<and> N' = N
      | Appended \<Rightarrow> e_commit e' = e_commit e \<and> hook_tasks new = [] \<and> H' = H
          \<and> P' = add_mset (N + 1) P \<and> e_log e' = e_log e \<and> N' = N + 1
      | Registered q n k \<Rightarrow> e_commit e' = arrived q n k (e_commit e) \<and> hook_tasks new = []
          \<and> H' = add_mset q H \<and> P = add_mset q P' \<and> e_log e' = e_log e \<and> N' = N
      | Opened q d \<Rightarrow> 0 \<le> d \<and> q \<in> set (task_seqs t)
          \<and> (\<exists>cb. add_delta q d (e_commit e) = (e_commit e', cb) \<and> hook_tasks new = hooks cb)
          \<and> H' = H + replicate_mset (nat d) q \<and> P' = P \<and> e_log e' = e_log e \<and> N' = N
      | Ended q \<Rightarrow> q \<in> set (task_seqs t)
          \<and> (\<exists>cb. done_branch q (e_commit e) = (e_commit e', cb) \<and> hook_tasks new = hooks cb)
          \<and> H = add_mset q H' \<and> P' = P \<and> (\<exists>w. e_log e' = (q, w) # e_log e) \<and> N' = N
      | Forced q \<Rightarrow>
          (\<exists>cb cleared. forceTerminal q (e_commit e) = (e_commit e', cb, cleared)
             \<and> hook_tasks new = hooks cb @ (if cleared then [TRelease q] else [])
             \<and> e_log e' = (if cleared then [(q, Abandoned)] else []) @ e_log e) \<and> H' = H \<and> P' = P \<and> N' = N)"

lemma bump_fields [simp]:
  "e_commit (bump f k e) = e_commit e" "env_toks (bump f k e) = env_toks e" "logged (bump f k e) = logged e"
  "e_store (bump f k e) = e_store e" "e_gos (bump f k e) = e_gos e" "e_ctxDone (bump f k e) = e_ctxDone e"
  "e_dropped (bump f k e) = e_dropped e" "e_gate (bump f k e) = e_gate e"
  "e_acquired (bump f k e) = e_acquired e" "e_admitting (bump f k e) = e_admitting e"
  "e_log (bump f k e) = e_log e" "e_queued (bump f k e) = e_queued e" "e_batched (bump f k e) = e_batched e"
  "e_codecs (bump f k e) = e_codecs e"
  by (simp_all add: bump_def env_toks_def logged_def)

lemma engine_codec_frame:
  assumes "engine_codec v name e = (e1, r)"
  shows "e_commit e1 = e_commit e" "env_toks e1 = env_toks e" "e_log e1 = e_log e" "e_store e1 = e_store e"
    "e_gos e1 = e_gos e" "e_gate e1 = e_gate e" "e_acquired e1 = e_acquired e" "e_admitting e1 = e_admitting e"
  using assms by (auto simp: engine_codec_def env_toks_def logged_def split: option.splits sum.splits)

lemma codecs_frame [simp]:
  "env_toks (e\<lparr>e_codecs := c\<rparr>) = env_toks e" "logged (e\<lparr>e_codecs := c\<rparr>) = logged e"
  by (simp_all add: env_toks_def logged_def)

lemma replicate_branches: "0 < n \<Longrightarrow> replicate_mset n q = add_mset q (replicate_mset (nat (int n - 1)) q)"
  by (cases n) auto

lemma contract_Quiet:
  assumes "e_commit e' = e_commit e" "env_toks e' = env_toks e" "e_log e' = e_log e"
    "ms_nextSeq (e_store e') = ms_nextSeq (e_store e)"
    "toks new = toks [t]" "pend new = pend [t]" "hook_tasks new = []"
  shows "contract Quiet t e e' new"
  using assms by (simp add: contract_def Let_def)

lemmas contract_simps = contract_def Let_def env_toks_def logged_def

lemma store_frame [simp]: "ms_nextSeq (WriteDeadLetter now dl s) = ms_nextSeq s"
  "ms_nextSeq (SetCheckpoint p q s) = ms_nextSeq s"
  "ms_nextSeq (fst (DeleteSpoolThrough p q s)) = ms_nextSeq s"
  "ms_nextSeq (fst (DeleteDeadLettersBefore p t s)) = ms_nextSeq s"
  by (simp_all add: memstore_defs Let_def)

lemma write_dead_letter_frame:
  assumes "write_dead_letter orc dl e = (e1, ok)"
  shows "e_commit e1 = e_commit e" "env_toks e1 = env_toks e" "e_gos e1 = e_gos e"
    "ms_nextSeq (e_store e1) = ms_nextSeq (e_store e)" "e_gate e1 = e_gate e" "e_acquired e1 = e_acquired e"
    "e_admitting e1 = e_admitting e" "e_ctxDone e1 = e_ctxDone e" "e_queued e1 = e_queued e"
    "e_batched e1 = e_batched e" "e_dropped e1 = e_dropped e" "e_log e1 = e_log e"
  using assms by (auto simp: write_dead_letter_def bump_def env_toks_def logged_def split: if_splits)

lemma gate_contract: "admit_gate v orc req e = Next e' new \<Longrightarrow> contract Quiet (TGate req) e e' new"
  by (auto simp: admit_gate_def contract_simps split: if_splits)

lemma append_contract:
  assumes "admit_append v orc req e = Next e' new"
  shows "\<exists>x\<in>{Quiet, Appended}. contract x (TAppend req) e e' new"
  using assms
  by (auto simp: admit_append_def contract_simps AppendSpool_def Let_def bump_def split: if_splits prod.splits sum.splits)

lemma register_contract:
  assumes "admit_register req q msg ingest e = Next e' new"
  shows "contract (Registered q (if ar_mode req = AdmitLive then ar_node req else '''')
      (if ar_mode req = AdmitLive then msg_SrcSeq (ar_msg req) else 0)) (TRegister req q msg ingest) e e' new"
  using assms by (auto simp: admit_register_def contract_simps split: if_splits)

lemma dispatch_contract:
  assumes "dispatch v into node q msg e = Next e' new"
  shows "contract Quiet (TDispatch into node q msg) e e' new"
proof -
  obtain e1 r where c: "engine_codec v (msg_Codec msg) e = (e1, r)" by fastforce
  note e1 = engine_codec_frame [OF c]
  have "(e' = e1 \<or> e' = bump mt_DecodeErrors_update 1 e1) \<and> toks new = {#q#} \<and> pend new = {#} \<and> hook_tasks new = []"
    using assms by (auto simp: dispatch_def Let_def c split: sum.splits if_splits)
  then show ?thesis using e1(1-4) by (intro contract_Quiet) (elim conjE disjE; simp)+
qed

lemma fanOut_contract:
  assumes "fanOut v node q msg e = Next e' new"
  shows "\<exists>x. contract x (TFanOut node q msg) e e' new"
proof -
  obtain ms errs where m: "matched_edges (node_out (ev_ir v) node) msg = (ms, errs)" by fastforce
  show ?thesis
  proof (cases "ms = []")
    case True
    then have "contract Quiet (TFanOut node q msg) e e' new"
      using assms by (auto simp: fanOut_def m contract_def Let_def)
    then show ?thesis by blast
  next
    case False
    then have rep: "replicate_mset (length ms) q = add_mset q (replicate_mset (nat (int (length ms) - 1)) q)"
      by (intro replicate_branches) simp
    have "contract (Opened q (int (length ms) - 1)) (TFanOut node q msg) e e' new"
      using assms False rep
      by (auto simp: fanOut_def m contract_def Let_def commit_add_def env_toks_def logged_def Suc_le_eq split: prod.splits)
    then show ?thesis by blast
  qed
qed

lemma deliver_contract: "deliver v orc g q msg e = Next e' new \<Longrightarrow> contract Quiet (TDeliver g q msg) e e' new"
  by (auto simp: deliver_def contract_simps split: if_splits)

lemma transform_contract:
  assumes "processTransform v orc node i e = Next e' new"
  shows "\<exists>x. contract x (TApply node i) e e' new"
proof -
  obtain retries backoff where d: "deliveryOf (in_via i) = (retries, backoff)" by fastforce
  obtain res n where r: "retry_loop (or_apply orc) (halts orc (bump mt_TransformRuns_update 1 e)) retries = (res, n)"
    by fastforce
  let ?e2 = "bump mt_Retries_update n (bump mt_TransformRuns_update 1 e)"
  have quiet: "contract Quiet (TApply node i) e (bump f k ?e2) ts"
    if "toks ts = {#in_seq i#}" "pend ts = {#}" "hook_tasks ts = []" for f k ts
    using that by (simp add: contract_def Let_def)
  have quiet2: "contract Quiet (TApply node i) e ?e2 ts"
    if "toks ts = {#in_seq i#}" "pend ts = {#}" "hook_tasks ts = []" for ts
    using that by (simp add: contract_def Let_def)
  note unf = processTransform_def d r Let_def prod.case
  show ?thesis
  proof (cases res)
    case Stopped
    then have "e' = ?e2\<lparr>e_dropped := in_seq i # e_dropped ?e2\<rparr>" "new = []"
      using assms by (auto simp: unf)
    then have "contract Quiet (TApply node i) e e' new"
      by (simp add: contract_def Let_def env_toks_def logged_def)
    then show ?thesis by blast
  next
    case (GaveUp err)
    then have "e' = bump mt_NoMatch_update 1 ?e2 \<or> e' = ?e2" "toks new = {#in_seq i#}" "pend new = {#}" "hook_tasks new = []"
      using assms by (auto simp: unf split: option.splits prod.splits)
    then show ?thesis using quiet quiet2 by blast
  next
    case (Succeeded outs)
    consider "outs = []" | "length outs = 1" | "length outs > 1" by (cases outs) (auto simp: Suc_le_eq)
    then show ?thesis
    proof cases
      case 1
      then have "e' = bump mt_NoMatch_update 1 ?e2" "toks new = {#in_seq i#}" "pend new = {#}" "hook_tasks new = []"
        using assms Succeeded by (auto simp: unf)
      then show ?thesis using quiet by blast
    next
      case 2
      then obtain m where "outs = [m]" by (auto simp: length_Suc_conv)
      then have "e' = ?e2" "toks new = {#in_seq i#}" "pend new = {#}" "hook_tasks new = []"
        using assms Succeeded by (auto simp: unf)
      then show ?thesis using quiet2 by blast
    next
      case 3
      then have ne: "outs \<noteq> []" by auto
      then have rep: "replicate_mset (length outs) (in_seq i)
          = add_mset (in_seq i) (replicate_mset (nat (int (length outs) - 1)) (in_seq i))"
        by (intro replicate_branches) simp
      have "contract (Opened (in_seq i) (int (length outs) - 1)) (TApply node i) e e' new"
        using assms 3 ne rep Succeeded
        by (auto simp: unf contract_def commit_add_def env_toks_def logged_def split: prod.splits)
      then show ?thesis by blast
    qed
  qed
qed

lemma sinkWrite_contract:
  assumes "sinkWrite v orc node ready e = Next e' new"
  shows "contract Quiet (TWrite node ready) e e' new"
proof -
  obtain res n where r: "retry_loop (or_write orc (batch_timeout (o_DefaultTimeout (ev_opts v)) ready)
      (map in_msg ready)) (halts orc e) (batch_retries ready) = (res, n)" by fastforce
  show ?thesis
    using assms toks_give_up unfolding sinkWrite_def Let_def r prod.case
    by (cases res) (auto simp: contract_def Let_def env_toks_def logged_def bump_def simp del: map_map split: option.splits)
qed

lemma deadLetterMsg_contract:
  assumes "deadLetterMsg orc q dl e = Next e' new"
  shows "contract Quiet (TDeadLetter q dl) e e' new"
proof -
  obtain e1 ok where w: "write_dead_letter orc dl e = (e1, ok)" by fastforce
  show ?thesis using assms write_dead_letter_frame [OF w]
    by (cases ok) (auto simp: deadLetterMsg_def w contract_simps split: if_splits)
qed

lemma done_contract:
  assumes "commit_done q why e = Next e' new"
  shows "contract (Ended q) (TDone q why) e e' new"
  using assms by (auto simp: commit_done_def contract_simps split: prod.splits)

lemma release_fields [simp]:
  "e_commit (release q e) = e_commit e" "env_toks (release q e) = env_toks e" "e_log (release q e) = e_log e"
  "e_store (release q e) = e_store e" "e_gos (release q e) = e_gos e" "e_admitting (release q e) = e_admitting e"
  by (simp_all add: release_def env_toks_def logged_def)

lemma onCommit_fields [simp]:
  "e_commit (onCommit q e) = e_commit e" "env_toks (onCommit q e) = env_toks e" "e_log (onCommit q e) = e_log e"
  "e_store (onCommit q e) = e_store e" "e_gos (onCommit q e) = e_gos e" "e_admitting (onCommit q e) = e_admitting e"
  by (simp_all add: onCommit_def takeAccepted_def env_toks_def logged_def bump_def release_def)

lemmas persist_defs = persistCheckpoint_def persist_retention_def trimDeadLetters_def post_frontiers_def Let_def

lemma persist_fields [simp]:
  "e_commit (persistCheckpoint v orc thru fr e) = e_commit e"
  "env_toks (persistCheckpoint v orc thru fr e) = env_toks e"
  "e_log (persistCheckpoint v orc thru fr e) = e_log e"
  "e_gos (persistCheckpoint v orc thru fr e) = e_gos e"
  "e_admitting (persistCheckpoint v orc thru fr e) = e_admitting e"
  "e_replayDone (persistCheckpoint v orc thru fr e) = e_replayDone e"
  "e_scanned (persistCheckpoint v orc thru fr e) = e_scanned e"
  "e_gate (persistCheckpoint v orc thru fr e) = e_gate e"
  "e_acquired (persistCheckpoint v orc thru fr e) = e_acquired e"
  "ms_nextSeq (e_store (persistCheckpoint v orc thru fr e)) = ms_nextSeq (e_store e)"
  by (simp_all add: persist_defs env_toks_def logged_def)

lemma replay_row_contract:
  assumes "replay_row v r e = (e', ts)"
  shows "\<exists>x. contract x (TReplay (r # rs)) e e' (ts @ [TReplay rs])"
proof (cases "replayEntry v (row_msg r)")
  case None
  then have "contract (Registered (row_seq r) '''' 0) (TReplay (r # rs)) e e' (ts @ [TReplay rs])"
    using assms by (auto simp: replay_row_def contract_simps)
  then show ?thesis by blast
next
  case (Some p)
  then have "contract Quiet (TReplay (r # rs)) e e' (ts @ [TReplay rs])"
    using assms by (cases p) (auto simp: replay_row_def contract_simps)
  then show ?thesis by blast
qed

lemma abandon_contract:
  "abandon_scan v orc after reason e = Next e' new \<Longrightarrow> contract Quiet (TAbandonScan after reason) e e' new"
  "abandon_one v orc q msg reason e = Next e' new \<Longrightarrow> contract Quiet (TAbandonOne q msg reason) e e' new"
  by (auto simp: abandon_scan_def abandon_one_def contract_simps split: if_splits prod.splits)

lemma abandon_write_contract:
  assumes "abandon_write orc q dl e = Next e' new"
  shows "contract Quiet (TAbandonWrite q dl) e e' new"
proof -
  obtain e1 ok where w: "write_dead_letter orc dl e = (e1, ok)" by fastforce
  show ?thesis using assms write_dead_letter_frame [OF w]
    by (cases ok) (auto simp: abandon_write_def w contract_def Let_def split: if_splits)
qed

lemma abandon_clear_contract:
  assumes "abandon_clear q e = Next e' new"
  shows "contract (Forced q) (TAbandonClear q) e e' new"
proof -
  obtain t cb cleared where f: "forceTerminal q (e_commit e) = (t, cb, cleared)" by (rule prod_cases3)
  have "e' = e\<lparr>e_commit := t, e_abandoned := e_abandoned e + 1,
      e_log := (if cleared then [(q, Abandoned)] else []) @ e_log e\<rparr>"
    "new = hooks cb @ (if cleared then [TRelease q] else [])"
    using assms f by (simp_all add: abandon_clear_def)
  then show ?thesis using f by (simp add: contract_def Let_def env_toks_def logged_def)
qed

lemma exec_contract:
  assumes "exec v orc t e = Next e' new"
  shows "\<exists>x. contract x t e e' new"
proof (cases t)
  case (TReplay rows)
  show ?thesis
  proof (cases rows)
    case Nil
    with TReplay assms have "contract Quiet t e e' new" by (auto intro!: contract_Quiet)
    then show ?thesis by blast
  next
    case (Cons r rs)
    obtain e1 ts where "replay_row v r e = (e1, ts)" by fastforce
    with TReplay Cons assms replay_row_contract [OF this] show ?thesis by auto
  qed
next
  case (TPersist thru fr)
  then have "contract Quiet t e e' new" using assms by (auto simp: contract_def Let_def)
  then show ?thesis by blast
next
  case (TOnCommit q)
  then have "contract Quiet t e e' new" using assms by (auto simp: contract_def Let_def)
  then show ?thesis by blast
next
  case (TRelease q)
  then have "contract Quiet t e e' new" using assms by (auto simp: contract_def Let_def)
  then show ?thesis by blast
next
  case (TAbandonNext a b c d)
  then have "contract Quiet t e e' new" using assms by (auto simp: contract_def Let_def split: if_splits)
  then show ?thesis by blast
next
  case TAdmitEnd
  then have "contract Quiet t e e' new" using assms by (auto simp: contract_simps)
  then show ?thesis by blast
next
  case TReplayDone
  then have "contract Quiet t e e' new" using assms by (auto simp: contract_simps)
  then show ?thesis by blast
next
  case (TRegister req q msg ingest)
  then show ?thesis using assms register_contract [of req q msg ingest e e' new] by auto
next
  case (TDispatch a b c d)
  then show ?thesis using assms dispatch_contract [of v a b c d e e' new] by auto
next
  case (TDone q why)
  then show ?thesis using assms done_contract [of q why e e' new] by auto
next
  case (TAbandonClear q)
  then show ?thesis using assms abandon_clear_contract [of q e e' new] by auto
next
  case (TFanOut n q m)
  then show ?thesis using assms fanOut_contract [of v n q m e e' new] by auto
next
  case (TApply n i)
  then show ?thesis using assms transform_contract [of v orc n i e e' new] by auto
next
  case (TAppend req)
  then show ?thesis using assms append_contract [of v orc req e e' new] by auto
qed (use assms gate_contract [of v orc _ e e' new] deliver_contract [of v orc _ _ _ e e' new]
      sinkWrite_contract [of v orc _ _ e e' new] deadLetterMsg_contract [of orc _ _ e e' new]
      abandon_contract(1) [of v orc _ _ e e' new] abandon_contract(2) [of v orc _ _ _ e e' new]
      abandon_write_contract [of orc _ _ e e' new] in \<open>simp; blast\<close>)+

section \<open>The shape of a goroutine\<close>

text \<open>What an early return forgets: the deferred decrement and the end of the replay scan, which the
  return itself re-issues, and nothing that holds a branch, a slot or a callback.\<close>

fun admit_ends :: "task list \<Rightarrow> int" where
  "admit_ends [] = 0"
| "admit_ends (t # ts) = (if t = TAdmitEnd then 1 else 0) + admit_ends ts"

fun is_replay :: "task \<Rightarrow> bool" where
  "is_replay (TReplay _) = True"
| "is_replay TReplayDone = True"
| "is_replay _ = False"

fun replay_marks :: "task list \<Rightarrow> int" where
  "replay_marks [] = 0"
| "replay_marks (t # ts) = (if is_replay t then 1 else 0) + replay_marks ts"

fun task_slots :: "task \<Rightarrow> int" where
  "task_slots (TAppend _) = 1"
| "task_slots (TRegister _ _ _ _) = 1"
| "task_slots _ = 0"

fun slots :: "task list \<Rightarrow> int" where
  "slots [] = 0"
| "slots (t # ts) = task_slots t + slots ts"

fun is_release :: "task \<Rightarrow> bool" where
  "is_release (TRelease _) = True"
| "is_release _ = False"

definition quiet_task :: "task \<Rightarrow> bool" where
  "quiet_task u \<longleftrightarrow> task_seqs u = [] \<and> task_hook u = [] \<and> task_slots u = 0 \<and> \<not> is_release u"

text \<open>For the actions that may return: how many deferred decrements and replay marks follow.\<close>

fun tail_spec :: "task \<Rightarrow> (int \<times> int) option" where
  "tail_spec (TGate req) = Some (1, if ar_mode req = AdmitReplay then 1 else 0)"
| "tail_spec (TAppend req) = Some (1, if ar_mode req = AdmitReplay then 1 else 0)"
| "tail_spec (TReplay _) = Some (0, 0)"
| "tail_spec (TAbandonScan _ _) = Some (0, 0)"
| "tail_spec (TAbandonNext _ _ _ _) = Some (0, 0)"
| "tail_spec (TAbandonOne _ _ _) = Some (0, 0)"
| "tail_spec (TAbandonWrite _ _) = Some (0, 0)"
| "tail_spec _ = None"

fun is_register :: "task \<Rightarrow> bool" where
  "is_register (TRegister _ _ _ _) = True"
| "is_register _ = False"

fun go_ok :: "task list \<Rightarrow> bool" where
  "go_ok [] = True"
| "go_ok (t # ts) = (go_ok ts \<and>
     (case tail_spec t of None \<Rightarrow> True
      | Some (a, r) \<Rightarrow> list_all quiet_task ts \<and> admit_ends ts = a \<and> replay_marks ts = r) \<and>
     (is_register t \<longrightarrow> 0 < admit_ends ts))"

lemma counts_append [simp]:
  "admit_ends (ts @ us) = admit_ends ts + admit_ends us"
  "replay_marks (ts @ us) = replay_marks ts + replay_marks us"
  "slots (ts @ us) = slots ts + slots us"
  by (induction ts) auto

lemma counts_nonneg: "0 \<le> admit_ends ts" "0 \<le> replay_marks ts" "0 \<le> slots ts"
proof -
  show "0 \<le> admit_ends ts" "0 \<le> replay_marks ts" by (induction ts) auto
  have "0 \<le> task_slots t" for t by (cases t) auto
  then show "0 \<le> slots ts" by (induction ts) (auto simp: add_nonneg_nonneg)
qed

text \<open>Actions after which nothing is asked of the rest, that are no marks and hold no slot.\<close>

definition plain :: "task \<Rightarrow> bool" where
  "plain t \<longleftrightarrow> tail_spec t = None \<and> \<not> is_register t \<and> t \<noteq> TAdmitEnd \<and> \<not> is_replay t \<and> task_slots t = 0"

lemma plain_simps [simp]: "plain (TFanOut a b c)" "plain (TDeliver g q m)" "plain (TDone q w)"
  "plain (TDeadLetter q dl)" "plain (TWrite n is)" "plain (TOnCommit q)" "plain (TPersist thru fr)"
  "plain (TRelease q)" "plain (TAbandonClear q)" "plain (TApply n i)" "plain (TDispatch into n q m)"
  by (simp_all add: plain_def)

lemma plain_list:
  assumes "list_all plain ts"
  shows "go_ok (ts @ us) = go_ok us" "admit_ends ts = 0" "replay_marks ts = 0" "slots ts = 0"
  using assms by (induction ts) (auto simp: plain_def)

lemma plain_hooks: "list_all plain (hooks cb)"
  by (auto simp: hooks_def list_all_iff split: option.splits)

lemmas plain_hooksD [simp] = plain_hooks [unfolded list_all_iff, rule_format]

lemma plain_encode: "encode_batch v enc nd is = (dls, ready) \<Longrightarrow> list_all plain dls"
proof (induction "is" arbitrary: dls ready)
  case (Cons i js)
  obtain d1 r1 where rec: "encode_batch v enc nd js = (d1, r1)" by fastforce
  from Cons.IH [OF rec] Cons.prems show ?case
    by (auto simp: rec Let_def plain_def split: sum.splits option.splits if_splits)
qed simp

lemma plain_writeBatch: "writeBatch v n is e = (e', ts) \<Longrightarrow> list_all plain ts"
  by (auto simp: writeBatch_def plain_def list_all_iff
      dest!: plain_encode split: option.splits sum.splits prod.splits if_splits)

lemma plain_give_up: "list_all plain (map snd (map (give_up_write v n err) is))"
  by (induction "is") (auto simp: give_up_write_def plain_def Let_def split: option.splits)

lemma exec_plain:
  assumes "exec v orc t e = Next e' new" and "plain t"
  shows "list_all plain new \<and> e_admitting e' = e_admitting e \<and> e_replayDone e' = e_replayDone e"
proof -
  have codec: "e_admitting e1 = e_admitting e \<and> e_replayDone e1 = e_replayDone e"
    if "engine_codec v name e = (e1, r)" for name e1 r
    using that by (auto simp: engine_codec_def split: option.splits sum.splits)
  have dlw: "e_admitting e1 = e_admitting e \<and> e_replayDone e1 = e_replayDone e"
    if "write_dead_letter orc dl e = (e1, b)" for dl e1 b
    using that by (auto simp: write_dead_letter_def bump_def split: if_splits)
  show ?thesis
  proof (cases t)
    case (TDispatch into node q msg)
    then show ?thesis using assms
      by (auto simp: dispatch_def bump_def Let_def split: prod.splits sum.splits if_splits dest!: codec)
  next
    case (TFanOut node q msg)
    then show ?thesis using assms
      by (auto simp: fanOut_def commit_add_def Let_def bump_def list_all_iff split: prod.splits if_splits)
  next
    case (TApply node i)
    then have pt: "processTransform v orc node i e = Next e' new" using assms(1) by simp
    have out: "list_all plain (map (TFanOut node q) outs)" for q outs by (simp add: list_all_iff plain_def)
    obtain retries backoff where d: "deliveryOf (in_via i) = (retries, backoff)" by fastforce
    obtain res n where r: "retry_loop (or_apply orc) (halts orc (bump mt_TransformRuns_update 1 e)) retries = (res, n)"
      by fastforce
    have b: "e_admitting (bump f k x) = e_admitting x" "e_replayDone (bump f k x) = e_replayDone x" for f k x
      by (simp_all add: bump_def)
    show ?thesis using pt out unfolding processTransform_def d r Let_def prod.case
      by (cases res) (auto simp: b commit_add_def list_all_iff split: option.splits if_splits prod.splits)
  next
    case (TWrite node ready)
    then have sw: "sinkWrite v orc node ready e = Next e' new" using assms(1) by simp
    obtain res n where r: "retry_loop (or_write orc (batch_timeout (o_DefaultTimeout (ev_opts v)) ready)
        (map in_msg ready)) (halts orc e) (batch_retries ready) = (res, n)" by fastforce
    have b: "e_admitting (bump f k x) = e_admitting x" "e_replayDone (bump f k x) = e_replayDone x" for f k x
      by (simp_all add: bump_def)
    show ?thesis using sw plain_give_up unfolding sinkWrite_def Let_def r prod.case
      by (cases res) (auto simp: b list_all_iff simp del: map_map)
  next
    case (TDone q why)
    then show ?thesis using assms by (auto simp: commit_done_def list_all_iff split: prod.splits)
  next
    case (TDeadLetter q dl)
    then show ?thesis using assms
      by (auto simp: deadLetterMsg_def split: prod.splits if_splits bool.splits dest!: dlw)
  next
    case (TAbandonClear q)
    then show ?thesis using assms
      by (auto simp: abandon_clear_def list_all_iff split: prod.splits if_splits)
  next
    case (TPersist thru fr)
    then show ?thesis using assms by auto
  qed (use assms in \<open>auto simp: plain_def deliver_def onCommit_def takeAccepted_def bump_def release_def
        split: if_splits\<close>)
qed

lemma go_ok_abandon: "go_ok (map (\<lambda>(q, m). TAbandonOne q m r) found @ us)
    \<longleftrightarrow> go_ok us \<and> (found = [] \<or> list_all quiet_task us \<and> admit_ends us = 0 \<and> replay_marks us = 0)"
  "admit_ends (map (\<lambda>(q, m). TAbandonOne q m r) found) = 0"
  "replay_marks (map (\<lambda>(q, m). TAbandonOne q m r) found) = 0"
proof -
  show 1: "admit_ends (map (\<lambda>(q, m). TAbandonOne q m r) found) = 0"
    "replay_marks (map (\<lambda>(q, m). TAbandonOne q m r) found) = 0"
    by (induction found) auto
  have 2: "list_all quiet_task (map (\<lambda>(q, m). TAbandonOne q m r) xs)"
    "admit_ends (map (\<lambda>(q, m). TAbandonOne q m r) xs) = 0"
    "replay_marks (map (\<lambda>(q, m). TAbandonOne q m r) xs) = 0" for xs
    by (induction xs) (auto simp: quiet_task_def)
  show "go_ok (map (\<lambda>(q, m). TAbandonOne q m r) found @ us)
    \<longleftrightarrow> go_ok us \<and> (found = [] \<or> list_all quiet_task us \<and> admit_ends us = 0 \<and> replay_marks us = 0)"
    by (induction found) (auto simp: 2 simp del: split_paired_All)
qed

lemma exec_shape:
  assumes "exec v orc t e = Next e' new" and "go_ok (t # ts)"
  shows "go_ok (new @ ts)"
    and "e_admitting e' - admit_ends new = e_admitting e - admit_ends [t]"
    and "e_replayDone e' = (e_replayDone e \<or> t = TReplayDone)"
    and "replay_marks new = (if t = TReplayDone then 0 else replay_marks [t])"
proof -
  have "go_ok (new @ ts) \<and> e_admitting e' - admit_ends new = e_admitting e - admit_ends [t]
    \<and> e_replayDone e' = (e_replayDone e \<or> t = TReplayDone)
    \<and> replay_marks new = (if t = TReplayDone then 0 else replay_marks [t])"
  proof (cases "plain t")
    case True
    then show ?thesis
      using exec_plain [OF assms(1) True] plain_list(1) [of new ts] plain_list(2-4) [of new] assms(2) by (auto simp: plain_def)
  next
    case False
    note q = quiet_task_def
    have dlw: "e_admitting e1 = e_admitting e \<and> e_replayDone e1 = e_replayDone e"
      if "write_dead_letter orc dl e = (e1, b)" for dl e1 b
      using that by (auto simp: write_dead_letter_def bump_def split: if_splits)
    show ?thesis
    proof (cases t)
      case (TGate req)
      then show ?thesis using assms by (auto simp: admit_gate_def split: if_splits)
    next
      case (TAppend req)
      then show ?thesis using assms
        by (auto simp: admit_append_def Let_def bump_def split: if_splits prod.splits sum.splits)
    next
      case (TRegister req qq msg ingest)
      then show ?thesis using assms by (auto simp: admit_register_def Let_def split: if_splits)
    next
      case (TReplay rows)
      then show ?thesis using assms
        by (cases rows) (auto simp: replay_row_def q split: option.splits)
    next
      case (TAbandonScan after reason)
      then show ?thesis using assms
        by (auto simp: abandon_scan_def go_ok_abandon q split: if_splits prod.splits)
    next
      case (TAbandonOne qq msg reason)
      then show ?thesis using assms by (auto simp: abandon_one_def split: if_splits)
    next
      case (TAbandonWrite qq dl)
      then show ?thesis using assms
        by (auto simp: abandon_write_def split: prod.splits if_splits bool.splits dest!: dlw)
    qed (use assms False in \<open>auto simp: plain_def q split: if_splits\<close>)
  qed
  then show "go_ok (new @ ts)" "e_admitting e' - admit_ends new = e_admitting e - admit_ends [t]"
    "e_replayDone e' = (e_replayDone e \<or> t = TReplayDone)"
    "replay_marks new = (if t = TReplayDone then 0 else replay_marks [t])" by blast+
qed

text \<open>An early return: what is forgotten holds nothing, and the marks are re-issued.\<close>

lemma no_return:
  assumes "exec v orc t e = Return e' new"
  shows "(\<exists>req. t = TGate req) \<or> (\<exists>req. t = TAppend req) \<or> (\<exists>a r. t = TAbandonScan a r)
    \<or> (\<exists>q m r. t = TAbandonOne q m r) \<or> (\<exists>q dl. t = TAbandonWrite q dl)"
proof (cases t)
  case (TDispatch into node q msg)
  then show ?thesis using assms by (auto simp: dispatch_def Let_def split: prod.splits sum.splits if_splits)
next
  case (TFanOut node q msg)
  then show ?thesis using assms by (auto simp: fanOut_def Let_def split: prod.splits if_splits)
next
  case (TApply node i)
  then have pt: "processTransform v orc node i e = Return e' new" using assms(1) by simp
  obtain retries backoff where d: "deliveryOf (in_via i) = (retries, backoff)" by fastforce
  obtain res n where r: "retry_loop (or_apply orc) (halts orc (bump mt_TransformRuns_update 1 e)) retries = (res, n)"
    by fastforce
  show ?thesis using pt unfolding processTransform_def d r Let_def prod.case
    by (cases res) (auto split: option.splits if_splits prod.splits)
next
  case (TWrite node ready)
  then have sw: "sinkWrite v orc node ready e = Return e' new" using assms(1) by simp
  obtain res n where r: "retry_loop (or_write orc (batch_timeout (o_DefaultTimeout (ev_opts v)) ready)
      (map in_msg ready)) (halts orc e) (batch_retries ready) = (res, n)" by fastforce
  show ?thesis using sw unfolding sinkWrite_def Let_def r prod.case by (cases res) auto
next
  case (TReplay rows)
  then show ?thesis using assms by (cases rows) (auto split: prod.splits)
next
  case (TAbandonClear q)
  obtain t cb cleared where "forceTerminal q (e_commit e) = (t, cb, cleared)" by (rule prod_cases3)
  then show ?thesis using assms TAbandonClear by (simp add: abandon_clear_def)
qed (use assms in \<open>auto simp: deliver_def deadLetterMsg_def commit_done_def admit_register_def Let_def
      split: prod.splits if_splits bool.splits\<close>)

lemma exec_return:
  assumes "exec v orc t e = Return e' new" and "go_ok (t # ts)"
  shows "list_all quiet_task ts" "list_all quiet_task new" "task_seqs t = []" "task_hook t = []" "\<not> is_release t"
    and "go_ok new" "pend new = {#}" "admit_ends new = admit_ends (t # ts)" "replay_marks new = replay_marks (t # ts)"
    and "e_admitting e' = e_admitting e" "e_replayDone e' = e_replayDone e" "e_scanned e' = e_scanned e"
    and "e_commit e' = e_commit e" "env_toks e' = env_toks e" "e_log e' = e_log e"
    and "e_store e' = e_store e" "e_acquired e' = e_acquired e" "e_gate e' = e_gate e - task_slots t"
    and "e_persistedThrough e' = e_persistedThrough e" "slots new = 0" "e_gos e' = e_gos e"
proof -
  let ?frame = "e_admitting e' = e_admitting e \<and> e_replayDone e' = e_replayDone e \<and> e_scanned e' = e_scanned e
    \<and> e_commit e' = e_commit e \<and> env_toks e' = env_toks e \<and> e_log e' = e_log e
    \<and> e_store e' = e_store e \<and> e_acquired e' = e_acquired e \<and> e_gate e' = e_gate e - task_slots t
    \<and> e_persistedThrough e' = e_persistedThrough e \<and> e_gos e' = e_gos e"
  have all: "list_all quiet_task ts \<and> list_all quiet_task new \<and> task_seqs t = [] \<and> task_hook t = [] \<and> \<not> is_release t
    \<and> go_ok new \<and> pend new = {#} \<and> admit_ends new = admit_ends (t # ts) \<and> replay_marks new = replay_marks (t # ts)
    \<and> slots new = 0 \<and> ?frame"
    using no_return [OF assms(1)]
  proof (elim disjE exE)
    fix req assume "t = TGate req"
    then show ?thesis using assms
      by (auto simp: admit_gate_def quiet_task_def bump_def env_toks_def logged_def split: if_splits)
  next
    fix req assume "t = TAppend req"
    then show ?thesis using assms
      by (auto simp: admit_append_def quiet_task_def bump_def Let_def env_toks_def logged_def split: if_splits prod.splits sum.splits)
  next
    fix a r assume "t = TAbandonScan a r"
    then show ?thesis using assms by (auto simp: abandon_scan_def split: if_splits prod.splits)
  next
    fix q m r assume "t = TAbandonOne q m r"
    then show ?thesis using assms by (auto simp: abandon_one_def split: if_splits)
  next
    fix q dl assume t: "t = TAbandonWrite q dl"
    obtain e1 ok where w: "write_dead_letter orc dl e = (e1, ok)" by fastforce
    with t assms(1) have "\<not> ok" "e' = e1" "new = []" by (auto simp: abandon_write_def split: if_splits bool.splits)
    with w have "e' = bump mt_DlqFailures_update 1 e" by (auto simp: write_dead_letter_def split: if_splits)
    with t assms(2) \<open>new = []\<close> show ?thesis by (auto simp: bump_def env_toks_def logged_def)
  qed
  then show "list_all quiet_task ts" "list_all quiet_task new" "task_seqs t = []" "task_hook t = []" "\<not> is_release t"
    "go_ok new" "pend new = {#}" "admit_ends new = admit_ends (t # ts)" "replay_marks new = replay_marks (t # ts)"
    "e_admitting e' = e_admitting e" "e_replayDone e' = e_replayDone e" "e_scanned e' = e_scanned e"
    "e_commit e' = e_commit e" "env_toks e' = env_toks e" "e_log e' = e_log e"
    "e_store e' = e_store e" "e_acquired e' = e_acquired e" "e_gate e' = e_gate e - task_slots t"
    "e_persistedThrough e' = e_persistedThrough e" "slots new = 0" "e_gos e' = e_gos e" by blast+
qed

end
