(* ===== verification/EngineInv.thy ===== *)
theory EngineInv
  imports EngineSpec
begin

text \<open>
  The invariant of the running engine, over the books of \<open>EngineSpec\<close>: the branch accounts, the
  callbacks under way, the durable checkpoint with the spool rows above it, and the admission
  slots. Every step of the engine keeps it, so it holds in every reachable state; the properties at
  the end read it off.
\<close>

section \<open>What an action does to the store and to the slots\<close>

definition stored_seqs :: "string \<Rightarrow> memStore \<Rightarrow> seq set" where
  "stored_seqs p st = set (map row_seq (filter (\<lambda>r. row_pipeline r = p) (ms_spool st)))"

definition same_store :: "engine \<Rightarrow> engine \<Rightarrow> bool" where
  "same_store e e' \<longleftrightarrow> e_store e' = e_store e \<and> e_persistedThrough e' = e_persistedThrough e"

definition same_slots :: "engine \<Rightarrow> engine \<Rightarrow> bool" where
  "same_slots e e' \<longleftrightarrow> e_gate e' = e_gate e \<and> e_acquired e' = e_acquired e"

lemma same_refl [simp]: "same_store e e" "same_slots e e"
  by (simp_all add: same_store_def same_slots_def)

lemma same_bump [simp]: "same_store e (bump f k e') = same_store e e'" "same_slots e (bump f k e') = same_slots e e'"
  by (simp_all add: same_store_def same_slots_def bump_def)

lemma same_upd [simp]:
  "same_store e (e'\<lparr>e_commit := t\<rparr>) = same_store e e'" "same_slots e (e'\<lparr>e_commit := t\<rparr>) = same_slots e e'"
  "same_store e (e'\<lparr>e_log := l\<rparr>) = same_store e e'" "same_slots e (e'\<lparr>e_log := l\<rparr>) = same_slots e e'"
  "same_store e (e'\<lparr>e_dropped := d\<rparr>) = same_store e e'" "same_slots e (e'\<lparr>e_dropped := d\<rparr>) = same_slots e e'"
  "same_store e (e'\<lparr>e_queued := u\<rparr>) = same_store e e'" "same_slots e (e'\<lparr>e_queued := u\<rparr>) = same_slots e e'"
  "same_store e (e'\<lparr>e_batched := u\<rparr>) = same_store e e'" "same_slots e (e'\<lparr>e_batched := u\<rparr>) = same_slots e e'"
  "same_store e (e'\<lparr>e_codecs := c\<rparr>) = same_store e e'" "same_slots e (e'\<lparr>e_codecs := c\<rparr>) = same_slots e e'"
  "same_store e (e'\<lparr>e_admitting := a\<rparr>) = same_store e e'" "same_slots e (e'\<lparr>e_admitting := a\<rparr>) = same_slots e e'"
  "same_store e (e'\<lparr>e_replayDone := b\<rparr>) = same_store e e'" "same_slots e (e'\<lparr>e_replayDone := b\<rparr>) = same_slots e e'"
  "same_store e (e'\<lparr>e_abandoned := k\<rparr>) = same_store e e'" "same_slots e (e'\<lparr>e_abandoned := k\<rparr>) = same_slots e e'"
  "same_store e (e'\<lparr>e_gate := k\<rparr>) = same_store e e'" "same_store e (e'\<lparr>e_acquired := q\<rparr>) = same_store e e'"
  "same_store e (e'\<lparr>e_acceptedAt := m\<rparr>) = same_store e e'"
  "same_slots e (e'\<lparr>e_acceptedAt := m\<rparr>) = same_slots e e'"
  "same_slots e (e'\<lparr>e_store := st\<rparr>) = same_slots e e'"
  by (simp_all add: same_store_def same_slots_def)

lemma codec_same: "engine_codec v name e = (e1, r) \<Longrightarrow> same_store e e1 \<and> same_slots e e1"
  by (auto simp: engine_codec_def split: option.splits sum.splits)

lemma dead_letter_slots: "write_dead_letter orc dl e = (e1, b) \<Longrightarrow> same_slots e e1"
  by (auto simp: write_dead_letter_def split: if_splits)

fun touches_store :: "task \<Rightarrow> bool" where
  "touches_store (TAppend _) = True"
| "touches_store (TDeadLetter _ _) = True"
| "touches_store (TAbandonWrite _ _) = True"
| "touches_store (TPersist _ _) = True"
| "touches_store _ = False"

fun touches_slots :: "task \<Rightarrow> bool" where
  "touches_slots (TGate _) = True"
| "touches_slots (TRegister _ _ _ _) = True"
| "touches_slots (TOnCommit _) = True"
| "touches_slots (TRelease _) = True"
| "touches_slots _ = False"

lemma exec_same:
  assumes "exec v orc t e = Next e' new"
  shows "\<not> touches_store t \<Longrightarrow> same_store e e'" and "\<not> touches_slots t \<Longrightarrow> same_slots e e'"
proof -
  have "(\<not> touches_store t \<longrightarrow> same_store e e') \<and> (\<not> touches_slots t \<longrightarrow> same_slots e e')"
  proof (cases t)
    case (TGate req)
    then show ?thesis using assms by (auto simp: admit_gate_def split: if_splits)
  next
    case (TAppend req)
    then show ?thesis using assms
      by (auto simp: admit_append_def Let_def same_slots_def bump_def split: if_splits prod.splits sum.splits)
  next
    case (TRegister req q msg ingest)
    then show ?thesis using assms by (auto simp: admit_register_def Let_def split: if_splits)
  next
    case (TDispatch into node q msg)
    then show ?thesis using assms
      by (auto simp: dispatch_def Let_def split: prod.splits sum.splits if_splits dest!: codec_same)
  next
    case (TFanOut node q msg)
    then show ?thesis using assms
      by (auto simp: fanOut_def commit_add_def Let_def split: prod.splits if_splits)
  next
    case (TApply node i)
    then have pt: "processTransform v orc node i e = Next e' new" using assms(1) by simp
    obtain retries backoff where d: "deliveryOf (in_via i) = (retries, backoff)" by fastforce
    obtain res n where r: "retry_loop (or_apply orc) (halts orc (bump mt_TransformRuns_update 1 e)) retries = (res, n)"
      by fastforce
    show ?thesis using pt unfolding processTransform_def d r Let_def prod.case
      by (cases res) (auto simp: commit_add_def split: option.splits if_splits prod.splits)
  next
    case (TWrite node ready)
    then have sw: "sinkWrite v orc node ready e = Next e' new" using assms(1) by simp
    obtain res n where r: "retry_loop (or_write orc (batch_timeout (o_DefaultTimeout (ev_opts v)) ready)
        (map in_msg ready)) (halts orc e) (batch_retries ready) = (res, n)" by fastforce
    show ?thesis using sw unfolding sinkWrite_def Let_def r prod.case by (cases res) auto
  next
    case (TDeadLetter q dl)
    then show ?thesis using assms
      by (auto simp: deadLetterMsg_def split: prod.splits if_splits bool.splits dest!: dead_letter_slots)
  next
    case (TAbandonWrite q dl)
    then show ?thesis using assms
      by (auto simp: abandon_write_def split: prod.splits if_splits bool.splits dest!: dead_letter_slots)
  next
    case (TReplay rows)
    then show ?thesis using assms by (cases rows) (auto simp: replay_row_def split: option.splits)
  next
    case (TAbandonClear q)
    obtain t1 cb cleared where "forceTerminal q (e_commit e) = (t1, cb, cleared)" by (rule prod_cases3)
    then show ?thesis using assms TAbandonClear by (auto simp: abandon_clear_def)
  next
    case (TPersist thru fr)
    then show ?thesis using assms by (auto simp: same_slots_def)
  next
    case (TOnCommit q)
    then show ?thesis using assms
      by (auto simp: onCommit_def takeAccepted_def release_def split: if_splits)
  next
    case (TRelease q)
    then show ?thesis using assms by (auto simp: release_def split: if_splits)
  qed (use assms in \<open>auto simp: deliver_def commit_done_def abandon_scan_def abandon_one_def
        split: if_splits prod.splits\<close>)
  then show "\<not> touches_store t \<Longrightarrow> same_store e e'" "\<not> touches_slots t \<Longrightarrow> same_slots e e'" by blast+
qed

text \<open>The store calls other than the checkpoint and its trims keep the rows and the checkpoint.\<close>

lemma stored_append:
  assumes "AppendSpool p m ts s = (s', Inr q)"
  shows "stored_seqs p s' = insert q (stored_seqs p s)" "Checkpoint p s' = Checkpoint p s" "q = ms_nextSeq s + 1"
proof -
  from assms have q: "q = ms_nextSeq s + 1" and s': "s' = s\<lparr>ms_nextSeq := ms_nextSeq s + 1,
      ms_spool := ms_spool s @ [\<lparr>row_seq = ms_nextSeq s + 1, row_pipeline = p, row_msg = m, row_ingestTime = ts\<rparr>]\<rparr>"
    by (auto simp: AppendSpool_def Let_def split: if_splits)
  show "stored_seqs p s' = insert q (stored_seqs p s)" "Checkpoint p s' = Checkpoint p s" "q = ms_nextSeq s + 1"
    unfolding q s' by (simp_all add: stored_seqs_def Checkpoint_def del: set_filter)
qed

lemma stored_dead_letter [simp]:
  "stored_seqs p (WriteDeadLetter now dl s) = stored_seqs p s" "Checkpoint p (WriteDeadLetter now dl s) = Checkpoint p s"
  by (simp_all add: WriteDeadLetter_def stored_seqs_def Checkpoint_def Let_def)

lemma dead_letter_store:
  assumes "write_dead_letter orc dl e = (e1, b)"
  shows "mem_inv (e_store e) \<Longrightarrow> mem_inv (e_store e1)" "stored_seqs p (e_store e1) = stored_seqs p (e_store e)"
    "Checkpoint p (e_store e1) = Checkpoint p (e_store e)" "e_persistedThrough e1 = e_persistedThrough e"
  using assms by (auto simp: write_dead_letter_def bump_def mem_inv_WriteDeadLetter split: if_splits)

lemma exec_store:
  assumes "exec v orc t e = Next e' new" and "mem_inv (e_store e)" and "\<And>thru fr. t \<noteq> TPersist thru fr"
  shows "mem_inv (e_store e')" "Checkpoint (ev_name v) (e_store e') = Checkpoint (ev_name v) (e_store e)"
    "e_persistedThrough e' = e_persistedThrough e"
    "stored_seqs (ev_name v) (e_store e) \<subseteq> stored_seqs (ev_name v) (e_store e')"
    "\<And>q. q \<in># pend new \<Longrightarrow> q \<in># pend [t] \<or> q \<in> stored_seqs (ev_name v) (e_store e')"
proof -
  let ?p = "ev_name v"
  have "mem_inv (e_store e') \<and> Checkpoint ?p (e_store e') = Checkpoint ?p (e_store e)
    \<and> e_persistedThrough e' = e_persistedThrough e \<and> stored_seqs ?p (e_store e) \<subseteq> stored_seqs ?p (e_store e')
    \<and> (\<forall>q. q \<in># pend new \<longrightarrow> q \<in># pend [t] \<or> q \<in> stored_seqs ?p (e_store e'))"
  proof (cases "touches_store t")
    case False
    then have same: "same_store e e'" by (rule exec_same [OF assms(1)])
    obtain x where x: "contract x t e e' new" using exec_contract [OF assms(1)] by blast
    have "ms_nextSeq (e_store e') = ms_nextSeq (e_store e)" using same by (simp add: same_store_def)
    with x have "pend new \<subseteq># pend [t]" by (auto simp: contract_def Let_def split: effect.splits)
    then show ?thesis using same assms(2) by (auto simp: same_store_def dest: mset_subset_eqD)
  next
    case True
    then show ?thesis
    proof (cases t)
      case (TAppend req)
      show ?thesis
      proof (cases "ar_mode req = AdmitReplay \<or> (\<exists>err. or_err orc = Some err)")
        case True
        then show ?thesis using TAppend assms(1,2)
          by (auto simp: admit_append_def Let_def split: if_splits prod.splits)
      next
        case False
        obtain msg ingest where s: "stamp v orc req = (msg, ingest)" by fastforce
        obtain st r where a: "AppendSpool ?p msg ingest (e_store e) = (st, r)" by fastforce
        obtain q where q: "r = Inr q" using TAppend assms(1) False s a
          by (cases r) (auto simp: admit_append_def Let_def)
        have "mem_inv st" using mem_inv_AppendSpool [OF assms(2), of ?p msg ingest] a by simp
        then show ?thesis using TAppend assms(1) False s a q stored_append [of ?p msg ingest "e_store e" st q]
          by (auto simp: admit_append_def Let_def bump_def split: if_splits)
      qed
    next
      case (TDeadLetter q dl)
      obtain e1 ok where w: "write_dead_letter orc dl e = (e1, ok)" by fastforce
      show ?thesis using TDeadLetter assms(1,2) w dead_letter_store [OF w]
        by (cases ok) (auto simp: deadLetterMsg_def split: if_splits)
    next
      case (TAbandonWrite q dl)
      obtain e1 ok where w: "write_dead_letter orc dl e = (e1, ok)" by fastforce
      show ?thesis using TAbandonWrite assms(1,2) w dead_letter_store [OF w]
        by (cases ok) (auto simp: abandon_write_def split: if_splits)
    qed (use assms(3) in auto)
  qed
  then show "mem_inv (e_store e')" "Checkpoint ?p (e_store e') = Checkpoint ?p (e_store e)"
    "e_persistedThrough e' = e_persistedThrough e" "stored_seqs ?p (e_store e) \<subseteq> stored_seqs ?p (e_store e')"
    "\<And>q. q \<in># pend new \<Longrightarrow> q \<in># pend [t] \<or> q \<in> stored_seqs ?p (e_store e')" by blast+
qed

section \<open>The callbacks under way\<close>

fun hook_ok :: "commitTracker \<Rightarrow> prefix_spec \<Rightarrow> task \<Rightarrow> bool" where
  "hook_ok t s (TPersist thru fr) = (thru \<le> committedThrough t)"
| "hook_ok t s (TOnCommit q) = (q \<in> reported t s)"
| "hook_ok t s (TRelease q) = (q \<in> sp_forced s)"
| "hook_ok t s u = True"

lemma hook_ok_tasks: "(\<forall>u\<in>set (hook_tasks ts). hook_ok t s u) \<longleftrightarrow> (\<forall>u\<in>set ts. hook_ok t s u)"
proof -
  have "(\<forall>u\<in>set (task_hook x). hook_ok t s u) \<longleftrightarrow> hook_ok t s x" for x by (cases x) auto
  then show ?thesis by (auto simp: hook_tasks_def)
qed

lemma in_hook_tasks: "TOnCommit q \<in> set (hook_tasks ts) \<longleftrightarrow> TOnCommit q \<in> set ts"
  "TRelease q \<in> set (hook_tasks ts) \<longleftrightarrow> TRelease q \<in> set ts"
proof -
  have "TOnCommit q \<in> set (task_hook x) \<longleftrightarrow> x = TOnCommit q" "TRelease q \<in> set (task_hook x) \<longleftrightarrow> x = TRelease q" for x
    by (cases x; auto)+
  then show "TOnCommit q \<in> set (hook_tasks ts) \<longleftrightarrow> TOnCommit q \<in> set ts"
    "TRelease q \<in> set (hook_tasks ts) \<longleftrightarrow> TRelease q \<in> set ts"
    by (auto simp: hook_tasks_def)
qed

lemma advance_thru:
  assumes "ct_step x t = (t', cb)" and "cb_advance cb = Some (thru, fr)"
  shows "thru \<le> committedThrough t'"
proof (cases x)
  case (Add q d)
  with assms(1) have "add_delta q d t = (t', cb)" by simp
  then show ?thesis
  proof (cases rule: add_delta_cases)
    case (normal b js adv)
    then show ?thesis using assms(2) advanceLocked_spec(10) [OF normal(2)] by (auto simp: invoke_def split: if_splits)
  next
    case (straggler b u js adv fr' sw)
    then show ?thesis using assms(2) sweepSrcRefsLocked_frame(4) [OF straggler(5)]
      by (auto simp: invoke_def split: if_splits)
  qed (use assms(2) in \<open>simp add: no_callbacks_def\<close>)
next
  case (Force q)
  with assms(1) obtain ok where "forceTerminal q t = (t', cb, ok)" by (auto split: prod.splits)
  then show ?thesis
  proof (cases rule: forceTerminal_cases)
    case (forced n js adv)
    then show ?thesis using assms(2) advanceLocked_spec(10) [OF forced(2)] by (auto simp: invoke_def split: if_splits)
  qed (use assms(2) in \<open>simp add: no_callbacks_def\<close>)
qed (use assms in \<open>auto simp: no_callbacks_def\<close>)

text \<open>What one step of the tracker means for the specification's sets.\<close>

lemma op_facts:
  assumes wf: "tracker_wf t" and sim: "sim_base t s" and ok: "op_ok x s" and st: "ct_step x t = (t', cb)"
  defines "s' \<equiv> sp_step x s"
  shows "reported t s \<subseteq> reported t' s'" "reported t' s' \<subseteq> reported t s \<union> set (cb_commits cb)"
    "\<forall>u\<in>set (hooks cb). hook_ok t' s' u" "committedPtr t \<le> committedPtr t'"
    "sp_forced s \<subseteq> sp_forced s'" "sp_reg s \<subseteq> sp_reg s'" "sp_base s' = sp_base s"
    "sp_live s' q \<noteq> None \<Longrightarrow> sp_live s q \<noteq> None \<or> (\<exists>n k. x = Arrived q n k)"
    "sp_reg s' = (case x of Arrived q n k \<Rightarrow> insert q (sp_reg s) | _ \<Rightarrow> sp_reg s)"
    "sp_forced s' \<subseteq> (case x of Force q \<Rightarrow> insert q (sp_forced s) | _ \<Rightarrow> sp_forced s)"
proof -
  note sim_step = sim_step(2) [OF wf sim ok st]
  show "reported t s \<subseteq> reported t' s'" "reported t' s' \<subseteq> reported t s \<union> set (cb_commits cb)"
    using sim_step by (auto simp: s'_def)
  show "\<forall>u\<in>set (hooks cb). hook_ok t' s' u"
    using sim_step advance_thru [OF st] by (cases "cb_advance cb") (auto simp: hooks_def s'_def)
  show "committedPtr t \<le> committedPtr t'" by (rule ct_step_ptr_mono [OF st])
  show "sp_forced s \<subseteq> sp_forced s'" "sp_reg s \<subseteq> sp_reg s'" "sp_base s' = sp_base s"
    "sp_live s' q \<noteq> None \<Longrightarrow> sp_live s q \<noteq> None \<or> (\<exists>n k. x = Arrived q n k)"
    "sp_reg s' = (case x of Arrived q n k \<Rightarrow> insert q (sp_reg s) | _ \<Rightarrow> sp_reg s)"
    "sp_forced s' \<subseteq> (case x of Force q \<Rightarrow> insert q (sp_forced s) | _ \<Rightarrow> sp_forced s)"
    unfolding s'_def by (cases x; auto split: option.splits if_splits)+
qed

text \<open>One action: the accounts of the goroutine list around it, and what changed in the
  specification.\<close>

definition moved :: "task \<Rightarrow> task list \<Rightarrow> commitTracker \<Rightarrow> prefix_spec \<Rightarrow> commitTracker \<Rightarrow> prefix_spec \<Rightarrow> bool" where
  "moved t new ct s ct' s' \<longleftrightarrow>
     reported ct s \<subseteq> reported ct' s' \<and> reported ct' s' \<subseteq> reported ct s \<union> {q. TOnCommit q \<in> set new} \<and>
     (\<forall>u\<in>set new. hook_ok ct' s' u) \<and> committedPtr ct \<le> committedPtr ct' \<and>
     sp_forced s \<subseteq> sp_forced s' \<and> sp_forced s' \<subseteq> sp_forced s \<union> {q. TRelease q \<in> set new} \<and>
     sp_reg s \<subseteq> sp_reg s' \<and> sp_reg s' \<subseteq> sp_reg s \<union> {q. q \<in># pend [t]} \<and> sp_base s' = sp_base s \<and>
     (\<forall>q. sp_live s' q \<noteq> None \<longrightarrow> sp_live s q \<noteq> None \<or> q \<in># pend [t] \<and> q \<notin> sp_reg s)"

lemma moved_same:
  assumes "hook_tasks new = []"
  shows "moved t new ct s ct s"
proof -
  have "\<forall>u\<in>set new. hook_ok ct s u" using hook_ok_tasks [of new ct s] assms by simp
  then show ?thesis by (auto simp: moved_def)
qed

lemma moved_op:
  assumes wf: "tracker_wf ct" and sim: "sim_base ct s" and ok: "op_ok x s" and st: "ct_step x ct = (ct', cb)"
    and hk: "hook_tasks new = hooks cb"
    and arr: "\<And>q n k. x = Arrived q n k \<Longrightarrow> q \<in># pend [t]" and nf: "\<And>q. x \<noteq> Force q"
  shows "moved t new ct s ct' (sp_step x s)"
proof -
  note f = op_facts [OF wf sim ok st]
  have commits: "TOnCommit q \<in> set new" if "q \<in> set (cb_commits cb)" for q
    using that in_hook_tasks(1) [of q new] by (simp add: hk hooks_def)
  show ?thesis unfolding moved_def
  proof (intro conjI)
    show "reported ct' (sp_step x s) \<subseteq> reported ct s \<union> {q. TOnCommit q \<in> set new}" using f(2) commits by blast
    show "\<forall>u\<in>set new. hook_ok ct' (sp_step x s) u" using f(3) hook_ok_tasks [of new ct' "sp_step x s"] by (simp add: hk)
    show "sp_forced (sp_step x s) \<subseteq> sp_forced s \<union> {q. TRelease q \<in> set new}" using f(10) nf by (cases x) auto
    show "sp_reg (sp_step x s) \<subseteq> sp_reg s \<union> {q. q \<in># pend [t]}" using f(9) arr by (cases x) auto
    show "\<forall>q. sp_live (sp_step x s) q \<noteq> None \<longrightarrow> sp_live s q \<noteq> None \<or> q \<in># pend [t] \<and> q \<notin> sp_reg s"
      using f(8) arr ok by fastforce
  qed (use f in blast)+
qed

lemma moved_force:
  assumes wf: "tracker_wf ct" and sim: "sim_base ct s" and st: "forceTerminal q ct = (ct', cb, cleared)"
    and hk: "hook_tasks new = hooks cb @ (if cleared then [TRelease q] else [])"
  shows "moved t new ct s ct' (sp_step (Force q) s)"
proof -
  have ct: "ct_step (Force q) ct = (ct', cb)" using st by simp
  note f = op_facts [OF wf sim _ ct, simplified]
  have commits: "TOnCommit r \<in> set new" if "r \<in> set (cb_commits cb)" for r
    using that in_hook_tasks(1) [of r new] by (simp add: hk hooks_def)
  have rel: "TRelease q \<in> set new \<and> q \<in> sp_forced (sp_step (Force q) s)" if cleared
  proof -
    from st that obtain n where "outstanding ct q = Some n" by (auto simp: forceTerminal_def split: option.splits)
    then have "q \<in> sp_reg s" "q \<notin> sp_forced s" "committedPtr ct \<le> q" using sim_baseD(2) [OF sim, of q] by auto
    moreover have "\<not> sp_settled s q" using sim_settled [OF wf sim] calculation by simp
    ultimately show ?thesis using that in_hook_tasks(2) [of q new] by (simp add: hk)
  qed
  have not: "sp_step (Force q) s = s" if "\<not> cleared"
  proof -
    from st that have "outstanding ct q = None" by (auto simp: forceTerminal_def split: option.splits prod.splits)
    then show ?thesis using sim_no_entry(2) [OF wf sim] by simp
  qed
  show ?thesis unfolding moved_def
  proof (intro conjI)
    show "reported ct' (sp_step (Force q) s) \<subseteq> reported ct s \<union> {q. TOnCommit q \<in> set new}"
      using op_facts(2) [OF wf sim _ ct] commits by (auto simp del: sp_step.simps)
    show "\<forall>u\<in>set new. hook_ok ct' (sp_step (Force q) s) u"
      using op_facts(3) [OF wf sim _ ct] rel hook_ok_tasks [of new ct' "sp_step (Force q) s"]
      by (auto simp: hk simp del: sp_step.simps)
    show "sp_forced (sp_step (Force q) s) \<subseteq> sp_forced s \<union> {q. TRelease q \<in> set new}"
      using op_facts(10) [OF wf sim _ ct] rel not by (cases cleared) (auto simp del: sp_step.simps)
    show "sp_reg (sp_step (Force q) s) \<subseteq> sp_reg s \<union> {q. q \<in># pend [t]}" by auto
    show "\<forall>r. sp_live (sp_step (Force q) s) r \<noteq> None \<longrightarrow> sp_live s r \<noteq> None \<or> r \<in># pend [t] \<and> r \<notin> sp_reg s"
      by auto
    show "reported ct s \<subseteq> reported ct' (sp_step (Force q) s)" using op_facts(1) [OF wf sim _ ct] by simp
    show "committedPtr ct \<le> committedPtr ct'" by (rule ct_step_ptr_mono [OF ct])
  qed auto
qed

lemma exec_acc:
  assumes ex: "exec v orc t e = Next e' new"
    and a: "acc (e_commit e) s (toks (A @ t # B) + env_toks e) (pend (A @ t # B)) (logged e) (ms_nextSeq (e_store e))"
  shows "\<exists>s'. acc (e_commit e') s' (toks (A @ new @ B) + env_toks e') (pend (A @ new @ B)) (logged e')
      (ms_nextSeq (e_store e')) \<and> moved t new (e_commit e) s (e_commit e') s'"
proof -
  obtain x where c: "contract x t e e' new" using exec_contract [OF ex] by blast
  let ?H = "toks (A @ t # B) + env_toks e" and ?H' = "toks (A @ new @ B) + env_toks e'"
  let ?P = "pend (A @ t # B)" and ?P' = "pend (A @ new @ B)"
  have H: "?H = (env_toks e + toks [t]) + (toks A + toks B)" "?H' = (env_toks e' + toks new) + (toks A + toks B)"
    by (simp_all add: ac_simps)
  have P: "?P = pend [t] + (pend A + pend B)" "?P' = pend new + (pend A + pend B)" by (simp_all add: ac_simps)
  have held: "q \<in># ?H" if "q \<in> set (task_seqs t)" for q using that by simp
  have lg: "logged e' = logged e" if "e_log e' = e_log e" using that by (simp add: logged_def)
  note wf = accD(1) [OF a] and sim = accD(2) [OF a]
  show ?thesis
  proof (cases x)
    case Quiet
    with c have eqs: "e_commit e' = e_commit e" "hook_tasks new = []" "?H' = ?H" "?P' = ?P" "e_log e' = e_log e"
      "ms_nextSeq (e_store e') = ms_nextSeq (e_store e)" by (simp_all only: contract_def Let_def effect.case H P)
    have "acc (e_commit e') s ?H' ?P' (logged e') (ms_nextSeq (e_store e'))"
      unfolding lg [OF eqs(5)] eqs(1,3,4,6) by (rule a)
    then show ?thesis using moved_same [OF eqs(2)] eqs(1) by metis
  next
    case Appended
    with c have eqs: "e_commit e' = e_commit e" "hook_tasks new = []" "?H' = ?H" "e_log e' = e_log e"
      "?P' = add_mset (ms_nextSeq (e_store e) + 1) ?P" "ms_nextSeq (e_store e') = ms_nextSeq (e_store e) + 1"
      by (simp_all add: contract_def Let_def H P del: toks_simps pend_simps)
    have "acc (e_commit e') s ?H' ?P' (logged e') (ms_nextSeq (e_store e'))"
      unfolding lg [OF eqs(4)] eqs(1,3,5,6) by (rule acc_append [OF a])
    then show ?thesis using moved_same [OF eqs(2)] eqs(1) by metis
  next
    case (Registered q n k)
    with c have eqs: "e_commit e' = arrived q n k (e_commit e)" "hook_tasks new = []" "?H' = add_mset q ?H"
      "pend [t] = add_mset q (pend new)" "e_log e' = e_log e" "ms_nextSeq (e_store e') = ms_nextSeq (e_store e)"
      by (simp_all add: contract_def Let_def H P del: toks_simps pend_simps)
    have q: "q \<in># pend [t]" "q \<in># ?P" "?P' = ?P - {#q#}" using eqs(4) unfolding P by simp_all
    have "acc (e_commit e') (sp_step (Arrived q n k) s) ?H' ?P' (logged e') (ms_nextSeq (e_store e'))"
      unfolding q(3) lg [OF eqs(5)] eqs(1,3,6) by (rule acc_arrived [OF a q(2)])
    moreover have "moved t new (e_commit e) s (e_commit e') (sp_step (Arrived q n k) s)"
    proof (rule moved_op [OF wf sim])
      show "op_ok (Arrived q n k) s" using accD(6) [OF a q(2)] by simp
      show "ct_step (Arrived q n k) (e_commit e) = (e_commit e', no_callbacks)" using eqs(1) by simp
      show "hook_tasks new = hooks no_callbacks" using eqs(2) by (simp add: hooks_def no_callbacks_def)
    qed (use q in auto)
    ultimately show ?thesis by blast
  next
    case (Opened q d)
    with c obtain cb where eqs: "0 \<le> d" "q \<in> set (task_seqs t)" "add_delta q d (e_commit e) = (e_commit e', cb)"
      "hook_tasks new = hooks cb" "?H' = ?H + replicate_mset (nat d) q" "?P' = ?P" "e_log e' = e_log e"
      "ms_nextSeq (e_store e') = ms_nextSeq (e_store e)"
      by (auto simp: contract_def Let_def H P simp del: toks_simps pend_simps)
    have "acc (e_commit e') (sp_step (Add q d) s) ?H' ?P' (logged e') (ms_nextSeq (e_store e'))"
      unfolding eqs(5,6,8) lg [OF eqs(7)] by (rule acc_add [OF a held [OF eqs(2)] eqs(1,3)])
    moreover have "moved t new (e_commit e) s (e_commit e') (sp_step (Add q d) s)"
      by (rule moved_op [OF wf sim add_op_ok [OF a held [OF eqs(2)]] _ eqs(4)]) (use eqs(3) in auto)
    ultimately show ?thesis by blast
  next
    case (Ended q)
    with c obtain cb where eqs: "q \<in> set (task_seqs t)" "done_branch q (e_commit e) = (e_commit e', cb)"
      "hook_tasks new = hooks cb" "?H = add_mset q ?H'" "?P' = ?P" "\<exists>w. e_log e' = (q, w) # e_log e"
      "ms_nextSeq (e_store e') = ms_nextSeq (e_store e)"
      by (auto simp: contract_def Let_def H P simp del: toks_simps pend_simps)
    have h: "?H' = ?H - {#q#}" unfolding eqs(4) by simp
    have l: "logged e' = insert q (logged e)" using eqs(6) by (auto simp: logged_def)
    have "acc (e_commit e') (sp_step (Add q (- 1)) s) ?H' ?P' (logged e') (ms_nextSeq (e_store e'))"
      unfolding eqs(5,7) l h by (rule acc_done [OF a held [OF eqs(1)] eqs(2)])
    moreover have "moved t new (e_commit e) s (e_commit e') (sp_step (Add q (- 1)) s)"
      by (rule moved_op [OF wf sim add_op_ok [OF a held [OF eqs(1)]] _ eqs(3)])
        (use eqs(2) in \<open>auto simp: done_branch_def\<close>)
    ultimately show ?thesis by blast
  next
    case (Forced q)
    with c obtain cb cleared where eqs: "forceTerminal q (e_commit e) = (e_commit e', cb, cleared)"
      "hook_tasks new = hooks cb @ (if cleared then [TRelease q] else [])" "?H' = ?H" "?P' = ?P"
      "e_log e' = (if cleared then [(q, Abandoned)] else []) @ e_log e"
      "ms_nextSeq (e_store e') = ms_nextSeq (e_store e)"
      by (auto simp: contract_def Let_def H P simp del: toks_simps pend_simps)
    have l: "logged e' = (if cleared then insert q (logged e) else logged e)" using eqs(5) by (auto simp: logged_def)
    have "acc (e_commit e') (sp_step (Force q) s) ?H' ?P' (logged e') (ms_nextSeq (e_store e'))"
      unfolding eqs(3,4,6) l by (rule acc_force [OF a eqs(1)])
    then show ?thesis using moved_force [OF wf sim eqs(1,2)] by blast
  qed
qed

lemma exec_log:
  assumes ex: "exec v orc t e = Next e' new"
  shows "set (e_log e) \<subseteq> set (e_log e')" "TRelease q \<in> set new \<Longrightarrow> (q, Abandoned) \<in> set (e_log e')"
proof -
  obtain x where c: "contract x t e e' new" using exec_contract [OF ex] by blast
  show "set (e_log e) \<subseteq> set (e_log e')" using c by (auto simp: contract_def Let_def split: effect.splits)
  have no: "TRelease q \<notin> set (hooks cb)" for cb by (auto simp: hooks_def split: option.splits)
  show "(q, Abandoned) \<in> set (e_log e')" if "TRelease q \<in> set new"
  proof -
    have "TRelease q \<in> set (hook_tasks new)" using that in_hook_tasks(2) by blast
    then show ?thesis using c no by (cases x) (auto simp: contract_def Let_def split: if_splits)
  qed
qed

section \<open>The invariant\<close>

definition unroutable_seqs :: "engine_env \<Rightarrow> memStore \<Rightarrow> seq set" where
  "unroutable_seqs v st =
     {row_seq r | r. r \<in> set (ms_spool st) \<and> row_pipeline r = ev_name v \<and> replayEntry v (row_msg r) = None}"

definition durable_inv :: "engine_env \<Rightarrow> engine \<Rightarrow> prefix_spec \<Rightarrow> bool" where
  "durable_inv v e s \<longleftrightarrow>
     mem_inv (e_store e) \<and> Checkpoint (ev_name v) (e_store e) = e_persistedThrough e \<and>
     e_persistedThrough e \<le> committedThrough (e_commit e) \<and>
     (\<forall>q. (q \<in> sp_reg s \<or> q \<in># pend (go_tasks e)) \<and> e_persistedThrough e < q
        \<longrightarrow> q \<in> stored_seqs (ev_name v) (e_store e))"

definition slot_inv :: "engine_env \<Rightarrow> memStore \<Rightarrow> engine \<Rightarrow> prefix_spec \<Rightarrow> bool" where
  "slot_inv v st e s \<longleftrightarrow>
     e_gate e = slots (go_tasks e) + int (card (e_acquired e)) \<and> finite (e_acquired e) \<and>
     e_gate e \<le> o_HighWatermark (ev_opts v) \<and> e_acquired e \<subseteq> sp_reg s \<and>
     (\<forall>q. sp_live s q \<noteq> None \<longrightarrow> q \<in> e_acquired e \<or> q \<in> unroutable_seqs v st) \<and>
     (\<forall>q\<in>e_acquired e. q \<in> reported (e_commit e) s \<or> q \<in> sp_forced s
        \<longrightarrow> TOnCommit q \<in> set (go_tasks e) \<or> TRelease q \<in> set (go_tasks e)) \<and>
     (\<forall>rows. TReplay rows \<in> set (go_tasks e) \<longrightarrow>
        (\<forall>r\<in>set rows. r \<in> set (ms_spool st) \<and> row_pipeline r = ev_name v))"

definition shape_inv :: "engine \<Rightarrow> bool" where
  "shape_inv e \<longleftrightarrow>
     (\<forall>(g, ts)\<in>set (e_gos e). go_ok ts) \<and> e_admitting e = admit_ends (go_tasks e) \<and>
     replay_marks (go_tasks e) = (if e_scanned e \<and> \<not> e_replayDone e then 1 else 0) \<and>
     (e_replayDone e \<longrightarrow> e_scanned e)"

definition acc_inv :: "engine \<Rightarrow> prefix_spec \<Rightarrow> bool" where
  "acc_inv e s \<longleftrightarrow>
     acc (e_commit e) s (holders e) (pend (go_tasks e)) (logged e) (ms_nextSeq (e_store e)) \<and>
     (\<forall>u\<in>set (go_tasks e). hook_ok (e_commit e) s u) \<and>
     (\<forall>q. q \<in> sp_forced s \<longrightarrow> (q, Abandoned) \<in> set (e_log e))"

definition live_inv :: "engine_env \<Rightarrow> memStore \<Rightarrow> engine \<Rightarrow> prefix_spec \<Rightarrow> bool" where
  "live_inv v st e s \<longleftrightarrow> acc_inv e s \<and> durable_inv v e s \<and> slot_inv v st e s \<and> shape_inv e
     \<and> sp_base s = Checkpoint (ev_name v) st"

section \<open>Steps of a goroutine keep the invariant\<close>

lemma stored_trim:
  "q \<in> stored_seqs p st \<Longrightarrow> cutoff < q \<Longrightarrow> q \<in> stored_seqs p (fst (DeleteSpoolThrough p cutoff st))"
  by (auto simp: stored_seqs_def DeleteSpoolThrough_def Let_def)

lemma trim_frame [simp]:
  "Checkpoint p (fst (DeleteSpoolThrough p' cutoff st)) = Checkpoint p st"
  "Checkpoint p (fst (DeleteDeadLettersBefore p' ts st)) = Checkpoint p st"
  "stored_seqs p (fst (DeleteDeadLettersBefore p' ts st)) = stored_seqs p st"
  "Checkpoint p (SetCheckpoint p q st) = q" "stored_seqs p (SetCheckpoint p' q st) = stored_seqs p st"
  by (simp_all add: Checkpoint_def stored_seqs_def memstore_defs Let_def)

lemma mem_inv_sweep: "mem_inv s \<Longrightarrow> mem_inv (fst (DeleteDeadLettersBefore p ts s))"
  by (simp add: DeleteDeadLettersBefore_def mem_inv_drop_deadLetters)

lemma retention_store:
  fixes orc :: answers
  assumes "mem_inv (e_store e)" and "0 < o_SpoolRetention (ev_opts v)"
  defines "e' \<equiv> persist_retention v orc e"
  shows "mem_inv (e_store e')" "Checkpoint (ev_name v) (e_store e') = Checkpoint (ev_name v) (e_store e)"
    "e_persistedThrough e' = e_persistedThrough e"
    "\<And>q. q \<in> stored_seqs (ev_name v) (e_store e) \<Longrightarrow> e_persistedThrough e < q
       \<Longrightarrow> q \<in> stored_seqs (ev_name v) (e_store e')"
  using assms(1,2) unfolding e'_def persist_retention_def trimDeadLetters_def Let_def
  by (auto simp: mem_inv_sweep mem_inv_DeleteSpoolThrough stored_trim)

lemma persist_store:
  fixes orc :: answers and thru :: seq and fr :: "node_name \<rightharpoonup> seq"
  assumes "mem_inv (e_store e)" and "0 < o_SpoolRetention (ev_opts v)"
    and "Checkpoint (ev_name v) (e_store e) = e_persistedThrough e"
  defines "e' \<equiv> persistCheckpoint v orc thru fr e"
  shows "mem_inv (e_store e')" "Checkpoint (ev_name v) (e_store e') = e_persistedThrough e'"
    "e_persistedThrough e' = (if thru > e_persistedThrough e \<and> or_err orc = None then thru else e_persistedThrough e)"
    "\<And>q. q \<in> stored_seqs (ev_name v) (e_store e) \<Longrightarrow> e_persistedThrough e' < q
       \<Longrightarrow> q \<in> stored_seqs (ev_name v) (e_store e')"
proof -
  let ?e1 = "(if thru > e_persistedThrough e
       then e\<lparr>e_store := SetCheckpoint (ev_name v) thru (e_store e), e_persistedThrough := thru,
              e_metrics := (e_metrics e)\<lparr>mt_CheckpointPtr := thru\<rparr>\<rparr> else e)"
  let ?e2 = "(if thru > e_flushAttempted ?e1 then ?e1\<lparr>e_flushAttempted := thru\<rparr> else ?e1)"
  have post: "e_store (post_frontiers fr x) = e_store x" "e_persistedThrough (post_frontiers fr x) = e_persistedThrough x" for x
    by (simp_all add: post_frontiers_def)
  have inv2: "mem_inv (e_store ?e2)" using assms(1) by (simp add: mem_inv_SetCheckpoint)
  have st2: "stored_seqs (ev_name v) (e_store ?e2) = stored_seqs (ev_name v) (e_store e)"
    and pt2: "e_persistedThrough ?e2 = max thru (e_persistedThrough e)"
    and cp2: "Checkpoint (ev_name v) (e_store ?e2) = e_persistedThrough ?e2"
    using assms(3) by auto
  note ret = retention_store [OF inv2 assms(2), where orc = orc]
  have all: "mem_inv (e_store e') \<and> Checkpoint (ev_name v) (e_store e') = e_persistedThrough e'
    \<and> e_persistedThrough e' = (if thru > e_persistedThrough e \<and> or_err orc = None then thru else e_persistedThrough e)
    \<and> (\<forall>q. q \<in> stored_seqs (ev_name v) (e_store e) \<and> e_persistedThrough e' < q \<longrightarrow> q \<in> stored_seqs (ev_name v) (e_store e'))"
  proof (cases "thru > e_persistedThrough e \<and> or_err orc \<noteq> None")
    case True
    then show ?thesis using assms(1,3) by (auto simp: e'_def persistCheckpoint_def)
  next
    case False
    have e': "e' = post_frontiers fr (persist_retention v orc ?e2)"
      by (simp only: e'_def persistCheckpoint_def Let_def False if_False)
    show ?thesis unfolding e' post using ret cp2 st2 pt2 False by auto
  qed
  then show "mem_inv (e_store e')" "Checkpoint (ev_name v) (e_store e') = e_persistedThrough e'"
    "e_persistedThrough e' = (if thru > e_persistedThrough e \<and> or_err orc = None then thru else e_persistedThrough e)"
    "\<And>q. q \<in> stored_seqs (ev_name v) (e_store e) \<Longrightarrow> e_persistedThrough e' < q
       \<Longrightarrow> q \<in> stored_seqs (ev_name v) (e_store e')" by blast+
qed

lemma exec_slots:
  assumes "exec v orc t e = Next e' new" and "\<not> touches_slots t"
  shows "slots new = task_slots t"
proof (cases "plain t")
  case True
  then show ?thesis using exec_plain [OF assms(1) True] plain_list(4) [of new] by (auto simp: plain_def)
next
  case False
  have ab: "slots (map (\<lambda>(q, m). TAbandonOne q m r) found) = 0" for r found by (induction found) auto
  show ?thesis
  proof (cases t)
    case (TAppend req)
    then show ?thesis using assms by (auto simp: admit_append_def Let_def split: if_splits prod.splits sum.splits)
  next
    case (TReplay rows)
    then show ?thesis using assms by (cases rows) (auto simp: replay_row_def split: option.splits)
  next
    case (TAbandonScan a r)
    then show ?thesis using assms by (auto simp: abandon_scan_def ab split: if_splits prod.splits)
  next
    case (TAbandonWrite q dl)
    then show ?thesis using assms by (auto simp: abandon_write_def split: if_splits prod.splits bool.splits)
  qed (use assms False in \<open>auto simp: plain_def abandon_one_def split: if_splits\<close>)
qed

lemma TReplay_mark: "TReplay rows \<in> set ts \<Longrightarrow> 0 < replay_marks ts"
  using counts_nonneg(2) by (induction ts) (auto simp: add_nonneg_pos add_pos_nonneg)

lemma exec_replay_rows:
  assumes "exec v orc t e = Next e' new" and "go_ok (t # ts)" and "TReplay rows \<in> set new"
  shows "\<exists>r. t = TReplay (r # rows)"
proof (cases "is_replay t")
  case True
  then show ?thesis
  proof (cases t)
    case (TReplay rs)
    then show ?thesis using assms by (cases rs) (auto simp: replay_row_def split: option.splits)
  qed (use assms in auto)
next
  case False
  then have "replay_marks new = 0" using exec_shape(4) [OF assms(1,2)] by auto
  then show ?thesis using TReplay_mark [OF assms(3)] by simp
qed

lemma durable_exec:
  assumes ex: "exec v orc t e = Next e' new" and d: "durable_inv v e s" and "0 < o_SpoolRetention (ev_opts v)"
    and tasks: "go_tasks e = A @ t # B" "go_tasks e1 = A @ new @ B"
    and e1: "e_store e1 = e_store e'" "e_persistedThrough e1 = e_persistedThrough e'" "e_commit e1 = e_commit e'"
    and hook: "hook_ok (e_commit e) s t" and m: "moved t new (e_commit e) s (e_commit e') s'"
  shows "durable_inv v e1 s'"
proof -
  note D = d [unfolded durable_inv_def]
  have ptr: "committedThrough (e_commit e) \<le> committedThrough (e_commit e')" and
    reg: "sp_reg s' \<subseteq> sp_reg s \<union> {q. q \<in># pend [t]}" using m by (auto simp: moved_def)
  show ?thesis
  proof (cases "\<exists>thru fr. t = TPersist thru fr")
    case False
    then have "t \<noteq> TPersist thru fr" for thru fr by blast
    note st = exec_store [OF ex _ this]
    have "q \<in> stored_seqs (ev_name v) (e_store e')"
      if "q \<in> sp_reg s' \<or> q \<in># pend (go_tasks e1)" "e_persistedThrough e' < q" for q
    proof (cases "q \<in># pend new \<and> q \<notin># pend [t]")
      case True
      then show ?thesis using st(5) D by blast
    next
      case False
      then have "q \<in> sp_reg s \<or> q \<in># pend (go_tasks e)" using that(1) reg by (auto simp: tasks)
      then show ?thesis using D st that(2) by auto
    qed
    then show ?thesis using D st ptr unfolding durable_inv_def e1 by auto
  next
    case True
    then obtain thru fr where t: "t = TPersist thru fr" by blast
    then have e': "e' = persistCheckpoint v orc thru fr e" "new = []" using ex by auto
    have thru: "thru \<le> committedThrough (e_commit e)" using hook t by simp
    note st = persist_store [where e = e and v = v and orc = orc and thru = thru and fr = fr, folded e'(1)]
    have "sp_reg s' \<subseteq> sp_reg s" "pend (go_tasks e1) = pend (go_tasks e)" using reg t by (auto simp: tasks e'(2))
    moreover have "e_persistedThrough e \<le> e_persistedThrough e'" using st(3) D assms(3) by (auto split: if_splits)
    ultimately show ?thesis using D st assms(3) thru ptr unfolding durable_inv_def e1 by (auto split: if_splits)
  qed
qed

text \<open>The seats: who releases, who acquires.\<close>

definition acquires :: "task \<Rightarrow> seq set" where
  "acquires t = (case t of TRegister req q msg ingest \<Rightarrow> {q} | _ \<Rightarrow> {})"

definition releases :: "task \<Rightarrow> seq set" where
  "releases t = (case t of TOnCommit q \<Rightarrow> {q} | TRelease q \<Rightarrow> {q} | _ \<Rightarrow> {})"

lemma exec_acquired:
  assumes ex: "exec v orc t e = Next e' new"
  shows "e_acquired e' = (e_acquired e \<union> acquires t) - releases t"
proof (cases "touches_slots t")
  case False
  then have "same_slots e e'" by (rule exec_same(2) [OF ex])
  moreover have "acquires t = {}" "releases t = {}" using False by (cases t; simp add: acquires_def releases_def)+
  ultimately show ?thesis by (simp add: same_slots_def)
next
  case True
  then show ?thesis using ex
    by (cases t) (auto simp: acquires_def releases_def admit_gate_def admit_register_def onCommit_def takeAccepted_def
        release_def bump_def Let_def split: if_splits)
qed

lemma exec_gate:
  assumes ex: "exec v orc t e = Next e' new" and fin: "finite (e_acquired e)"
    and fresh: "acquires t \<inter> e_acquired e = {}"
  shows "e_gate e' - slots new - int (card (e_acquired e')) = e_gate e - task_slots t - int (card (e_acquired e))"
    and "e_gate e \<le> hw \<Longrightarrow> hw = o_HighWatermark (ev_opts v) \<Longrightarrow> e_gate e' \<le> hw"
proof -
  have rel: "e_gate (release q x) - int (card (e_acquired (release q x))) = e_gate x - int (card (e_acquired x))"
    and rle: "e_gate (release q x) \<le> e_gate x" if "finite (e_acquired x)" for q x
  proof -
    have "0 < card (e_acquired x)" if "q \<in> e_acquired x" using that \<open>finite (e_acquired x)\<close> card_gt_0_iff by blast
    then show "e_gate (release q x) - int (card (e_acquired (release q x))) = e_gate x - int (card (e_acquired x))"
      using \<open>finite (e_acquired x)\<close> by (auto simp: release_def of_nat_diff)
    show "e_gate (release q x) \<le> e_gate x" by (simp add: release_def)
  qed
  have "e_gate e' - slots new - int (card (e_acquired e')) = e_gate e - task_slots t - int (card (e_acquired e))
    \<and> (e_gate e \<le> o_HighWatermark (ev_opts v) \<longrightarrow> e_gate e' \<le> o_HighWatermark (ev_opts v))"
  proof (cases "touches_slots t")
    case False
    then show ?thesis using exec_same(2) [OF ex] exec_slots [OF ex] by (simp add: same_slots_def)
  next
    case True
    then show ?thesis
    proof (cases t)
      case (TGate req)
      then show ?thesis using ex by (auto simp: admit_gate_def split: if_splits)
    next
      case (TRegister req q msg ingest)
      then show ?thesis using ex fin fresh by (auto simp: admit_register_def acquires_def Let_def split: if_splits)
    next
      case (TOnCommit q)
      let ?x = "fst (takeAccepted q (bump mt_CommittedCount_update 1 e))"
      have "e_acquired ?x = e_acquired e" "e_gate ?x = e_gate e" by (simp_all add: takeAccepted_def bump_def)
      then show ?thesis using ex TOnCommit rel [of ?x q] rle [of ?x q] fin by (auto simp: onCommit_def)
    next
      case (TRelease q)
      then show ?thesis using ex rel [OF fin, of q] rle [OF fin, of q] by auto
    qed simp_all
  qed
  then show "e_gate e' - slots new - int (card (e_acquired e')) = e_gate e - task_slots t - int (card (e_acquired e))"
    "e_gate e \<le> hw \<Longrightarrow> hw = o_HighWatermark (ev_opts v) \<Longrightarrow> e_gate e' \<le> hw" by auto
qed

text \<open>A message that becomes live by an action was registered by it: with its slot, or as a row that
  no node of the pipeline accepts.\<close>

lemma newly_live:
  assumes ex: "exec v orc t e = Next e' new" and q: "q \<in># pend [t]" "q \<notin># pend new"
    and rows: "\<And>rs. t = TReplay rs \<Longrightarrow> \<forall>r\<in>set rs. r \<in> set (ms_spool st) \<and> row_pipeline r = ev_name v"
  shows "q \<in> acquires t \<or> q \<in> unroutable_seqs v st"
proof (cases t)
  case (TGate req)
  then show ?thesis using ex q by (auto simp: admit_gate_def split: if_splits)
next
  case (TAppend req)
  then show ?thesis using ex q by (auto simp: admit_append_def Let_def split: if_splits)
next
  case (TRegister req qq msg ingest)
  then show ?thesis using q by (simp add: acquires_def)
next
  case (TReplay rs)
  show ?thesis
  proof (cases rs)
    case Nil
    then show ?thesis using TReplay q by simp
  next
    case (Cons r rest)
    then have "q = row_seq r \<and> replayEntry v (row_msg r) = None"
      using TReplay ex q by (auto simp: replay_row_def split: option.splits)
    then show ?thesis using rows [OF TReplay] Cons by (auto simp: unroutable_seqs_def)
  qed
qed (use q in auto)

lemma slot_exec:
  assumes ex: "exec v orc t e = Next e' new" and sl: "slot_inv v st e s" and go: "go_ok (t # ts)"
    and tasks: "go_tasks e = A @ t # B" "go_tasks e1 = A @ new @ B"
    and e1: "e_gate e1 = e_gate e'" "e_acquired e1 = e_acquired e'" "e_commit e1 = e_commit e'"
    and a: "acc (e_commit e) s (toks (A @ t # B) + env_toks e) (pend (A @ t # B)) (logged e) (ms_nextSeq (e_store e))"
    and a': "acc (e_commit e') s' (toks (A @ new @ B) + env_toks e') (pend (A @ new @ B)) (logged e') (ms_nextSeq (e_store e'))"
    and m: "moved t new (e_commit e) s (e_commit e') s'"
    and hook: "hook_ok (e_commit e) s t"
  shows "slot_inv v st e1 s'"
proof -
  note S = sl [unfolded slot_inv_def]
  have S_live: "\<And>q. sp_live s q \<noteq> None \<Longrightarrow> q \<in> e_acquired e \<or> q \<in> unroutable_seqs v st"
    and S_kept: "\<And>q. q \<in> e_acquired e \<Longrightarrow> q \<in> reported (e_commit e) s \<or> q \<in> sp_forced s \<Longrightarrow>
      TOnCommit q \<in> set (go_tasks e) \<or> TRelease q \<in> set (go_tasks e)"
    and S_rows: "\<And>rows r. TReplay rows \<in> set (go_tasks e) \<Longrightarrow> r \<in> set rows \<Longrightarrow>
      r \<in> set (ms_spool st) \<and> row_pipeline r = ev_name v"
    and S_reg: "e_acquired e \<subseteq> sp_reg s"
    and S_gate: "e_gate e = slots (go_tasks e) + int (card (e_acquired e))"
      "e_gate e \<le> o_HighWatermark (ev_opts v)"
    using S by blast+
  have fin: "finite (e_acquired e)" using S by blast
  have forced_reg: "sp_forced s \<subseteq> sp_reg s" using accD(2) [OF a] sim_baseD(5) by blast
  have fresh: "q \<notin> sp_reg s" if "q \<in> acquires t" for q
    using that accD(6) [OF a, of q] by (auto simp: acquires_def split: task.splits)
  have acq: "e_acquired e1 = (e_acquired e \<union> acquires t) - releases t" using exec_acquired [OF ex] e1 by simp
  have "acquires t \<inter> e_acquired e = {}" using fresh S_reg by blast
  note gate = exec_gate [OF ex fin this]
  have acq_reg: "acquires t \<subseteq> sp_reg s'"
  proof
    fix q assume q: "q \<in> acquires t"
    then obtain req msg ingest where t: "t = TRegister req q msg ingest" by (auto simp: acquires_def split: task.splits)
    then have "q \<in># toks new" using ex by (auto simp: admit_register_def Let_def split: if_splits)
    then show "q \<in> sp_reg s'" using accD(3) [OF a', of q] by simp
  qed
  have dead: "sp_live s q = None" if "q \<in> releases t" for q
  proof -
    have "q \<in> reported (e_commit e) s \<or> q \<in> sp_forced s" using that hook by (auto simp: releases_def split: task.splits)
    then show ?thesis using sim_baseD(2,3) [OF accD(2) [OF a], of q]
      by (auto simp: reported_def split: option.splits)
  qed
  have trows: "\<forall>r\<in>set rs. r \<in> set (ms_spool st) \<and> row_pipeline r = ev_name v" if "t = TReplay rs" for rs
  proof -
    have "TReplay rs \<in> set (go_tasks e)" using that by (simp add: tasks(1))
    then show ?thesis using S_rows by blast
  qed
  have live: "q \<in> e_acquired e1 \<or> q \<in> unroutable_seqs v st" if l: "sp_live s' q \<noteq> None" for q
  proof -
    consider "sp_live s q \<noteq> None" | "q \<in># pend [t]" "q \<notin> sp_reg s" using m l by (auto simp: moved_def)
    then show ?thesis
    proof cases
      case 1
      then have "q \<notin> releases t" using dead [of q] by auto
      then show ?thesis using S_live [OF 1] unfolding acq by blast
    next
      case 2
      have "q \<in> sp_reg s'" using not_registered_not_live [OF accD(2) [OF a'], of q] l by auto
      then have "q \<notin># pend new" using accD(6) [OF a', of q] by auto
      then have "q \<in> acquires t \<or> q \<in> unroutable_seqs v st"
        by (rule newly_live [OF ex 2(1) _ trows])
      moreover have "q \<notin> releases t" if "q \<in> acquires t" using that by (auto simp: acquires_def releases_def split: task.splits)
      ultimately show ?thesis using acq by blast
    qed
  qed
  have kept: "TOnCommit q \<in> set (go_tasks e1) \<or> TRelease q \<in> set (go_tasks e1)"
    if q: "q \<in> e_acquired e1" "q \<in> reported (e_commit e1) s' \<or> q \<in> sp_forced s'" for q
  proof -
    consider "TOnCommit q \<in> set new \<or> TRelease q \<in> set new" | "q \<in> reported (e_commit e) s \<or> q \<in> sp_forced s"
      using m q(2) by (auto simp: moved_def e1)
    then show ?thesis
    proof cases
      case 2
      then have "q \<in> sp_reg s" using forced_reg by (auto simp: reported_def)
      then have "q \<in> e_acquired e" using q(1) acq fresh by blast
      then have "TOnCommit q \<in> set (A @ t # B) \<or> TRelease q \<in> set (A @ t # B)"
        using S_kept [of q] 2 by (simp add: tasks(1))
      moreover have "t \<noteq> TOnCommit q" "t \<noteq> TRelease q" using q(1) acq by (auto simp: releases_def)
      ultimately show ?thesis by (auto simp: tasks(2))
    qed (auto simp: tasks(2))
  qed
  have rows: "\<forall>r\<in>set rs. r \<in> set (ms_spool st) \<and> row_pipeline r = ev_name v" if "TReplay rs \<in> set (go_tasks e1)" for rs
  proof (cases "TReplay rs \<in> set new")
    case True
    obtain r where "t = TReplay (r # rs)" using exec_replay_rows [OF ex go True] by blast
    then show ?thesis using trows by auto
  next
    case False
    then have "TReplay rs \<in> set (go_tasks e)" using that by (auto simp: tasks)
    then show ?thesis using S_rows by blast
  qed
  have "slots (go_tasks e1) = slots (go_tasks e) + slots new - task_slots t" by (simp add: tasks)
  then have "e_gate e1 = slots (go_tasks e1) + int (card (e_acquired e1))" using gate(1) S_gate(1) e1 by simp
  moreover have "e_acquired e1 \<subseteq> sp_reg s'" using acq acq_reg S_reg m by (auto simp: moved_def)
  moreover have "finite (e_acquired e1)" using acq fin by (auto simp: acquires_def split: task.split)
  moreover have "e_gate e1 \<le> o_HighWatermark (ev_opts v)" using gate(2) S_gate(2) e1 by simp
  ultimately show ?thesis unfolding slot_inv_def using live kept rows by blast
qed

lemma exec_scanned:
  assumes "exec v orc t e = Next e' new"
  shows "e_scanned e' = e_scanned e"
proof (cases t)
  case (TDispatch into node q msg)
  obtain e1 r where c: "engine_codec v (msg_Codec msg) e = (e1, r)" by fastforce
  have "e_scanned e1 = e_scanned e" using c by (auto simp: engine_codec_def split: option.splits sum.splits)
  then show ?thesis using TDispatch assms by (auto simp: dispatch_def Let_def c bump_def split: sum.splits if_splits)
next
  case (TFanOut node q msg)
  then show ?thesis using assms by (auto simp: fanOut_def commit_add_def Let_def bump_def split: prod.splits if_splits)
next
  case (TApply node i)
  then have pt: "processTransform v orc node i e = Next e' new" using assms(1) by simp
  obtain retries backoff where d: "deliveryOf (in_via i) = (retries, backoff)" by fastforce
  obtain res n where r: "retry_loop (or_apply orc) (halts orc (bump mt_TransformRuns_update 1 e)) retries = (res, n)"
    by fastforce
  have b: "e_scanned (bump f k x) = e_scanned x" for f k x by (simp add: bump_def)
  show ?thesis using pt unfolding processTransform_def d r Let_def prod.case
    by (cases res) (auto simp: b commit_add_def split: option.splits if_splits prod.splits)
next
  case (TWrite node ready)
  then have sw: "sinkWrite v orc node ready e = Next e' new" using assms(1) by simp
  obtain res n where r: "retry_loop (or_write orc (batch_timeout (o_DefaultTimeout (ev_opts v)) ready)
      (map in_msg ready)) (halts orc e) (batch_retries ready) = (res, n)" by fastforce
  have b: "e_scanned (bump f k x) = e_scanned x" for f k x by (simp add: bump_def)
  show ?thesis using sw unfolding sinkWrite_def Let_def r prod.case by (cases res) (auto simp: b)
next
  case (TReplay rows)
  then show ?thesis using assms by (cases rows) (auto simp: replay_row_def split: option.splits)
next
  case (TAbandonClear q)
  obtain t1 cb cleared where "forceTerminal q (e_commit e) = (t1, cb, cleared)" by (rule prod_cases3)
  then show ?thesis using assms TAbandonClear by (auto simp: abandon_clear_def)
next
  case (TAppend req)
  then show ?thesis using assms by (auto simp: admit_append_def Let_def bump_def split: if_splits prod.splits sum.splits)
qed (use assms in \<open>auto simp: admit_gate_def admit_register_def deliver_def commit_done_def abandon_scan_def
      abandon_one_def deadLetterMsg_def abandon_write_def write_dead_letter_def onCommit_def takeAccepted_def
      release_def bump_def Let_def split: if_splits prod.splits bool.splits\<close>)

lemma go_tasks_at: "e_gos e = xs @ (g, ts) # ys \<Longrightarrow> go_tasks e = concat (map snd xs) @ ts @ concat (map snd ys)"
  by (simp add: go_tasks_def)

lemma gos_upd [simp]: "env_toks (e\<lparr>e_gos := gs\<rparr>) = env_toks e" "logged (e\<lparr>e_gos := gs\<rparr>) = logged e"
  "go_tasks (e\<lparr>e_gos := gs\<rparr>) = concat (map snd gs)"
  by (simp_all add: env_toks_def logged_def go_tasks_def)

lemma live_exec:
  assumes gos: "e_gos e = xs @ (g, t # ts) # ys" and ex: "exec v orc t e = Next e' new"
    and l: "live_inv v st e s" and "0 < o_SpoolRetention (ev_opts v)"
  defines "e1 \<equiv> e'\<lparr>e_gos := xs @ (g, new @ ts) # ys\<rparr>"
  shows "\<exists>s'. live_inv v st e1 s'"
proof -
  let ?A = "concat (map snd xs)" and ?B = "ts @ concat (map snd ys)"
  have tasks: "go_tasks e = ?A @ t # ?B" "go_tasks e1 = ?A @ new @ ?B"
    using go_tasks_at [OF gos] by (simp_all add: e1_def)
  have L: "acc_inv e s" "durable_inv v e s" "slot_inv v st e s" "shape_inv e" "sp_base s = Checkpoint (ev_name v) st"
    using l by (auto simp: live_inv_def)
  have a: "acc (e_commit e) s (toks (?A @ t # ?B) + env_toks e) (pend (?A @ t # ?B)) (logged e) (ms_nextSeq (e_store e))"
    and hooks: "\<forall>u\<in>set (go_tasks e). hook_ok (e_commit e) s u"
    using L(1) by (simp_all add: acc_inv_def holders_def tasks)
  obtain s' where a': "acc (e_commit e') s' (toks (?A @ new @ ?B) + env_toks e') (pend (?A @ new @ ?B)) (logged e')
      (ms_nextSeq (e_store e'))" and m: "moved t new (e_commit e) s (e_commit e') s'"
    using exec_acc [OF ex a] by blast
  have go: "go_ok (t # ts)" using L(4) gos by (auto simp: shape_inv_def)
  have hook: "hook_ok (e_commit e) s t" using hooks tasks by simp
  have keep: "hook_ok (e_commit e') s' u" if "hook_ok (e_commit e) s u" for u
    using that m by (cases u) (auto simp: moved_def)
  have "acc_inv e1 s'"
  proof -
    have "hook_ok (e_commit e') s' u" if "u \<in> set (?A @ new @ ?B)" for u
    proof (cases "u \<in> set new")
      case True
      then show ?thesis using m by (simp add: moved_def)
    next
      case False
      then have "u \<in> set (go_tasks e)" using that unfolding tasks(1) by auto
      then show ?thesis using hooks keep by blast
    qed
    moreover have "env_toks e1 = env_toks e'" "logged e1 = logged e'" "e_commit e1 = e_commit e'" "e_store e1 = e_store e'"
      by (simp_all add: e1_def)
    moreover have "(q, Abandoned) \<in> set (e_log e')" if "q \<in> sp_forced s'" for q
    proof -
      from that m consider "q \<in> sp_forced s" | "TRelease q \<in> set new" unfolding moved_def by blast
      then show ?thesis
      proof cases
        case 1
        then have "(q, Abandoned) \<in> set (e_log e)" using L(1) by (simp add: acc_inv_def)
        then show ?thesis using exec_log(1) [OF ex] by blast
      qed (rule exec_log(2) [OF ex])
    qed
    moreover have "e_log e1 = e_log e'" by (simp add: e1_def)
    ultimately show ?thesis using a' unfolding acc_inv_def holders_def tasks by auto
  qed
  moreover have "durable_inv v e1 s'"
    by (rule durable_exec [OF ex L(2) assms(4) tasks _ _ _ hook m]) (simp_all add: e1_def)
  moreover have "slot_inv v st e1 s'"
    by (rule slot_exec [OF ex L(3) go tasks _ _ _ a a' m hook]) (simp_all add: e1_def)
  moreover have "shape_inv e1"
  proof -
    note sh = exec_shape [OF ex go] and S = L(4) [unfolded shape_inv_def tasks]
    have sc: "e_scanned e' = e_scanned e" by (rule exec_scanned [OF ex])
    have "\<forall>(h, us)\<in>set (xs @ (g, new @ ts) # ys). go_ok us" using S sh(1) by (auto simp: gos)
    moreover have "e_admitting e' = admit_ends (?A @ new @ ?B)" using S sh(2) by simp
    moreover have "replay_marks (?A @ new @ ?B) = (if e_scanned e' \<and> \<not> e_replayDone e' then 1 else 0)"
    proof (cases "t = TReplayDone")
      case True
      have "0 \<le> replay_marks ?A" "0 \<le> replay_marks ?B" by (rule counts_nonneg)+
      with True show ?thesis using S sh(3,4) sc by (auto split: if_splits)
    next
      case False
      then show ?thesis using S sh(3,4) sc by simp
    qed
    moreover have "e_replayDone e' \<longrightarrow> e_scanned e'"
    proof (cases "t = TReplayDone")
      case True
      have "0 \<le> replay_marks ?A" "0 \<le> replay_marks ?B" by (rule counts_nonneg)+
      with True show ?thesis using S sc by (auto split: if_splits)
    next
      case False
      then show ?thesis using S sh(3) sc by simp
    qed
    ultimately show ?thesis unfolding shape_inv_def tasks(2) by (simp add: e1_def)
  qed
  moreover have "sp_base s' = Checkpoint (ev_name v) st" using m L(5) by (simp add: moved_def)
  ultimately show ?thesis unfolding live_inv_def by blast
qed

lemma live_return:
  assumes gos: "e_gos e = xs @ (g, t # ts) # ys" and ex: "exec v orc t e = Return e' new"
    and l: "live_inv v st e s"
  defines "e1 \<equiv> e'\<lparr>e_gos := xs @ (g, new) # ys\<rparr>"
  shows "live_inv v st e1 s"
proof -
  let ?A = "concat (map snd xs)" and ?B = "concat (map snd ys)"
  have tasks: "go_tasks e = ?A @ t # ts @ ?B" "go_tasks e1 = ?A @ new @ ?B"
    using go_tasks_at [OF gos] by (simp_all add: e1_def)
  have L: "acc_inv e s" "durable_inv v e s" "slot_inv v st e s" "shape_inv e" "sp_base s = Checkpoint (ev_name v) st"
    using l by (auto simp: live_inv_def)
  have go: "go_ok (t # ts)" using L(4) gos by (auto simp: shape_inv_def)
  note r = exec_return [OF ex go]
  have quiet: "toks us = {#} \<and> slots us = 0 \<and> (\<forall>q. TOnCommit q \<notin> set us \<and> TRelease q \<notin> set us)"
    if "list_all quiet_task us" for us
    using that by (induction us) (auto simp: quiet_task_def)
  have hooks_quiet: "hook_ok (e_commit e) s u" if "quiet_task u" for u
    using that by (cases u) (auto simp: quiet_task_def)
  have lg: "e_log e1 = e_log e" using r by (simp add: e1_def)
  have fields: "env_toks e1 = env_toks e" "logged e1 = logged e" "e_commit e1 = e_commit e" "e_store e1 = e_store e"
    "e_acquired e1 = e_acquired e" "e_gate e1 = e_gate e - task_slots t" "e_admitting e1 = e_admitting e"
    "e_persistedThrough e1 = e_persistedThrough e" "e_replayDone e1 = e_replayDone e" "e_scanned e1 = e_scanned e"
    using r lg by (simp_all add: e1_def logged_def)
  have H: "holders e1 = holders e" using quiet [OF r(1)] quiet [OF r(2)] r(3)
    by (simp add: holders_def tasks fields)
  have P: "pend (go_tasks e1) \<subseteq># pend (go_tasks e)" unfolding tasks by (simp add: r(7))
  have "acc_inv e1 s"
  proof -
    have "\<forall>u\<in>set (go_tasks e1). hook_ok (e_commit e) s u"
      using L(1) r(2) hooks_quiet by (auto simp: acc_inv_def tasks list_all_iff)
    then show ?thesis using L(1) acc_mono [OF _ P] unfolding acc_inv_def H fields lg by blast
  qed
  moreover have "durable_inv v e1 s"
    using L(2) mset_subset_eqD [OF P] unfolding durable_inv_def fields by blast
  moreover have "slot_inv v st e1 s"
  proof -
    note S = L(3) [unfolded slot_inv_def]
    have "0 \<le> task_slots t" by (cases t) auto
    moreover have "TReplay rows \<in> set (go_tasks e)" if "TReplay rows \<in> set (go_tasks e1)" for rows
      using that no_return [OF ex] ex unfolding tasks
      by (auto simp: admit_gate_def admit_append_def abandon_scan_def abandon_one_def abandon_write_def Let_def
          split: if_splits prod.splits sum.splits bool.splits)
    moreover have "TOnCommit q \<in> set (go_tasks e1) \<longleftrightarrow> TOnCommit q \<in> set (go_tasks e)"
      "TRelease q \<in> set (go_tasks e1) \<longleftrightarrow> TRelease q \<in> set (go_tasks e)" for q
      using quiet [OF r(1)] quiet [OF r(2)] r(4,5) unfolding tasks by auto
    moreover have "slots (go_tasks e1) = slots (go_tasks e) - task_slots t"
      using quiet [OF r(1)] quiet [OF r(2)] unfolding tasks by simp
    ultimately show ?thesis using S unfolding slot_inv_def fields by simp blast
  qed
  moreover have "shape_inv e1"
  proof -
    have "\<forall>(h, us)\<in>set (xs @ (g, new) # ys). go_ok us" using L(4) r(6) by (auto simp: gos shape_inv_def)
    then show ?thesis using L(4) r(8,9) unfolding shape_inv_def fields tasks by (simp add: e1_def)
  qed
  ultimately show ?thesis using L(5) unfolding live_inv_def by blast
qed

section \<open>Steps of the environment\<close>

text \<open>A new goroutine that registers nothing and reports nothing, and that holds the branches it took
  from the queues.\<close>

lemma live_spawn:
  assumes l: "live_inv v st e s"
    and same: "e_commit e' = e_commit e" "e_store e' = e_store e" "e_log e' = e_log e" "e_gos e' = e_gos e"
      "e_persistedThrough e' = e_persistedThrough e" "e_gate e' = e_gate e" "e_acquired e' = e_acquired e"
      "e_scanned e' = e_scanned e" "e_replayDone e' = e_replayDone e"
    and toks: "toks ts + env_toks e' = env_toks e" and adm: "e_admitting e' = e_admitting e + admit_ends ts"
    and ts: "pend ts = {#}" "hook_tasks ts = []" "slots ts = 0" "replay_marks ts = 0" "go_ok ts"
  shows "live_inv v st (spawn g ts e') s"
proof -
  let ?e = "spawn g ts e'"
  have tasks: "go_tasks ?e = ts @ go_tasks e" by (simp add: spawn_def go_tasks_def same)
  have fields: "env_toks ?e = env_toks e'" "logged ?e = logged e" "e_commit ?e = e_commit e" "e_store ?e = e_store e"
    "e_acquired ?e = e_acquired e" "e_gate ?e = e_gate e" "e_admitting ?e = e_admitting e + admit_ends ts"
    "e_persistedThrough ?e = e_persistedThrough e" "e_replayDone ?e = e_replayDone e" "e_scanned ?e = e_scanned e"
    "e_gos ?e = (g, ts) # e_gos e"
    by (simp_all add: spawn_def same adm logged_def)
  have lg: "e_log ?e = e_log e" by (simp add: spawn_def same)
  have H: "holders ?e = holders e" unfolding holders_def tasks fields toks [symmetric] by (simp add: ac_simps)
  have hk: "hook_ok t s u" if "u \<in> set ts" for t u using that hook_ok_tasks [of ts t s] ts(2) by simp
  have no: "TOnCommit q \<notin> set ts" "TRelease q \<notin> set ts" for q using in_hook_tasks [of q ts] ts(2) by auto
  have rp: "TReplay rows \<notin> set ts" for rows using TReplay_mark [of rows ts] ts(4) by auto
  have "acc_inv ?e s" using l hk unfolding live_inv_def acc_inv_def H fields tasks lg by (simp add: ts) blast
  moreover have "durable_inv v ?e s" using l unfolding live_inv_def durable_inv_def fields tasks by (simp add: ts)
  moreover have "slot_inv v st ?e s"
    using l no rp unfolding live_inv_def slot_inv_def fields tasks by (simp add: ts)
  moreover have "shape_inv ?e" using l ts unfolding live_inv_def shape_inv_def fields tasks by auto
  ultimately show ?thesis using l unfolding live_inv_def by blast
qed

lemma live_same:
  assumes l: "live_inv v st e s"
    and same: "e_commit e' = e_commit e" "e_store e' = e_store e" "e_log e' = e_log e" "e_gos e' = e_gos e"
      "e_persistedThrough e' = e_persistedThrough e" "e_gate e' = e_gate e" "e_acquired e' = e_acquired e"
      "e_scanned e' = e_scanned e" "e_replayDone e' = e_replayDone e" "e_admitting e' = e_admitting e"
      "env_toks e' = env_toks e"
  shows "live_inv v st e' s"
proof -
  have fields: "go_tasks e' = go_tasks e" "logged e' = logged e" "holders e' = holders e"
    by (simp_all add: go_tasks_def logged_def holders_def same)
  show ?thesis using l unfolding live_inv_def acc_inv_def durable_inv_def slot_inv_def shape_inv_def fields same .
qed

lemma take_queued_mset:
  "take_queued n is = Some (i, rest) \<Longrightarrow> mset is = add_mset i (mset rest) \<and> in_node i = n"
  by (induction "is" arbitrary: rest) (auto split: if_splits)

lemma live_transform:
  assumes l: "live_inv v st e s" and r: "transform_recv n k e = Some e'"
  shows "live_inv v st e' s"
proof -
  obtain i rest where q: "take_queued n (e_queued e) = Some (i, rest)"
    and e': "e' = spawn (WorkerG n k) [TApply n i] (e\<lparr>e_queued := rest\<rparr>)"
    using r by (auto simp: transform_recv_def split: option.splits)
  have m: "mset (e_queued e) = add_mset i (mset rest)" using take_queued_mset [OF q] by simp
  show ?thesis unfolding e'
    by (rule live_spawn [OF l]) (simp_all add: env_toks_def m)
qed

lemma live_flush:
  assumes l: "live_inv v st e s" and n: "node_section_is v sct n"
  shows "live_inv v st (sink_flush v n e) s"
proof (cases "pending_batch n e = []")
  case True
  then show ?thesis using l by (simp add: sink_flush_def Let_def)
next
  case False
  let ?e1 = "e\<lparr>e_batched := filter (\<lambda>i. in_node i \<noteq> n) (e_batched e)\<rparr>"
  obtain e2 ts where w: "writeBatch v n (pending_batch n e) ?e1 = (e2, ts)" by fastforce
  note t = writeBatch_toks [OF w n] and pl = plain_list [OF plain_writeBatch [OF w]]
  have parts: "mset (map in_seq (e_batched e)) = mset (map in_seq (pending_batch n e))
      + mset (map in_seq (filter (\<lambda>i. in_node i \<noteq> n) (e_batched e)))"
    unfolding pending_batch_def mset_map image_mset_union [symmetric] by (simp add: multiset_partition [symmetric])
  have e2: "env_toks e2 = mset (map in_seq (e_queued e))
      + mset (map in_seq (filter (\<lambda>i. in_node i \<noteq> n) (e_batched e))) + mset (e_dropped e)"
    by (subst t(4)) (simp add: env_toks_def)
  have env: "toks ts + env_toks e2 = env_toks e"
    unfolding t(1) e2 env_toks_def [of e] parts by (simp only: ac_simps)
  have fr: "e_commit e2 = e_commit e" "e_store e2 = e_store e" "e_log e2 = e_log e" "e_gos e2 = e_gos e"
    "e_persistedThrough e2 = e_persistedThrough e" "e_gate e2 = e_gate e" "e_acquired e2 = e_acquired e"
    "e_scanned e2 = e_scanned e" "e_replayDone e2 = e_replayDone e" and fr2: "e_admitting e2 = e_admitting e"
    by (subst t(4), simp)+
  have "live_inv v st (spawn (SinkG n) ts e2) s"
    by (rule live_spawn [OF l fr env]) (use t(2,3) pl(1) [of "[]"] pl(2-4) fr2 in simp_all)
  then show ?thesis using False w by (simp add: sink_flush_def Let_def)
qed

lemma live_sink:
  assumes l: "live_inv v st e s" and n: "node_section_is v sct n" and r: "sink_recv v n e = Some e'"
  shows "live_inv v st e' s"
proof -
  obtain i rest where q: "take_queued n (e_queued e) = Some (i, rest)"
    and e': "e' = (let e1 = e\<lparr>e_queued := rest, e_batched := e_batched e @ [i]\<rparr>
       in if int (length (pending_batch n e1)) \<ge> batch_size v n then sink_flush v n e1 else e1)"
    using r by (auto simp: sink_recv_def Let_def split: option.splits)
  have m: "mset (e_queued e) = add_mset i (mset rest)" using take_queued_mset [OF q] by simp
  have "live_inv v st (e\<lparr>e_queued := rest, e_batched := e_batched e @ [i]\<rparr>) s"
    by (rule live_same [OF l]) (simp_all add: env_toks_def m)
  then show ?thesis unfolding e' Let_def using live_flush [OF _ n] by simp
qed

lemma live_begin:
  assumes l: "live_inv v st e s" and "ar_mode req \<noteq> AdmitReplay"
  shows "live_inv v st (begin_admission req e) s"
  unfolding begin_admission_def
  by (rule live_spawn [OF l]) (use assms(2) in \<open>simp_all add: env_toks_def quiet_task_def\<close>)

lemma live_step:
  assumes st: "engine_step v early e e'" and l: "live_inv v st0 e s" and sc: "e_scanned e"
    and "0 < o_SpoolRetention (ev_opts v)"
  shows "\<exists>s'. live_inv v st0 e' s' \<and> e_scanned e'"
proof -
  have scanned: "e_scanned x" if "live_inv v st0 x s'" "e_scanned x" for x s' using that(2) .
  have flush_scanned: "e_scanned (sink_flush v n x) = e_scanned x" for n x
  proof -
    have "e_scanned y = e_scanned z" if "writeBatch v n is z = (y, ts)" for y z ts "is"
      using that by (auto simp: writeBatch_def engine_codec_def split: option.splits sum.splits prod.splits)
    then show ?thesis by (auto simp: sink_flush_def Let_def spawn_def split: prod.splits)
  qed
  show ?thesis using st
  proof cases
    case es_run
    then have "live_inv v st0 e' s" "e_scanned e'"
      using sc live_same [OF l] by (auto simp: run_start_def env_toks_def split: if_splits)
    then show ?thesis by blast
  next
    case (es_replay orc)
    then show ?thesis using sc by simp
  next
    case es_sources
    then have "live_inv v st0 e' s" "e_scanned e'"
      using sc live_same [OF l] by (auto simp: startSources_def Let_def env_toks_def)
    then show ?thesis by blast
  next
    case (es_emit n msg)
    then have "live_inv v st0 e' s" "e_scanned e'"
      using sc live_begin [OF l] by (auto simp: accept_def begin_admission_def spawn_def)
    then show ?thesis by blast
  next
    case (es_inject n msg)
    then have "live_inv v st0 e' s" "e_scanned e'"
      using sc live_begin [OF l] by (auto simp: injectAt_def begin_admission_def spawn_def split: if_splits)
    then show ?thesis by blast
  next
    case (es_transform n k)
    then have "e_scanned e'" using sc by (auto simp: transform_recv_def spawn_def split: option.splits)
    then show ?thesis using live_transform [OF l es_transform(5)] by blast
  next
    case (es_sink n)
    then have "e_scanned e'"
      using sc by (auto simp: sink_recv_def Let_def flush_scanned split: option.splits if_splits)
    then show ?thesis using live_sink [OF l es_sink(1,4)] by blast
  next
    case (es_tick n)
    then show ?thesis using live_flush [OF l es_tick(2)] sc flush_scanned by auto
  next
    case (es_sink_stop n)
    have "live_inv v st0 e' s" unfolding es_sink_stop(1)
      by (rule live_same [OF live_flush [OF l es_sink_stop(2)]]) (simp_all add: exit_worker_def env_toks_def)
    then show ?thesis using sc flush_scanned es_sink_stop(1) by (auto simp: exit_worker_def)
  next
    case (es_worker_stop n k)
    have "live_inv v st0 e' s" unfolding es_worker_stop(1)
      by (rule live_same [OF l]) (simp_all add: exit_worker_def env_toks_def)
    then show ?thesis using sc es_worker_stop(1) by (auto simp: exit_worker_def)
  next
    case (es_source_returned n err)
    have "live_inv v st0 e' s" unfolding es_source_returned(1)
      by (rule live_same [OF l]) (auto simp: sourceReturned_def cancel_def markSourceDone_def env_toks_def)
    then show ?thesis using sc es_source_returned(1) by (auto simp: sourceReturned_def cancel_def markSourceDone_def)
  next
    case (es_fail n err)
    have "live_inv v st0 e' s" unfolding es_fail(1)
      by (rule live_same [OF l]) (auto simp: failNode_def cancel_def env_toks_def)
    then show ?thesis using sc es_fail(1) by (auto simp: failNode_def cancel_def)
  next
    case es_close
    have "live_inv v st0 e' s" unfolding es_close(1)
      by (rule live_same [OF l]) (auto simp: Close_def cancel_def env_toks_def)
    then show ?thesis using sc es_close(1) by (auto simp: Close_def cancel_def)
  next
    case (es_abandon reason)
    have "live_inv v st0 e' s" unfolding es_abandon(1) Abandon_def
      by (rule live_spawn [OF l]) simp_all
    then show ?thesis using sc es_abandon(1) by (auto simp: Abandon_def spawn_def)
  next
    case (es_exec xs g t ts ys orc e1 new)
    from live_exec [OF es_exec(2,3) l assms(4)] obtain s' where "live_inv v st0 e' s'" unfolding es_exec(1) by blast
    moreover have "e_scanned e'" using exec_scanned [OF es_exec(3)] sc es_exec(1) by simp
    ultimately show ?thesis by blast
  next
    case (es_return xs g t ts ys orc e1 new)
    have go: "go_ok (t # ts)" using l es_return(2) by (auto simp: live_inv_def shape_inv_def)
    have "live_inv v st0 e' s" unfolding es_return(1) by (rule live_return [OF es_return(2,3) l])
    moreover have "e_scanned e'" using exec_return(12) [OF es_return(3) go] sc es_return(1) by simp
    ultimately show ?thesis by blast
  qed
qed

section \<open>Before the crash replay has read its rows\<close>

definition env_ok :: "engine_env \<Rightarrow> memStore \<Rightarrow> bool" where
  "env_ok v st \<longleftrightarrow> mem_inv st \<and> 0 \<le> Checkpoint (ev_name v) st \<and> Checkpoint (ev_name v) st \<le> ms_nextSeq st
     \<and> 0 < o_SpoolRetention (ev_opts v) \<and> 0 \<le> o_HighWatermark (ev_opts v)"

fun idle_task :: "task \<Rightarrow> bool" where
  "idle_task (TAbandonScan _ _) = True"
| "idle_task (TAbandonNext _ _ _ _) = True"
| "idle_task _ = False"

definition pre_inv :: "engine_env \<Rightarrow> memStore \<Rightarrow> engine \<Rightarrow> bool" where
  "pre_inv v st e \<longleftrightarrow> \<not> e_scanned e \<and> \<not> e_replayDone e \<and> \<not> e_srcStart e \<and>
     e_commit e = newCommitTracker (source_names v) \<and> e_store e = st \<and>
     list_all idle_task (go_tasks e) \<and> (\<forall>(g, ts)\<in>set (e_gos e). go_ok ts) \<and>
     e_queued e = [] \<and> e_batched e = [] \<and> e_dropped e = [] \<and> e_log e = [] \<and> e_gate e = 0 \<and>
     e_acquired e = {} \<and> e_admitting e = 0 \<and> e_persistedThrough e = 0"

lemma idle_tasks_hold_nothing:
  assumes "list_all idle_task ts"
  shows "toks ts = {#}" "pend ts = {#}" "hook_tasks ts = []" "slots ts = 0" "admit_ends ts = 0" "replay_marks ts = 0"
proof -
  have h: "idle_task t \<Longrightarrow> task_seqs t = [] \<and> pend_seqs t = [] \<and> task_hook t = [] \<and> task_slots t = 0
      \<and> t \<noteq> TAdmitEnd \<and> \<not> is_replay t" for t by (cases t) auto
  show "toks ts = {#}" "pend ts = {#}" "hook_tasks ts = []" "slots ts = 0" "admit_ends ts = 0" "replay_marks ts = 0"
    using assms by (induction ts) (auto dest: h)
qed

lemma scan_finds_nothing:
  assumes "outstanding t = Map.empty"
  shows "fst (visit_rows (collect_outstanding t) rows lst found) = found"
  using assms by (induction rows arbitrary: lst) (auto simp: collect_outstanding_def isOutstanding_def)

lemma idle_exec:
  assumes "exec v orc t e = Next e' new" and "idle_task t" and "outstanding (e_commit e) = Map.empty"
  shows "e' = e \<and> list_all idle_task new"
proof (cases t)
  case (TAbandonScan after reason)
  have f: "fst (visit_rows (collect_outstanding (e_commit e)) rows lst []) = []" for rows lst
    by (rule scan_finds_nothing [OF assms(3)])
  obtain rows full where w: "spoolWindow (ev_name v) after 256 (e_store e) = (rows, full)" by fastforce
  obtain found lst err where vr: "visit_rows (collect_outstanding (e_commit e)) rows after [] = (found, lst, err)"
    by (rule prod_cases3)
  then have "found = []" using f [of rows after] by simp
  then show ?thesis using assms(1) TAbandonScan w vr
    by (auto simp: abandon_scan_def ReplayPage_def split: if_splits option.splits)
qed (use assms in auto)

lemma idle_return:
  assumes "exec v orc t e = Return e' new" and "idle_task t"
  shows "e' = e \<and> new = []"
  using assms by (cases t) (auto simp: abandon_scan_def split: if_splits prod.splits)

lemma replay_rows_facts:
  assumes "mem_inv st" and "r \<in> set (rows_after p cp st)"
  shows "cp < row_seq r" "row_seq r \<le> ms_nextSeq st" "r \<in> set (ms_spool st)" "row_pipeline r = p"
  using assms by (auto simp: rows_after_def mem_inv_def)

lemma rows_after_distinct: "mem_inv st \<Longrightarrow> distinct (map row_seq (rows_after p cp st))"
  using sorted_wrt_less_filter [of row_seq "ms_spool st" "\<lambda>r. row_pipeline r = p \<and> cp < row_seq r"]
  unfolding mem_inv_def rows_after_def by (simp add: strict_sorted_iff)

text \<open>The replay takes over: the rows above the checkpoint are waiting, nothing else is under way.\<close>

lemma live_start:
  assumes ok: "env_ok v st" and pre: "pre_inv v st e" and "or_err orc = None"
  shows "live_inv v st (replaySpool v orc e) (sp_init (Checkpoint (ev_name v) st))"
proof -
  let ?cp = "Checkpoint (ev_name v) st" and ?e = "replaySpool v orc e"
  let ?rows = "rows_after (ev_name v) ?cp st"
  have inv: "mem_inv st" and cp: "0 \<le> ?cp" "?cp \<le> ms_nextSeq st" and hw: "0 \<le> o_HighWatermark (ev_opts v)"
    using ok by (auto simp: env_ok_def)
  note P = pre [unfolded pre_inv_def]
  note idle = idle_tasks_hold_nothing [of "go_tasks e"]
  have "length ?rows \<le> length (ms_spool st)" by (simp add: rows_after_def)
  then have rows: "fst (spoolWindow (ev_name v) ?cp (int (length (ms_spool st))) st) = ?rows"
    using spoolWindow_spec(1) [OF inv, of "ev_name v" ?cp "int (length (ms_spool st))"] by simp
  have e: "?e = spawn ReplayG [TReplay ?rows] ((resumeCheckpoint ?cp e)\<lparr>e_scanned := True\<rparr>)"
    using P assms(3) by (simp add: replaySpool_def Let_def rows)
  have res: "e_commit (resumeCheckpoint ?cp e) = resumeFrom ?cp (newCommitTracker (source_names v))"
    "e_persistedThrough (resumeCheckpoint ?cp e) = ?cp"
    using P cp by (auto simp: resumeCheckpoint_def resumeFrom_def newCommitTracker_def)
  have keep: "e_store (resumeCheckpoint ?cp e) = st" "e_gos (resumeCheckpoint ?cp e) = e_gos e"
    "e_log (resumeCheckpoint ?cp e) = []" "env_toks (resumeCheckpoint ?cp e) = {#}"
    "e_gate (resumeCheckpoint ?cp e) = 0" "e_acquired (resumeCheckpoint ?cp e) = {}"
    "e_admitting (resumeCheckpoint ?cp e) = 0" "e_replayDone (resumeCheckpoint ?cp e) = False"
    using P by (auto simp: resumeCheckpoint_def env_toks_def)
  have tasks: "go_tasks ?e = TReplay ?rows # go_tasks e" unfolding e by (simp add: spawn_def go_tasks_def keep)
  have fields: "e_commit ?e = resumeFrom ?cp (newCommitTracker (source_names v))" "e_store ?e = st"
    "e_persistedThrough ?e = ?cp" "e_gate ?e = 0" "e_acquired ?e = {}" "e_admitting ?e = 0"
    "e_replayDone ?e = False" "e_scanned ?e" "logged ?e = {}" "env_toks ?e = {#}"
    "e_gos ?e = (ReplayG, [TReplay ?rows]) # e_gos e"
    unfolding e using res keep by (simp_all add: spawn_def logged_def env_toks_def)
  have quiet: "toks (go_tasks e) = {#}" "pend (go_tasks e) = {#}" "hook_tasks (go_tasks e) = []"
    "slots (go_tasks e) = 0" "admit_ends (go_tasks e) = 0" "replay_marks (go_tasks e) = 0"
    using idle P by blast+
  note start = sim_start [OF cp(1), of "source_names v"]
  have pend: "pend (go_tasks ?e) = mset (map row_seq ?rows)" by (simp add: tasks quiet)
  have acc: "acc (e_commit ?e) (sp_init ?cp) (holders ?e) (pend (go_tasks ?e)) (logged ?e) (ms_nextSeq (e_store ?e))"
  proof -
    have "holders ?e = {#}" by (simp add: holders_def tasks quiet fields)
    moreover have "count (mset (map row_seq ?rows)) q \<le> 1" for q
      using rows_after_distinct [OF inv, of "ev_name v" ?cp] by (simp only: distinct_count_atmost_1) simp
    ultimately show ?thesis
      using start cp replay_rows_facts [OF inv] unfolding acc_def fields pend
      by (auto simp: sp_init_def)
  qed
  have hk: "\<forall>u\<in>set (go_tasks ?e). hook_ok (e_commit ?e) (sp_init ?cp) u"
    using hook_ok_tasks [of "go_tasks e"] quiet(3) by (simp add: tasks)
  have "durable_inv v ?e (sp_init ?cp)"
    using inv unfolding durable_inv_def fields pend
    by (auto simp: sp_init_def resumeFrom_def newCommitTracker_def Let_def stored_seqs_def rows_after_def)
  moreover have "slot_inv v st ?e (sp_init ?cp)"
    using hw TReplay_mark [of _ "go_tasks e"] quiet(6) unfolding slot_inv_def fields tasks
    by (auto simp: sp_init_def quiet rows_after_def)
  moreover have "shape_inv ?e" using P quiet fields(8) unfolding shape_inv_def fields(1-7,9-11) tasks by auto
  ultimately show ?thesis
    using acc hk unfolding live_inv_def acc_inv_def by (simp add: sp_init_def)
qed

definition engine_inv :: "engine_env \<Rightarrow> memStore \<Rightarrow> engine \<Rightarrow> bool" where
  "engine_inv v st e \<longleftrightarrow> pre_inv v st e \<or> e_scanned e \<and> (\<exists>s. live_inv v st e s)"

lemma new_nodes_frame: "new_nodes v mk ns e = Inr e' \<Longrightarrow> e' = e\<lparr>e_codecs := e_codecs e'\<rparr>"
proof (induction ns arbitrary: e)
  case (Cons n ns)
  have codec: "e1 = e\<lparr>e_codecs := e_codecs e1\<rparr>" if "engine_codec v name e = (e1, r)" for name e1 r
    using that by (auto simp: engine_codec_def split: option.splits sum.splits)
  have trans: "e' = e\<lparr>e_codecs := e_codecs e'\<rparr>"
    if "e1 = e\<lparr>e_codecs := e_codecs e1\<rparr>" "e' = e1\<lparr>e_codecs := e_codecs e'\<rparr>" for e1
    by (subst that(2), subst that(1)) simp
  have step: "\<exists>e1. e1 = e\<lparr>e_codecs := e_codecs e1\<rparr> \<and> new_nodes v mk ns e1 = Inr e'"
  proof (cases "the_node (ev_ir v) n")
    case None
    then show ?thesis using Cons.prems by (intro exI [of _ e]) simp
  next
    case (Some nd)
    show ?thesis
    proof (cases "cn_Section (nd_Config nd)")
      case SectionTransform
      then show ?thesis using Cons.prems Some by (intro exI [of _ e]) (auto simp: Let_def split: option.splits)
    next
      case SectionSource
      obtain e1 r where c: "engine_codec v (cn_Decoder (nd_Config nd)) e = (e1, r)" by fastforce
      then show ?thesis using Cons.prems Some SectionSource codec [OF c]
        by (intro exI [of _ e1]) (auto simp: Let_def split: option.splits sum.splits)
    next
      case SectionSink
      obtain e1 r where c: "engine_codec v (cn_Encoder (nd_Config nd)) e = (e1, r)" by fastforce
      then show ?thesis using Cons.prems Some SectionSink codec [OF c]
        by (intro exI [of _ e1]) (auto simp: Let_def split: option.splits sum.splits)
    qed
  qed
  then show ?case using Cons.IH trans by blast
qed simp

lemma engine_init_inv:
  assumes "engine_init v st e"
  shows "engine_inv v st e"
proof -
  obtain mk where "new_nodes v mk (p_Order (ev_ir v)) (fresh_engine v st) = Inr e"
    using assms by (auto simp: engine_init_def newEngine_def)
  from new_nodes_frame [OF this] obtain c where e: "e = (fresh_engine v st)\<lparr>e_codecs := c\<rparr>" by blast
  have "pre_inv v st e" unfolding e pre_inv_def by (simp add: fresh_engine_def go_tasks_def)
  then show ?thesis by (simp add: engine_inv_def)
qed

lemma pre_update:
  assumes "pre_inv v st e"
    and "e_scanned e' = e_scanned e" "e_replayDone e' = e_replayDone e" "e_srcStart e' = e_srcStart e"
      "e_commit e' = e_commit e" "e_store e' = e_store e" "e_queued e' = e_queued e" "e_batched e' = e_batched e"
      "e_dropped e' = e_dropped e" "e_log e' = e_log e" "e_gate e' = e_gate e" "e_acquired e' = e_acquired e"
      "e_admitting e' = e_admitting e" "e_persistedThrough e' = e_persistedThrough e"
    and "list_all idle_task (go_tasks e')" "\<forall>(g, ts)\<in>set (e_gos e'). go_ok ts"
  shows "pre_inv v st e'"
  using assms unfolding pre_inv_def by simp

lemma pre_step:
  assumes st: "engine_step v False e e'" and pre: "pre_inv v st0 e" and ok: "env_ok v st0"
  shows "engine_inv v st0 e'"
proof -
  note P = pre [unfolded pre_inv_def]
  have go: "list_all idle_task (go_tasks e)" "\<forall>(g, ts)\<in>set (e_gos e). go_ok ts" using P by blast+
  have same: "pre_inv v st0 e1" if "e_gos e1 = e_gos e" "e_scanned e1 = e_scanned e" "e_replayDone e1 = e_replayDone e"
      "e_srcStart e1 = e_srcStart e" "e_commit e1 = e_commit e" "e_store e1 = e_store e" "e_queued e1 = e_queued e"
      "e_batched e1 = e_batched e" "e_dropped e1 = e_dropped e" "e_log e1 = e_log e" "e_gate e1 = e_gate e"
      "e_acquired e1 = e_acquired e" "e_admitting e1 = e_admitting e"
      "e_persistedThrough e1 = e_persistedThrough e" for e1
    by (rule pre_update [OF pre that(2-)]) (use that(1) go in \<open>simp_all add: go_tasks_def\<close>)
  have flush: "sink_flush v n e = e" for n using P by (simp add: sink_flush_def pending_batch_def Let_def)
  have "pre_inv v st0 e' \<or> e_scanned e' \<and> (\<exists>s. live_inv v st0 e' s)" using st
  proof cases
    case es_run
    then show ?thesis using same by (auto simp: run_start_def split: if_splits)
  next
    case (es_replay orc)
    show ?thesis
    proof (cases "or_err orc")
      case None
      then show ?thesis using live_start [OF ok pre None] es_replay(1)
        by (auto simp: replaySpool_def Let_def spawn_def)
    next
      case (Some err)
      then have "pre_inv v st0 e'" unfolding es_replay(1) by (intro same) (simp_all add: replaySpool_def cancel_def)
      then show ?thesis ..
    qed
  next
    case (es_sink n)
    then show ?thesis using P by (simp add: sink_recv_def)
  next
    case (es_transform n k)
    then show ?thesis using P by (simp add: transform_recv_def)
  next
    case (es_tick n)
    then show ?thesis using pre flush by simp
  next
    case (es_sink_stop n)
    then have "pre_inv v st0 e'" unfolding es_sink_stop(1) flush by (intro same) (simp_all add: exit_worker_def)
    then show ?thesis ..
  next
    case (es_worker_stop n k)
    then have "pre_inv v st0 e'" unfolding es_worker_stop(1) by (intro same) (simp_all add: exit_worker_def)
    then show ?thesis ..
  next
    case (es_fail n err)
    then have "pre_inv v st0 e'" unfolding es_fail(1) by (intro same) (auto simp: failNode_def cancel_def)
    then show ?thesis ..
  next
    case es_close
    then have "pre_inv v st0 e'" unfolding es_close(1) by (intro same) (auto simp: Close_def cancel_def)
    then show ?thesis ..
  next
    case (es_abandon reason)
    have "pre_inv v st0 e'" unfolding es_abandon(1) Abandon_def
      by (rule pre_update [OF pre]) (use go in \<open>auto simp: spawn_def go_tasks_def\<close>)
    then show ?thesis ..
  next
    case (es_exec xs g t ts ys orc e1 new)
    have t: "idle_task t" using go(1) go_tasks_at [OF es_exec(2)] by simp
    have out: "outstanding (e_commit e) = Map.empty" using P by (simp add: newCommitTracker_def)
    have okt: "go_ok (t # ts)" using go(2) es_exec(2) by auto
    note ie = idle_exec [OF es_exec(3) t out]
    have gn: "go_ok (new @ ts)" by (rule exec_shape(1) [OF es_exec(3) okt])
    have "pre_inv v st0 e'" unfolding es_exec(1)
      by (rule pre_update [OF pre]) (use ie gn go es_exec(2) go_tasks_at [OF es_exec(2)] in auto)
    then show ?thesis ..
  next
    case (es_return xs g t ts ys orc e1 new)
    have t: "idle_task t" using go(1) go_tasks_at [OF es_return(2)] by simp
    note ie = idle_return [OF es_return(3) t]
    have "pre_inv v st0 e'" unfolding es_return(1)
      by (rule pre_update [OF pre]) (use ie go es_return(2) go_tasks_at [OF es_return(2)] in auto)
    then show ?thesis ..
  qed (use P in simp_all)
  then show ?thesis by (simp add: engine_inv_def)
qed

interpretation engine_run: inductive_invariant "engine_init v st" "engine_step v False"
  "\<lambda>e. env_ok v st \<longrightarrow> engine_inv v st e" for v st
proof (unfold_locales, goal_cases)
  case (1 e)
  then show ?case by (simp add: engine_init_inv)
next
  case (2 e e')
  show ?case
  proof
    assume ok: "env_ok v st"
    then have inv: "engine_inv v st e" and span: "0 < o_SpoolRetention (ev_opts v)"
      using 2(2) by (simp_all add: env_ok_def)
    from inv show "engine_inv v st e'" unfolding engine_inv_def [of v st e]
    proof (elim disjE conjE exE)
      assume "pre_inv v st e"
      then show ?thesis by (rule pre_step [OF 2(1) _ ok])
    next
      fix s assume "e_scanned e" "live_inv v st e s"
      then show ?thesis using live_step [OF 2(1) _ _ span] by (auto simp: engine_inv_def)
    qed
  qed
qed

text \<open>The form the properties use: once the replay has read its rows, the books balance.\<close>

lemma engine_books:
  assumes "engine_reachable v st e" and "env_ok v st" and "e_scanned e"
  obtains s where "live_inv v st e s"
proof -
  have "engine_inv v st e" using engine_run.reachable_inv [OF assms(1)] assms(2) by simp
  then show thesis using assms(3) that by (auto simp: engine_inv_def pre_inv_def)
qed

end
