(* ===== verification/EngineProps.thy ===== *)
theory EngineProps
  imports EngineInv
begin

text \<open>
  What the engine promises. Crash safety, the branch accounts, backpressure and the completion test
  hold in every reachable state of a run that starts on any store and in which no message is
  injected before the crash replay has read its rows; the last properties show what the
  persistence of the checkpoint and a refused admission do, and what an early injection breaks.
\<close>

section \<open>Reading the books\<close>

lemma live_books:
  assumes "live_inv v st e s"
  shows "acc (e_commit e) s (holders e) (pend (go_tasks e)) (logged e) (ms_nextSeq (e_store e))"
    "q \<in> sp_forced s \<Longrightarrow> (q, Abandoned) \<in> set (e_log e)"
    "mem_inv (e_store e)" "Checkpoint (ev_name v) (e_store e) = e_persistedThrough e"
    "e_persistedThrough e \<le> committedThrough (e_commit e)"
    "q \<in> sp_reg s \<or> q \<in># pend (go_tasks e) \<Longrightarrow> e_persistedThrough e < q
       \<Longrightarrow> q \<in> stored_seqs (ev_name v) (e_store e)"
    "sp_base s = Checkpoint (ev_name v) st"
  using assms by (auto simp: live_inv_def acc_inv_def durable_inv_def)

text \<open>A message in flight that was not abandoned is above the tracker's cursor.\<close>

lemma in_flight_above:
  assumes l: "live_inv v st e s" and q: "q \<in># holders e" "(q, Abandoned) \<notin> set (e_log e)"
  shows "committedThrough (e_commit e) < q" "q \<in> sp_reg s" "q \<notin> sp_forced s"
proof -
  note a = live_books(1) [OF l]
  show reg: "q \<in> sp_reg s" by (rule accD(3) [OF a q(1)])
  show nf: "q \<notin> sp_forced s" using live_books(2) [OF l] q(2) by blast
  have "sp_live s q \<noteq> None" using accD(4) [OF a reg nf] q(1) by (simp add: count_eq_zero_iff)
  then have "\<not> sp_terminal s q" by (simp add: sp_terminal_def)
  moreover have "sp_base s < q" by (rule sim_baseD(6) [OF accD(2) [OF a] reg])
  ultimately show "committedThrough (e_commit e) < q"
    using sim_terminal_below [OF accD(2) [OF a]] by (meson not_less zle_diff1_eq)
qed

lemma waiting_above:
  assumes l: "live_inv v st e s" and q: "q \<in># pend (go_tasks e)"
  shows "committedThrough (e_commit e) < q"
proof -
  note a = live_books(1) [OF l]
  have "sp_base s < q" "q \<notin> sp_reg s" using accD(6) [OF a q] by auto
  then show ?thesis using sim_baseD(7) [OF accD(2) [OF a], of q] by (meson not_less zle_diff1_eq)
qed

lemma stored_is_replayed:
  assumes "q \<in> stored_seqs p st" and "cp < q"
  shows "q \<in> row_seq ` set (rows_after p cp st)"
  using assms by (auto simp: stored_seqs_def rows_after_def)

section \<open>A small engine for the witnesses\<close>

definition demo_opts :: options where
  "demo_opts = \<lparr>o_BackoffBase = 1, o_DLBackoff = 1, o_HighWatermark = 2, o_ChannelSize = 1, o_BatchFlush = 1,
     o_DefaultTimeout = 1, o_DrainTimeout = 1, o_SpoolRetention = 10, o_DLQRetention = 0,
     o_SourceCounterInterval = 1, o_MetaStamps = [], o_DisableSources = True, o_WasmSlowCallWarnMs = 0,
     o_StarMaxSteps = 0\<rparr>"

definition demo_answers :: answers where
  "demo_answers = \<lparr>or_now = 7, or_id = ''m1'', or_err = None, or_trimErr = None, or_dlqErr = None, or_stop = False,
     or_apply = (\<lambda>_. Inr []), or_write = (\<lambda>_ _ _. Inr ()), or_halt = (\<lambda>_. False)\<rparr>"

definition demo_cfg :: cfg_node where
  "demo_cfg = \<lparr>cn_Name = ''k'', cn_Section = SectionSink, cn_Line = 1, cn_DependsOn = [], cn_Decoder = '''',
     cn_Encoder = ''json'', cn_Workers = 1, cn_OrderKey = '''', cn_Batch = None, cn_Plugin = ''stdout'',
     cn_PluginConfig = ANil, cn_PluginLine = 1, cn_Grpc = None, cn_Manifest = None, cn_Version = 0\<rparr>"

definition demo_pipeline :: cfg_pipeline where
  "demo_pipeline = \<lparr>cp_File = ''f'', cp_BaseDir = '''', cp_Name = ''p'', cp_Constants = [], cp_ConstantsUsed = [],
     cp_EdgeDefaults = \<lparr>ea_Delivery = None, ea_Required = None, ea_Buffer = None\<rparr>, cp_Limits = None,
     cp_Telemetry = None, cp_Run = None, cp_DLQRetention = None, cp_Parameters = [], cp_Hooks = None,
     cp_Codecs = [], cp_Sources = Map.empty, cp_Transforms = Map.empty, cp_Sinks = [''k'' \<mapsto> demo_cfg],
     cp_Order = [''k'']\<rparr>"

definition demo_env :: engine_env where
  "demo_env = \<lparr>ev_ir = \<lparr>p_Config = demo_pipeline,
       p_Nodes = [(''k'', \<lparr>nd_Name = ''k'', nd_Section = SectionSink, nd_Config = demo_cfg, nd_Out = [], nd_In = [],
                          nd_Retained = False, nd_ExplainSafe = True, nd_OrderKey = None\<rparr>)],
       p_Order = [], p_Parameters = [], p_Codecs = [], p_resolvedCodecs = []\<rparr>,
     ev_opts = demo_opts, ev_NewCodec = (\<lambda>s. Inl s), ev_fmtTime = (\<lambda>_. ''t'')\<rparr>"

definition demo_row :: message where
  "demo_row = zero_message\<lparr>msg_Codec := ''json'', msg_Meta := [''injected_at'' \<mapsto> AStr ''k'']\<rparr>"

definition demo_store :: memStore where
  "demo_store = fst (AppendSpool ''p'' demo_row 5 NewMemory)"

definition demo_memRow :: memRow where
  "demo_memRow = \<lparr>row_seq = 1, row_pipeline = ''p'', row_msg = demo_row, row_ingestTime = 5\<rparr>"

lemma demo_simps [simp]: "ev_name demo_env = ''p''" "ev_opts demo_env = demo_opts" "source_names demo_env = []"
  "the_node (ev_ir demo_env) ''k'' = Some \<lparr>nd_Name = ''k'', nd_Section = SectionSink, nd_Config = demo_cfg,
     nd_Out = [], nd_In = [], nd_Retained = False, nd_ExplainSafe = True, nd_OrderKey = None\<rparr>"
  "ms_spool demo_store = [demo_memRow]" "ms_nextSeq demo_store = 1" "ms_checkpoints demo_store = Map.empty"
  "ms_closed demo_store = False" "Checkpoint ''p'' demo_store = 0"
  by (simp_all add: demo_env_def demo_pipeline_def source_names_def demo_store_def AppendSpool_def NewMemory_def
      demo_memRow_def Let_def Checkpoint_def)

lemma demo_store_inv: "mem_inv demo_store"
  unfolding demo_store_def by (intro mem_inv_AppendSpool NewMemory_inv)

lemma demo_env_ok: "env_ok demo_env demo_store"
  by (simp add: env_ok_def demo_store_inv demo_opts_def)

lemma demo_window: "spoolWindow ''p'' 0 1 demo_store = ([demo_memRow], True)"
  using spoolWindow_spec [OF demo_store_inv, of "''p''" 0 1]
  by (cases "spoolWindow ''p'' 0 1 demo_store") (simp add: rows_after_def demo_memRow_def)

text \<open>Run has been called and the crash replay has read its one row.\<close>

definition demo_scanned :: engine where
  "demo_scanned = replaySpool demo_env demo_answers (fst (run_start (fresh_engine demo_env demo_store)))"

lemma demo_scanned_fields:
  "e_scanned demo_scanned" "e_gos demo_scanned = [(ReplayG, [TReplay [demo_memRow]])]"
  "e_store demo_scanned = demo_store" "e_log demo_scanned = []" "e_commit demo_scanned = newCommitTracker []"
  "e_queued demo_scanned = []" "e_batched demo_scanned = []" "e_dropped demo_scanned = []"
  "e_gate demo_scanned = 0" "e_acquired demo_scanned = {}" "e_replayDone demo_scanned = False"
  by (simp_all add: demo_scanned_def replaySpool_def demo_answers_def run_start_def fresh_engine_def Let_def
      demo_window spawn_def resumeCheckpoint_def)

lemma demo_reachable: "reachable (engine_init demo_env demo_store) (engine_step demo_env early) demo_scanned"
proof -
  let ?e0 = "fresh_engine demo_env demo_store"
  have "engine_init demo_env demo_store ?e0"
    unfolding engine_init_def newEngine_def by (intro exI [of _ "\<lambda>_. None"]) (simp add: demo_env_def)
  moreover have "engine_step demo_env early ?e0 (fst (run_start ?e0))"
    by (rule es_run) (simp add: run_start_def fresh_engine_def)
  moreover have "engine_step demo_env early (fst (run_start ?e0)) demo_scanned"
    unfolding demo_scanned_def by (rule es_replay) (simp_all add: run_start_def fresh_engine_def)
  ultimately show ?thesis by (blast intro: reach_init reach_step)
qed

section \<open>Properties\<close>






lemma isOutstanding_live: "sim_base t s \<Longrightarrow> isOutstanding q t \<longleftrightarrow> sp_live s q \<noteq> None"
  using sim_baseD(3) [of t s q] by (auto simp: isOutstanding_def split: option.splits)



text \<open>A goroutine that still has something to register shows in the counters the completion test
  reads.\<close>

lemma go_ok_pend:
  assumes "go_ok ts" and "admit_ends ts = 0" and "replay_marks ts = 0"
  shows "pend ts = {#}"
  using assms
proof (induction ts)
  case (Cons t ts)
  have n: "0 \<le> admit_ends ts" "0 \<le> replay_marks ts" by (rule counts_nonneg)+
  have z: "admit_ends ts = 0" "replay_marks ts = 0" "\<not> is_replay t" "t \<noteq> TAdmitEnd"
    using Cons.prems(2,3) n by (auto split: if_splits)
  have "pend_seqs t = []" using Cons.prems(1) z by (cases t) auto
  then show ?case using Cons.IH Cons.prems(1) z by simp
qed simp

lemma pend_concat: "(\<And>us. us \<in> set tss \<Longrightarrow> pend us = {#}) \<Longrightarrow> pend (concat tss) = {#}"
  by (induction tss) auto

lemma counts_concat: "us \<in> set tss \<Longrightarrow> admit_ends us \<le> admit_ends (concat tss)"
  "us \<in> set tss \<Longrightarrow> replay_marks us \<le> replay_marks (concat tss)"
proof -
  have n: "0 \<le> admit_ends ts" "0 \<le> replay_marks ts" for ts by (rule counts_nonneg)+
  show "us \<in> set tss \<Longrightarrow> admit_ends us \<le> admit_ends (concat tss)" using n(1)
    by (induction tss) (auto intro: add_increasing add_increasing2)
  show "us \<in> set tss \<Longrightarrow> replay_marks us \<le> replay_marks (concat tss)" using n(2)
    by (induction tss) (auto intro: add_increasing add_increasing2)
qed


text \<open>An engine on an empty store, without sources, whose replay has finished.\<close>

definition demo_idle :: engine where
  "demo_idle = (let e0 = fst (run_start (fresh_engine demo_env NewMemory));
      e1 = replaySpool demo_env demo_answers e0
    in startSources demo_env (e1\<lparr>e_replayDone := True, e_gos := [(ReplayG, [])]\<rparr>))"

lemma demo_idle_reachable: "engine_reachable demo_env NewMemory demo_idle"
proof -
  let ?r = "engine_reachable demo_env NewMemory" and ?step = "engine_step demo_env False"
  let ?e0 = "fresh_engine demo_env NewMemory"
  let ?e1 = "fst (run_start ?e0)" and ?e2 = "replaySpool demo_env demo_answers (fst (run_start ?e0))"
  let ?e3 = "?e2\<lparr>e_gos := [(ReplayG, [TReplayDone])]\<rparr>"
  let ?e4 = "?e2\<lparr>e_replayDone := True, e_gos := [(ReplayG, [])]\<rparr>"
  have win: "fst (spoolWindow ''p'' 0 0 NewMemory) = []" by (simp add: spoolWindow_def)
  have gos: "e_gos ?e2 = [(ReplayG, [TReplay []])]"
    by (simp add: replaySpool_def demo_answers_def run_start_def fresh_engine_def Let_def win spawn_def
        resumeCheckpoint_def NewMemory_def Checkpoint_def spoolWindow_def)
  have i: "engine_init demo_env NewMemory ?e0"
    unfolding engine_init_def newEngine_def by (intro exI [of _ "\<lambda>_. None"]) (simp add: demo_env_def)
  have s1: "?step ?e0 ?e1" by (rule es_run) (simp add: run_start_def fresh_engine_def)
  have s2: "?step ?e1 ?e2" by (rule es_replay) (simp_all add: run_start_def fresh_engine_def)
  have r0: "?r ?e0" by (rule reach_init) (rule i)
  have r2: "?r ?e2" by (rule reach_step [OF reach_step [OF r0 s1] s2])
  have "?step ?e2 ?e3"
    using es_exec [of ?e2 "[]" ReplayG "TReplay []" "[]" "[]" demo_env demo_answers ?e2 "[TReplayDone]" False] gos by simp
  from reach_step [OF r2 this] have r3: "?r ?e3" .
  have "?step ?e3 ?e4"
    using es_exec [of ?e3 "[]" ReplayG TReplayDone "[]" "[]" demo_env demo_answers "?e3\<lparr>e_replayDone := True\<rparr>" "[]" False]
    by simp
  from reach_step [OF r3 this] have r4: "?r ?e4" .
  have "?step ?e4 (startSources demo_env ?e4)"
    by (rule es_sources)
      (simp_all add: replaySpool_def demo_answers_def run_start_def fresh_engine_def Let_def spawn_def resumeCheckpoint_def
        NewMemory_def Checkpoint_def spoolWindow_def)
  from reach_step [OF r4 this] show ?thesis unfolding demo_idle_def Let_def .
qed

lemma demo_idle_fields: "SourcesDone demo_idle" "e_replayDone demo_idle" "e_admitting demo_idle = 0"
  "e_commit demo_idle = newCommitTracker []" "e_flushAttempted demo_idle = 0"
  by (simp_all add: demo_idle_def replaySpool_def demo_answers_def run_start_def fresh_engine_def Let_def spawn_def
      resumeCheckpoint_def NewMemory_def Checkpoint_def spoolWindow_def startSources_def demo_opts_def SourcesDone_def)


definition demo_request :: admitRequest where
  "demo_request = \<lparr>ar_mode = AdmitInject, ar_node = ''k'', ar_msg = zero_message, ar_seq = 0, ar_ingest = 0,
     ar_intoNode = True\<rparr>"

lemma exec_step:
  assumes "reachable init (engine_step v early) e" and "e_gos e = xs @ (g, t # ts) # ys"
    and "exec v orc t e = Next e1 new"
  shows "reachable init (engine_step v early) (e1\<lparr>e_gos := xs @ (g, new @ ts) # ys\<rparr>)"
  by (rule reach_step [OF assms(1) es_exec [OF assms(2,3)]])

text \<open>
  C31. An injection that comes before the crash replay has read its rows is registered twice. The code
  only checks that the engine has started, so this state is reachable: one message, injected at a
  sink, has two branches in flight while the tracker counts one, and two slots of the admission
  gate are in use for one acquired message: the branch accounts and the backpressure accounts fail.
\<close>

theorem early_injection_registers_twice:
  "\<exists>e. reachable (engine_init demo_env NewMemory) (engine_step demo_env True) e \<and> e_log e = []
     \<and> count (holders e) 1 = 2 \<and> openBranches (e_commit e) = 1 \<and> e_gate e = 2 \<and> e_acquired e = {1}
     \<and> ms_nextSeq (e_store e) = 1"
proof -
  let ?r = "reachable (engine_init demo_env NewMemory) (engine_step demo_env True)"
  let ?init = "engine_init demo_env NewMemory"
  define e0 where "e0 = fresh_engine demo_env NewMemory"
  define e1 where "e1 = fst (run_start e0)"
  define e2 where "e2 = begin_admission demo_request e1"
  define msg where "msg = fst (stamp demo_env demo_answers demo_request)"
  have st: "stamp demo_env demo_answers demo_request = (msg, 7)"
    by (simp add: msg_def stamp_def demo_request_def demo_answers_def Let_def)
  have inj: "msg_Meta msg ''injected_at'' = Some (AStr ''k'')"
    by (simp add: msg_def stamp_def demo_request_def demo_answers_def demo_opts_def Let_def)
  define e3 where "e3 = e2\<lparr>e_gate := 1, e_gos := [(EntryG, [TAppend demo_request, TAdmitEnd])]\<rparr>"
  define e4 where "e4 = e3\<lparr>e_store := fst (AppendSpool ''p'' msg 7 NewMemory),
      e_gos := [(EntryG, [TRegister demo_request 1 msg 7, TAdmitEnd])]\<rparr>"
  define e5 where "e5 = e4\<lparr>e_acquired := {1}, e_commit := arrived 1 '''' 0 (newCommitTracker []),
      e_gos := [(EntryG, [TDispatch True ''k'' 1 msg, TAdmitEnd])]\<rparr>"
  let ?row = "\<lparr>row_seq = 1, row_pipeline = ''p'', row_msg = msg, row_ingestTime = 7\<rparr>"
  define e6 where "e6 = replaySpool demo_env demo_answers e5"
  define req where "req = \<lparr>ar_mode = AdmitReplay, ar_node = ''k'', ar_msg = msg, ar_seq = 1, ar_ingest = 7, ar_intoNode = True\<rparr>"
  let ?rest = "[(EntryG, [TDispatch True ''k'' 1 msg, TAdmitEnd])]"
  define e7 where "e7 = e6\<lparr>e_admitting := 2, e_gos := (ReplayG, [TGate req, TAdmitEnd, TReplay []]) # ?rest\<rparr>"
  define e8 where "e8 = e7\<lparr>e_gate := 2, e_gos := (ReplayG, [TAppend req, TAdmitEnd, TReplay []]) # ?rest\<rparr>"
  define e9 where "e9 = e8\<lparr>e_gos := (ReplayG, [TRegister req 1 msg 7, TAdmitEnd, TReplay []]) # ?rest\<rparr>"
  define e10 where "e10 = e9\<lparr>e_acquired := {1}, e_commit := arrived 1 '''' 0 (e_commit e5),
      e_gos := (ReplayG, [TDispatch True ''k'' 1 msg, TAdmitEnd, TReplay []]) # ?rest\<rparr>"
  note defs = e0_def e1_def e2_def e3_def e4_def e5_def
  have "?init e0" unfolding e0_def engine_init_def newEngine_def
    by (intro exI [of _ "\<lambda>_. None"]) (simp add: demo_env_def)
  moreover have "engine_step demo_env True e0 e1" unfolding e1_def
    by (rule es_run) (simp add: e0_def run_start_def fresh_engine_def)
  ultimately have r1: "?r e1" by (blast intro: reach_init reach_step)
  have "injectAt demo_env ''k'' zero_message e1 = Inr e2"
    by (simp add: injectAt_def e1_def e2_def run_start_def e0_def fresh_engine_def demo_request_def
        node_section_is_def demo_cfg_def)
  then have r2: "?r e2" by (intro reach_step [OF r1 es_inject]) simp_all
  have g2: "e_gos e2 = [] @ (EntryG, TGate demo_request # [TAdmitEnd]) # []" "e_gate e2 = 0"
    by (simp_all add: defs begin_admission_def spawn_def run_start_def fresh_engine_def)
  have r3: "?r e3"
    using exec_step [OF r2 g2(1), of demo_answers "e2\<lparr>e_gate := 1\<rparr>" "[TAppend demo_request]"] g2
    by (simp add: e3_def admit_gate_def demo_answers_def demo_opts_def)
  have store: "e_store e3 = NewMemory" by (simp add: defs begin_admission_def spawn_def run_start_def fresh_engine_def)
  have ap: "AppendSpool ''p'' msg 7 NewMemory = (fst (AppendSpool ''p'' msg 7 NewMemory), Inr 1)"
    by (simp add: AppendSpool_def NewMemory_def Let_def)
  have mode: "ar_mode demo_request = AdmitInject" and noerr: "or_err demo_answers = None"
    by (simp_all add: demo_request_def demo_answers_def)
  have r4: "?r e4"
  proof -
    have "exec demo_env demo_answers (TAppend demo_request) e3
        = Next (e3\<lparr>e_store := fst (AppendSpool ''p'' msg 7 NewMemory)\<rparr>) [TRegister demo_request 1 msg 7]"
      by (simp add: admit_append_def mode noerr st store) (subst ap, simp)
    from exec_step [OF r3 _ this, of "[]" EntryG "[TAdmitEnd]" "[]"] show ?thesis by (simp add: e4_def e3_def)
  qed
  have c4: "e_commit e4 = newCommitTracker []" "e_acquired e4 = {}"
    by (simp_all add: defs begin_admission_def spawn_def run_start_def fresh_engine_def)
  have r5: "?r e5"
    using exec_step [OF r4, of "[]" EntryG "TRegister demo_request 1 msg 7" "[TAdmitEnd]" "[]" demo_answers
        "e4\<lparr>e_acquired := {1}, e_commit := arrived 1 '''' 0 (newCommitTracker [])\<rparr>" "[TDispatch True ''k'' 1 msg]"] c4
    by (simp add: e5_def e4_def admit_register_def Let_def demo_request_def)
  have s5: "e_store e5 = fst (AppendSpool ''p'' msg 7 NewMemory)" "e_started e5" "\<not> e_scanned e5" "e_runErr e5 = None"
    "e_admitting e5 = 1" "e_gate e5 = 1" "e_acquired e5 = {1}" "e_queued e5 = []" "e_batched e5 = []" "e_dropped e5 = []"
    "e_log e5 = []" "e_commit e5 = arrived 1 '''' 0 (newCommitTracker [])"
    by (simp_all add: defs begin_admission_def spawn_def run_start_def fresh_engine_def)
  have r6: "?r e6" unfolding e6_def by (rule reach_step [OF r5 es_replay]) (use s5 in simp_all)
  have inv: "mem_inv (fst (AppendSpool ''p'' msg 7 NewMemory))" by (intro mem_inv_AppendSpool NewMemory_inv)
  have sp: "ms_spool (fst (AppendSpool ''p'' msg 7 NewMemory)) = [?row]"
    "Checkpoint ''p'' (fst (AppendSpool ''p'' msg 7 NewMemory)) = 0"
    "ms_nextSeq (fst (AppendSpool ''p'' msg 7 NewMemory)) = 1"
    by (simp_all add: AppendSpool_def NewMemory_def Let_def Checkpoint_def)
  have win: "fst (spoolWindow ''p'' 0 1 (fst (AppendSpool ''p'' msg 7 NewMemory))) = [?row]"
    using spoolWindow_spec(1) [OF inv, of "''p''" 0 1] by (simp add: rows_after_def sp)
  have e6: "e6 = spawn ReplayG [TReplay [?row]] (e5\<lparr>e_scanned := True\<rparr>)"
    by (simp add: e6_def replaySpool_def demo_answers_def s5 sp win Let_def resumeCheckpoint_def)
  have g6: "e_gos e6 = [] @ (ReplayG, TReplay [?row] # []) # ?rest" by (simp add: e6 spawn_def e5_def)
  have entry: "replayEntry demo_env msg = Some (''k'', True)" by (simp add: replayEntry_def inj Let_def)
  have r7: "?r e7"
    using exec_step [OF r6 g6, of demo_answers "e6\<lparr>e_admitting := 2\<rparr>" "[TGate req, TAdmitEnd, TReplay []]"] s5
    by (simp add: e7_def replay_row_def entry req_def e6 spawn_def)
  have r8: "?r e8"
    using exec_step [OF r7, of "[]" ReplayG "TGate req" "[TAdmitEnd, TReplay []]" ?rest demo_answers
        "e7\<lparr>e_gate := 2\<rparr>" "[TAppend req]"] s5
    by (simp add: e8_def e7_def e6 spawn_def admit_gate_def demo_answers_def demo_opts_def)
  have codec: "msg_Codec msg = ''json''"
    by (simp add: msg_def stamp_def demo_request_def zero_message_def Let_def)
  have r9: "?r e9"
    using exec_step [OF r8, of "[]" ReplayG "TAppend req" "[TAdmitEnd, TReplay []]" ?rest demo_answers
        e8 "[TRegister req 1 msg 7]"]
    by (simp add: e9_def e8_def admit_append_def req_def codec)
  have r10: "?r e10"
    using exec_step [OF r9, of "[]" ReplayG "TRegister req 1 msg 7" "[TAdmitEnd, TReplay []]" ?rest demo_answers
        "e9\<lparr>e_acquired := {1}, e_commit := arrived 1 '''' 0 (e_commit e5)\<rparr>" "[TDispatch True ''k'' 1 msg]"] s5
    by (simp add: e10_def e9_def e8_def e7_def e6 spawn_def admit_register_def Let_def req_def)
  have "count (holders e10) 1 = 2"
    using s5 by (simp add: holders_def go_tasks_def env_toks_def e10_def e9_def e8_def e7_def e6 spawn_def)
  moreover have "openBranches (e_commit e10) = 1"
    using s5 by (simp add: e10_def arrived_fields outstanding_of_def posBranches_def newCommitTracker_def)
  moreover have "e_log e10 = []" "e_gate e10 = 2" "e_acquired e10 = {1}" "ms_nextSeq (e_store e10) = 1"
    using s5 sp by (simp_all add: e10_def e9_def e8_def e7_def e6 spawn_def)
  ultimately show ?thesis using r10 by blast
qed

section \<open>Persisting the checkpoint\<close>

text \<open>The durable position is a high-water mark: whatever order the advances are flushed in, and
  whichever writes fail, it never moves back.\<close>

lemma persisted_step:
  "e_persistedThrough (persistCheckpoint v orc thru fr e)
     = (if or_err orc = None then max (e_persistedThrough e) thru else e_persistedThrough e)"
  by (simp add: persist_defs)

interpretation durable_mark: high_water_mark e_persistedThrough
  "\<lambda>(orc, thru, fr). persistCheckpoint v orc thru fr" for v
  by unfold_locales (auto simp: persisted_step split: prod.splits)


text \<open>
  C33. The attempt pointer does regress: when two checkpoint writes fail and the later advance is
  flushed first, the pointer ends at the earlier one, below the committed prefix, and the engine then
  calls itself neither quiesced nor fully committed, although nothing is left to flush.
\<close>

theorem flush_attempt_regresses:
  assumes "committedThrough (e_commit e) = t1" and "e_persistedThrough e < t2" and "t2 < t1"
    and "or_err o1 \<noteq> None" and "or_err o2 \<noteq> None"
  shows "durableThrough (persistCheckpoint v o2 t2 fr2 (persistCheckpoint v o1 t1 fr1 e)) = t2
    \<and> \<not> Quiesced (persistCheckpoint v o2 t2 fr2 (persistCheckpoint v o1 t1 fr1 e))
    \<and> \<not> commit_complete (persistCheckpoint v o2 t2 fr2 (persistCheckpoint v o1 t1 fr1 e))
    \<and> durableThrough (persistCheckpoint v o1 t1 fr1 (persistCheckpoint v o2 t2 fr2 e)) = t1"
proof -
  have p: "persistCheckpoint v o1 t1 fr1 x = x\<lparr>e_flushAttempted := t1\<rparr>" if "e_persistedThrough x < t2" for x
    using that assms by (simp add: persistCheckpoint_def)
  have q: "persistCheckpoint v o2 t2 fr2 x = x\<lparr>e_flushAttempted := t2\<rparr>" if "e_persistedThrough x < t2" for x
    using that assms by (simp add: persistCheckpoint_def)
  show ?thesis using assms(1-3)
    by (simp add: p q durableThrough_def Quiesced_def commit_complete_def snapshot_def)
qed

theorem flush_attempt_regresses_witness:
  "\<not> Quiesced (persistCheckpoint demo_env (demo_answers\<lparr>or_err := Some ''disk full''\<rparr>) 3 Map.empty
     (persistCheckpoint demo_env (demo_answers\<lparr>or_err := Some ''disk full''\<rparr>) 5 Map.empty
       (demo_idle\<lparr>e_commit := resumeFrom 5 (newCommitTracker [])\<rparr>)))"
proof -
  let ?e = "demo_idle\<lparr>e_commit := resumeFrom 5 (newCommitTracker [])\<rparr>"
  have "committedThrough (e_commit ?e) = 5" by (simp add: resumeFrom_def newCommitTracker_def Let_def)
  moreover have "e_persistedThrough ?e = 0"
    by (simp add: demo_idle_def replaySpool_def demo_answers_def run_start_def fresh_engine_def Let_def spawn_def
        resumeCheckpoint_def NewMemory_def Checkpoint_def spoolWindow_def startSources_def demo_opts_def)
  ultimately show ?thesis using flush_attempt_regresses [of ?e 5 3] by simp
qed

section \<open>Refusals and abandonment\<close>

text \<open>
  C34. A refused admission leaves no trace: when the spool append fails, the admission returns the slot
  it took, counts the failure and ends; the store, the tracker, the acquired slots, the branches in
  flight and the goroutine's other obligations are untouched, so the source may emit the message
  again.
\<close>

theorem refused_append_leaves_no_trace:
  assumes "ar_mode req \<noteq> AdmitReplay" and "or_err orc = Some err"
  shows "\<exists>e'. exec v orc (TAppend req) e = Return e' [TAdmitEnd] \<and> e_store e' = e_store e
    \<and> e_commit e' = e_commit e \<and> e_acquired e' = e_acquired e \<and> e_gate e' = e_gate e - 1
    \<and> env_toks e' = env_toks e \<and> e_log e' = e_log e
    \<and> e_metrics e' = (e_metrics e)\<lparr>mt_SpoolFailures := mt_SpoolFailures (e_metrics e) + 1\<rparr>"
proof -
  obtain msg ingest where "stamp v orc req = (msg, ingest)" by fastforce
  then show ?thesis using assms by (simp add: admit_append_def bump_def env_toks_def)
qed

theorem refused_append_leaves_no_trace_witness:
  "\<exists>e'. exec demo_env (demo_answers\<lparr>or_err := Some ''disk full''\<rparr>) (TAppend demo_request) demo_idle
      = Return e' [TAdmitEnd] \<and> e_store e' = e_store demo_idle"
  using refused_append_leaves_no_trace [of demo_request "demo_answers\<lparr>or_err := Some ''disk full''\<rparr>" "''disk full''"
      demo_env demo_idle] by (auto simp: demo_request_def)



section \<open>A run that commits\<close>

text \<open>The recovered row fits no node: the replay registers it, ends it, and the checkpoint moves over
  it: a run in which the checkpoint covers a message.\<close>

definition lost_store :: memStore where
  "lost_store = fst (AppendSpool ''p'' zero_message 5 NewMemory)"

lemma lost_store_simps [simp]:
  "ms_spool lost_store = [\<lparr>row_seq = 1, row_pipeline = ''p'', row_msg = zero_message, row_ingestTime = 5\<rparr>]"
  "ms_nextSeq lost_store = 1" "Checkpoint ''p'' lost_store = 0"
  by (simp_all add: lost_store_def AppendSpool_def NewMemory_def Let_def Checkpoint_def)

lemma lost_store_inv: "mem_inv lost_store"
  unfolding lost_store_def by (intro mem_inv_AppendSpool NewMemory_inv)

lemma lost_env_ok: "env_ok demo_env lost_store"
  by (simp add: env_ok_def lost_store_inv demo_opts_def)

lemma done_first:
  "snd (done_branch 1 (arrived 1 '''' 0 (newCommitTracker []))) = \<lparr>cb_commits = [1], cb_advance = Some (1, Map.empty)\<rparr>"
proof -
  define t where "t = (arrived 1 '''' 0 (newCommitTracker []))\<lparr>outstanding := [1 \<mapsto> 0], openBranches := 0\<rparr>"
  have pre: "committedPtr t = 1" "arrivedMax t = 1" "outstanding t = [1 \<mapsto> 0]" "srcs t = Map.empty" "srcRefs t = []"
    "removed t = {}"
    by (simp_all add: t_def arrived_def newCommitTracker_def Let_def fun_eq_iff)
  define u where "u = t\<lparr>outstanding := (outstanding t)(1 := None), removed := {}, committedPtr := 2\<rparr>"
  have l1: "advance_loop t [] False = advance_loop u [1] True"
    by (subst advance_loop.simps) (simp add: pre passable_def u_def)
  have l2: "advance_loop u [1] True = (u, [1], True)"
    by (subst advance_loop.simps) (simp add: pre passable_def u_def)
  have adv: "advanceLocked t = (u\<lparr>srcRefs := [], srcs := Map.empty\<rparr>, [1], Some (1, Map.empty))"
    unfolding advanceLocked_def l1 l2 prod.case
    by (simp add: sweepSrcRefsLocked_def frontiers_of_def u_def pre Let_def fun_eq_iff)
  have out: "outstanding (arrived 1 '''' 0 (newCommitTracker [])) 1 = Some 1" by (simp add: arrived_fields)
  have red: "(arrived 1 '''' 0 (newCommitTracker []))\<lparr>outstanding := (outstanding (arrived 1 '''' 0 (newCommitTracker [])))(1 \<mapsto> 0),
      openBranches := openBranches (arrived 1 '''' 0 (newCommitTracker [])) + (posBranches 0 - posBranches 1)\<rparr> = t"
    by (simp add: t_def arrived_fields newCommitTracker_def posBranches_def outstanding_of_def)
  show ?thesis
    unfolding done_branch_def add_delta_def out Let_def by (simp add: red adv invoke_def pre)
qed

definition lost_scanned :: engine where
  "lost_scanned = replaySpool demo_env demo_answers (fst (run_start (fresh_engine demo_env lost_store)))"

definition lost_registered :: engine where
  "lost_registered = lost_scanned\<lparr>e_commit := arrived 1 '''' 0 (newCommitTracker []),
     e_gos := [(ReplayG, [TDone 1 Unroutable, TReplay []])]\<rparr>"

definition lost_done :: engine where
  "lost_done = lost_registered\<lparr>e_commit := fst (done_branch 1 (arrived 1 '''' 0 (newCommitTracker []))),
     e_log := [(1, Unroutable)], e_gos := [(ReplayG, [TOnCommit 1, TPersist 1 Map.empty, TReplay []])]\<rparr>"

definition lost_committed :: engine where
  "lost_committed = (onCommit 1 lost_done)\<lparr>e_gos := [(ReplayG, [TPersist 1 Map.empty, TReplay []])]\<rparr>"

definition lost_final :: engine where
  "lost_final = (persistCheckpoint demo_env demo_answers 1 Map.empty lost_committed)\<lparr>e_gos := [(ReplayG, [TReplay []])]\<rparr>"

lemma lost_scanned_fields:
  "e_gos lost_scanned = [(ReplayG, [TReplay [\<lparr>row_seq = 1, row_pipeline = ''p'', row_msg = zero_message,
     row_ingestTime = 5\<rparr>]])]"
  "e_commit lost_scanned = newCommitTracker []" "e_log lost_scanned = []" "e_store lost_scanned = lost_store"
  "e_persistedThrough lost_scanned = 0" "e_scanned lost_scanned" "e_retentionDue lost_scanned = 0"
  "e_flushAttempted lost_scanned = 0" "e_acquired lost_scanned = {}"
proof -
  have win: "fst (spoolWindow ''p'' 0 1 lost_store)
      = [\<lparr>row_seq = 1, row_pipeline = ''p'', row_msg = zero_message, row_ingestTime = 5\<rparr>]"
    using spoolWindow_spec(1) [OF lost_store_inv, of "''p''" 0 1] by (simp add: rows_after_def)
  show "e_gos lost_scanned = [(ReplayG, [TReplay [\<lparr>row_seq = 1, row_pipeline = ''p'', row_msg = zero_message,
     row_ingestTime = 5\<rparr>]])]"
    "e_commit lost_scanned = newCommitTracker []" "e_log lost_scanned = []" "e_store lost_scanned = lost_store"
    "e_persistedThrough lost_scanned = 0" "e_scanned lost_scanned" "e_retentionDue lost_scanned = 0"
    "e_flushAttempted lost_scanned = 0" "e_acquired lost_scanned = {}"
    by (simp_all add: lost_scanned_def replaySpool_def demo_answers_def run_start_def fresh_engine_def Let_def win
        spawn_def resumeCheckpoint_def)
qed

lemma lost_final_reachable: "engine_reachable demo_env lost_store lost_final"
proof -
  let ?r = "engine_reachable demo_env lost_store" and ?e0 = "fresh_engine demo_env lost_store"
  have i: "engine_init demo_env lost_store ?e0"
    unfolding engine_init_def newEngine_def by (intro exI [of _ "\<lambda>_. None"]) (simp add: demo_env_def)
  have r0: "?r ?e0" by (rule reach_init) (rule i)
  have s1: "engine_step demo_env False ?e0 (fst (run_start ?e0))"
    by (rule es_run) (simp add: run_start_def fresh_engine_def)
  have s2: "engine_step demo_env False (fst (run_start ?e0)) lost_scanned"
    unfolding lost_scanned_def by (rule es_replay) (simp_all add: run_start_def fresh_engine_def)
  have r2: "?r lost_scanned" by (rule reach_step [OF reach_step [OF r0 s1] s2])
  have entry: "replayEntry demo_env zero_message = None" by (simp add: replayEntry_def zero_message_def Let_def)
  have r3: "?r lost_registered"
    using exec_step [OF r2, of "[]" ReplayG _ "[]" "[]" demo_answers
        "lost_scanned\<lparr>e_commit := arrived 1 '''' 0 (newCommitTracker [])\<rparr>" "[TDone 1 Unroutable, TReplay []]"]
    by (simp add: lost_scanned_fields replay_row_def entry lost_registered_def)
  obtain t cb where d: "done_branch 1 (arrived 1 '''' 0 (newCommitTracker [])) = (t, cb)" by fastforce
  have cb: "hooks cb = [TOnCommit 1, TPersist 1 Map.empty]" using done_first d by (simp add: hooks_def)
  have r4: "?r lost_done"
    using exec_step [OF r3, of "[]" ReplayG "TDone 1 Unroutable" "[TReplay []]" "[]" demo_answers
        "lost_registered\<lparr>e_commit := t, e_log := [(1, Unroutable)]\<rparr>" "hooks cb"]
    by (simp add: lost_registered_def lost_scanned_fields commit_done_def d cb lost_done_def)
  have r5: "?r lost_committed"
    using exec_step [OF r4, of "[]" ReplayG "TOnCommit 1" "[TPersist 1 Map.empty, TReplay []]" "[]" demo_answers
        "onCommit 1 lost_done" "[]"] by (simp add: lost_done_def lost_committed_def)
  have gos: "e_gos lost_committed = [] @ (ReplayG, TPersist 1 Map.empty # [TReplay []]) # []"
    by (simp add: lost_committed_def)
  show ?thesis
    using exec_step [OF r5 gos, of demo_answers "persistCheckpoint demo_env demo_answers 1 Map.empty lost_committed" "[]"]
    by (simp add: lost_final_def)
qed

lemma lost_final_fields: "Checkpoint ''p'' (e_store lost_final) = 1" "e_scanned lost_final"
proof -
  have d: "e_store lost_done = lost_store" "e_persistedThrough lost_done = 0" "e_retentionDue lost_done = 0"
    "e_flushAttempted lost_done = 0" "e_scanned lost_done" "e_acquired lost_done = {}"
    by (simp_all add: lost_done_def lost_registered_def lost_scanned_fields)
  have o: "e_store lost_committed = lost_store" "e_persistedThrough lost_committed = 0" "e_scanned lost_committed"
    using d by (simp_all add: lost_committed_def onCommit_def takeAccepted_def release_def bump_def)
  show "e_scanned lost_final" using o by (simp add: lost_final_def)
  show "Checkpoint ''p'' (e_store lost_final) = 1"
    using persist_store(2,3) [of lost_committed demo_env, where orc = demo_answers and thru = 1 and fr = Map.empty] o
    by (simp add: lost_final_def lost_store_inv demo_opts_def demo_answers_def)
qed


end
