(* ===== verification/Spec2Isabelle.thy ===== *)
theory Spec2Isabelle
  imports Frontier WriterSpec SqliteStore SourceCommit Topology EngineProps
begin

text \<open>
  Eventboat: see the other theories.
\<close>

end
